(* ===== verification/Prelude.thy ===== *)
theory Prelude
  imports Main "HOL-Library.Word" "HOL-Library.Code_Target_Nat"
begin

text \<open>
  Shared ground of the development: the machine integer types, the byte orders of
  \<open>to_be_bytes\<close> / \<open>to_le_bytes\<close> and their inverses, the contract of a fixed-width codec as a
  locale with its instances, and the list facts the components share.  The collection
  \<open>codec\<close> holds the round-trip equations of every byte encoding of the development; the
  collection \<open>daemon_frame\<close> the facts that an operation leaves a field of the state alone.
\<close>

type_synonym u8 = "8 word"
type_synonym u16 = "16 word"
type_synonym u32 = "32 word"
type_synonym u64 = "64 word"
type_synonym bytes = "u8 list"

named_theorems codec
named_theorems daemon_frame

section \<open>Byte orders\<close>

text \<open>\<open>le_enc n v\<close> is the least significant byte first encoding of \<open>v\<close> in \<open>n\<close> bytes.\<close>

fun le_enc :: "nat \<Rightarrow> nat \<Rightarrow> bytes" where
  "le_enc 0 v = []"
| "le_enc (Suc n) v = word_of_nat (v mod 256) # le_enc n (v div 256)"

fun le_dec :: "bytes \<Rightarrow> nat" where
  "le_dec [] = 0"
| "le_dec (b # bs) = unat b + 256 * le_dec bs"

definition be_enc :: "nat \<Rightarrow> nat \<Rightarrow> bytes" where
  "be_enc n v = rev (le_enc n v)"

definition be_dec :: "bytes \<Rightarrow> nat" where
  "be_dec bs = le_dec (rev bs)"

lemma unat_u8_less [simp]: "unat (b :: u8) < 256"
  using unsigned_less [of b, where ?'a = nat] by simp

lemma unat_u16_less: "unat (w :: u16) < 65536"
  using unsigned_less [of w, where ?'a = nat] by simp

lemma unat_u32_less: "unat (w :: u32) < 4294967296"
  using unsigned_less [of w, where ?'a = nat] by simp

lemma unat_u8_mod [simp]: "unat (b :: u8) mod 256 = unat b"
  by (rule mod_less) (rule unat_u8_less)

lemma unat_byte [simp]: "unat (word_of_nat (v mod 256) :: u8) = v mod 256"
  by (simp add: unat_of_nat)

lemma byte_of_unat [simp]: "(word_of_nat ((unat b + 256 * k) mod 256) :: u8) = b"
  by simp

lemma div_byte [simp]: "(unat (b :: u8) + 256 * k) div 256 = k"
  by (simp add: div_eq_0_iff)

lemma length_le_enc [simp]: "length (le_enc n v) = n"
  by (induction n arbitrary: v) auto

lemma le_dec_enc: "le_dec (le_enc n v) = v mod 256 ^ n"
proof (induction n arbitrary: v)
  case 0
  then show ?case by simp
next
  case (Suc n)
  have "le_dec (le_enc (Suc n) v) = v mod 256 + 256 * (v div 256 mod 256 ^ n)"
    by (simp add: Suc.IH)
  also have "\<dots> = v mod (256 * 256 ^ n)"
    by (simp add: mod_mult2_eq add.commute)
  finally show ?case by simp
qed

lemma le_enc_dec: "length bs = n \<Longrightarrow> le_enc n (le_dec bs) = bs"
  by (induction bs arbitrary: n) auto

lemma le_dec_bound: "le_dec bs < 256 ^ length bs"
proof (induction bs)
  case Nil
  then show ?case by simp
next
  case (Cons b bs)
  have "unat b + 256 * le_dec bs < 256 * Suc (le_dec bs)"
    by simp
  also have "\<dots> \<le> 256 * 256 ^ length bs"
    using Cons by (intro mult_le_mono2) simp
  finally show ?case by simp
qed

lemma length_be_enc [simp]: "length (be_enc n v) = n"
  by (simp add: be_enc_def)

lemma be_dec_enc: "be_dec (be_enc n v) = v mod 256 ^ n"
  by (simp add: be_enc_def be_dec_def le_dec_enc)

lemma be_enc_dec: "length bs = n \<Longrightarrow> be_enc n (be_dec bs) = bs"
  by (simp add: be_enc_def be_dec_def le_enc_dec)

lemma be_dec_bound: "be_dec bs < 256 ^ length bs"
  using le_dec_bound [of "rev bs"] by (simp add: be_dec_def)

section \<open>The contract of a fixed-width codec\<close>

text \<open>
  The laws the wire formats rely on: a value takes exactly \<open>width\<close> bytes, and decoding is the
  inverse of encoding on those bytes.  From them follow the facts about a value at the head of a
  longer buffer, which every framing proof uses.
\<close>

locale fixed_codec =
  fixes width :: nat
    and enc :: "'a \<Rightarrow> bytes"
    and dec :: "bytes \<Rightarrow> 'a"
  assumes enc_width: "length (enc x) = width"
    and dec_enc: "dec (enc x) = x"
    and enc_dec: "length bs = width \<Longrightarrow> enc (dec bs) = bs"
begin

lemma take_enc: "take width (enc x @ rest) = enc x"
  by (simp add: enc_width)

lemma drop_enc: "drop width (enc x @ rest) = rest"
  by (simp add: enc_width)

lemma dec_take: "dec (take width (enc x @ rest)) = x"
  by (simp add: enc_width dec_enc)

lemma enc_inject: "enc x @ r = enc y @ s \<longleftrightarrow> x = y \<and> r = s"
proof
  assume eq: "enc x @ r = enc y @ s"
  then have "enc x = enc y" and rs: "r = s"
    by (simp_all add: append_eq_append_conv enc_width)
  then have "dec (enc x) = dec (enc y)" by simp
  with rs show "x = y \<and> r = s" by (simp add: dec_enc)
qed simp

lemma split_at_width: "width \<le> length bs \<Longrightarrow> bs = enc (dec (take width bs)) @ drop width bs"
  by (simp add: enc_dec)

end

definition u16_be :: "u16 \<Rightarrow> bytes" where
  "u16_be w = be_enc 2 (unat w)"

definition u16_from_be :: "bytes \<Rightarrow> u16" where
  "u16_from_be bs = word_of_nat (be_dec bs)"

definition u32_be :: "u32 \<Rightarrow> bytes" where
  "u32_be w = be_enc 4 (unat w)"

definition u32_from_be :: "bytes \<Rightarrow> u32" where
  "u32_from_be bs = word_of_nat (be_dec bs)"

definition u16_le :: "u16 \<Rightarrow> bytes" where
  "u16_le w = le_enc 2 (unat w)"

definition u16_from_le :: "bytes \<Rightarrow> u16" where
  "u16_from_le bs = word_of_nat (le_dec bs)"

definition u32_le :: "u32 \<Rightarrow> bytes" where
  "u32_le w = le_enc 4 (unat w)"

definition u32_from_le :: "bytes \<Rightarrow> u32" where
  "u32_from_le bs = word_of_nat (le_dec bs)"

lemma unat_u16: "unat (w :: u16) mod 65536 = unat w"
  by (rule mod_less) (rule unat_u16_less)

lemma unat_u32: "unat (w :: u32) mod 4294967296 = unat w"
  by (rule mod_less) (rule unat_u32_less)

interpretation be16: fixed_codec 2 u16_be u16_from_be
proof
  show "length (u16_be x) = 2" for x
    by (simp add: u16_be_def)
  show "u16_from_be (u16_be x) = x" for x
    by (simp add: u16_be_def u16_from_be_def be_dec_enc unat_u16)
  show "u16_be (u16_from_be bs) = bs" if "length bs = 2" for bs
    using that be_dec_bound [of bs]
    by (simp add: u16_be_def u16_from_be_def unat_of_nat be_enc_dec)
qed

interpretation be32: fixed_codec 4 u32_be u32_from_be
proof
  show "length (u32_be x) = 4" for x
    by (simp add: u32_be_def)
  show "u32_from_be (u32_be x) = x" for x
    by (simp add: u32_be_def u32_from_be_def be_dec_enc unat_u32)
  show "u32_be (u32_from_be bs) = bs" if "length bs = 4" for bs
    using that be_dec_bound [of bs]
    by (simp add: u32_be_def u32_from_be_def unat_of_nat be_enc_dec)
qed

interpretation le16: fixed_codec 2 u16_le u16_from_le
proof
  show "length (u16_le x) = 2" for x
    by (simp add: u16_le_def)
  show "u16_from_le (u16_le x) = x" for x
    by (simp add: u16_le_def u16_from_le_def le_dec_enc unat_u16)
  show "u16_le (u16_from_le bs) = bs" if "length bs = 2" for bs
    using that le_dec_bound [of bs]
    by (simp add: u16_le_def u16_from_le_def unat_of_nat le_enc_dec)
qed

interpretation le32: fixed_codec 4 u32_le u32_from_le
proof
  show "length (u32_le x) = 4" for x
    by (simp add: u32_le_def)
  show "u32_from_le (u32_le x) = x" for x
    by (simp add: u32_le_def u32_from_le_def le_dec_enc unat_u32)
  show "u32_le (u32_from_le bs) = bs" if "length bs = 4" for bs
    using that le_dec_bound [of bs]
    by (simp add: u32_le_def u32_from_le_def unat_of_nat le_enc_dec)
qed

lemmas codec_laws [codec] =
  be16.enc_width be16.dec_enc be16.take_enc be16.drop_enc
  be32.enc_width be32.dec_enc be32.take_enc be32.drop_enc
  le16.enc_width le16.dec_enc le16.take_enc le16.drop_enc
  le32.enc_width le32.dec_enc le32.take_enc le32.drop_enc

section \<open>Lists\<close>

text \<open>\<open>Vec::retain\<close> with a \<open>HashSet\<close> of the keys already seen: the first element of every key
  stays.\<close>

fun retain_first :: "('a \<Rightarrow> 'k) \<Rightarrow> 'k set \<Rightarrow> 'a list \<Rightarrow> 'a list" where
  "retain_first key seen [] = []"
| "retain_first key seen (x # xs) =
     (if key x \<in> seen then retain_first key seen xs
      else x # retain_first key (insert (key x) seen) xs)"

lemma retain_first_set: "set (retain_first key seen xs) \<subseteq> set xs"
  by (induction key seen xs rule: retain_first.induct) auto

lemma retain_first_keys: "key ` set (retain_first key seen xs) = key ` set xs - seen"
  by (induction key seen xs rule: retain_first.induct) auto

lemma retain_first_distinct: "distinct (map key (retain_first key seen xs))"
proof (induction key seen xs rule: retain_first.induct)
  case (2 key seen x xs)
  have "key x \<notin> key ` set (retain_first key (insert (key x) seen) xs)"
    by (simp add: retain_first_keys)
  with 2 show ?case by auto
qed simp

lemma retain_first_sorted:
  "sorted (map f xs) \<Longrightarrow> sorted (map f (retain_first key seen xs))"
proof (induction key seen xs rule: retain_first.induct)
  case (2 key seen x xs)
  then show ?case
    using retain_first_set [of key "insert (key x) seen" xs] by auto
qed simp

text \<open>In a sorted list the element that stays is the least one of its key.\<close>

lemma retain_first_least:
  "sorted (map f xs) \<Longrightarrow> x \<in> set (retain_first key seen xs) \<Longrightarrow> y \<in> set xs \<Longrightarrow> key y = key x
    \<Longrightarrow> f x \<le> f y"
proof (induction key seen xs rule: retain_first.induct)
  case (2 key seen z xs)
  show ?case
  proof (cases "key z \<in> seen \<or> x \<noteq> z")
    case True
    have "key x \<noteq> key z"
    proof
      assume eq: "key x = key z"
      have "key x \<in> key ` set (retain_first key seen (z # xs))"
        using "2.prems"(2) by blast
      then have "key z \<notin> seen"
        by (simp only: retain_first_keys eq) simp
      with True "2.prems"(2) have "x \<in> set (retain_first key (insert (key z) seen) xs)"
        by (auto split: if_splits)
      then have "key x \<in> key ` set (retain_first key (insert (key z) seen) xs)"
        by blast
      then show False
        by (simp only: retain_first_keys eq) simp
    qed
    with 2 show ?thesis by (auto split: if_splits)
  next
    case False
    with "2.prems"(1,3) show ?thesis by auto
  qed
qed simp

lemma hd_filter_in: "filter P xs = y # ys \<Longrightarrow> y \<in> set xs \<and> P y"
  by (metis filter_eq_ConsD in_set_conv_decomp)

text \<open>\<open>Iterator::find\<close> and \<open>Iterator::position\<close>.\<close>

lemma find_Some_in: "List.find P xs = Some x \<Longrightarrow> x \<in> set xs \<and> P x"
  by (auto simp: find_Some_iff)

lemma find_None_all: "List.find P xs = None \<Longrightarrow> x \<in> set xs \<Longrightarrow> \<not> P x"
  by (auto simp: find_None_iff)

end
