(* ===== verification/Wire.thy ===== *)
theory Wire
  imports Prelude
begin

text \<open>
  The wire protocol between the daemon and a device (src/src/daemon.rs: the message constants,
  \<open>frame\<close>, \<open>decode_response\<close>, \<open>read_link\<close> and the messages \<open>fan_out\<close>, \<open>withdraw\<close> and \<open>ping\<close>
  write).  A byte stream is read to its end; what the reader does with a frame is a value of
  \<open>link_event\<close>, so the effects of \<open>read_link\<close> on the link are the list of its events, in order.
\<close>

section \<open>Messages\<close>

abbreviation (input) REQ :: u8 where "REQ \<equiv> 0x10"
abbreviation (input) CANCEL :: u8 where "CANCEL \<equiv> 0x11"
abbreviation (input) PING :: u8 where "PING \<equiv> 0x12"
abbreviation (input) RESP :: u8 where "RESP \<equiv> 0x20"
abbreviation (input) PONG :: u8 where "PONG \<equiv> 0x22"

definition frame :: "bytes \<Rightarrow> bytes" where
  "frame body = u32_be (word_of_nat (length body)) @ body"

definition decode_response :: "bytes \<Rightarrow> (u32 \<times> bytes) option" where
  "decode_response body =
     (if body \<noteq> [] \<and> hd body = RESP \<and> 5 \<le> length body
      then Some (u32_from_be (take 4 (drop 1 body)), drop 5 body) else None)"

definition request_message :: "u32 \<Rightarrow> bytes \<Rightarrow> bytes" where
  "request_message number data = [REQ] @ u32_be number @ data"

definition cancel_message :: "u32 \<Rightarrow> bytes" where
  "cancel_message number = [CANCEL] @ u32_be number"

text \<open>The answer to a request, as the device writes it: what \<open>decode_response\<close> undoes.\<close>

definition response_message :: "u32 \<Rightarrow> bytes \<Rightarrow> bytes" where
  "response_message number payload = [RESP] @ u32_be number @ payload"

section \<open>The reader\<close>

datatype link_event = Response u32 bytes | Pong | Panicked
datatype link_end = Eof | BadLength nat

text \<open>One turn of the loop of \<open>read_link\<close>: the next whole frame and what follows it, the end of
  the stream (inside a frame too: \<open>read_exact\<close> fails), or a length out of range.\<close>

datatype frame_read = Frame bytes bytes | Stop link_end

definition next_frame :: "bytes \<Rightarrow> frame_read" where
  "next_frame s =
     (if length s < 4 then Stop Eof
      else let len = unat (u32_from_be (take 4 s)) in
        if \<not> (1 \<le> len \<and> len \<le> 8192) then Stop (BadLength len)
        else if length (drop 4 s) < len then Stop Eof
        else Frame (take len (drop 4 s)) (drop len (drop 4 s)))"

definition handle_body :: "bytes \<Rightarrow> link_event list" where
  "handle_body body =
     (if hd body = RESP \<and> 5 \<le> length body then
        (case decode_response body of
           Some (number, payload) \<Rightarrow> [Response number payload]
         | None \<Rightarrow> [Panicked])
      else if hd body = PONG then [Pong]
      else [])"

lemma next_frame_shrinks: "next_frame s = Frame body rest \<Longrightarrow> length rest < length s"
  by (auto simp: next_frame_def Let_def split: if_splits)

function read_link :: "bytes \<Rightarrow> link_event list \<times> link_end" where
  "read_link s =
     (case next_frame s of
        Stop e \<Rightarrow> ([], e)
      | Frame body rest \<Rightarrow> (let (es, e) = read_link rest in (handle_body body @ es, e)))"
  by pat_completeness auto
termination
  by (relation "measure length") (auto simp: next_frame_shrinks)

declare read_link.simps [simp del]

section \<open>The contract of a framed stream\<close>

text \<open>
  What a reader loop needs of a framing: a written frame is read back whole and leaves the rest,
  reading a frame makes progress, more input does not change a frame already complete, and no
  frame is completed by bytes that were not there.  The loop then sees exactly the bodies that
  were written, in order, however the stream is cut.
\<close>

locale framed_stream =
  fixes ok :: "bytes \<Rightarrow> bool"
    and fr :: "bytes \<Rightarrow> bytes"
    and nxt :: "bytes \<Rightarrow> frame_read"
    and emit :: "bytes \<Rightarrow> 'e list"
    and loop :: "bytes \<Rightarrow> 'e list \<times> link_end"
  assumes nxt_written: "ok body \<Longrightarrow> nxt (fr body @ rest) = Frame body rest"
    and nxt_shrinks: "nxt s = Frame body rest \<Longrightarrow> length rest < length s"
    and nxt_extend: "nxt s = Frame body rest \<Longrightarrow> nxt (s @ t) = Frame body (rest @ t)"
    and nxt_body_ok: "nxt s = Frame body rest \<Longrightarrow> ok body"
    and nxt_frame: "nxt s = Frame body rest \<Longrightarrow> s = fr body @ rest"
    and nxt_bad_extend: "nxt s = Stop (BadLength n) \<Longrightarrow> nxt (s @ t) = Stop (BadLength n)"
    and loop_unfold: "loop s = (case nxt s of
        Stop e \<Rightarrow> ([], e)
      | Frame body rest \<Rightarrow> (let (es, e) = loop rest in (emit body @ es, e)))"
begin

lemma loop_written: "ok body \<Longrightarrow> loop (fr body @ rest) = (emit body @ fst (loop rest), snd (loop rest))"
  by (subst loop_unfold) (simp add: nxt_written split: prod.splits)

lemma loop_frames:
  "\<forall>body\<in>set bodies. ok body \<Longrightarrow>
    loop (concat (map fr bodies) @ tail)
      = (concat (map emit bodies) @ fst (loop tail), snd (loop tail))"
  by (induction bodies) (auto simp: loop_written)

text \<open>Events already read stay a prefix of the events of any longer stream.\<close>

lemma loop_extend: "\<exists>es. fst (loop (s @ t)) = fst (loop s) @ es"
proof (induction s rule: length_induct)
  case (1 s)
  show ?case
  proof (cases "nxt s")
    case (Stop e)
    then show ?thesis by (subst loop_unfold [of s]) simp
  next
    case (Frame body rest)
    with 1 obtain es where "fst (loop (rest @ t)) = fst (loop rest) @ es"
      using nxt_shrinks by blast
    with Frame show ?thesis
      by (subst loop_unfold [of s], subst loop_unfold [of "s @ t"])
         (auto simp: nxt_extend split: prod.splits)
  qed
qed

text \<open>Every stream is a sequence of whole frames and a rest that is not one; the events are those
  of the frames.\<close>

lemma loop_decompose:
  "\<exists>bodies tail. s = concat (map fr bodies) @ tail \<and> (\<forall>body\<in>set bodies. ok body)
     \<and> nxt tail = Stop (snd (loop s)) \<and> fst (loop s) = concat (map emit bodies)"
proof (induction s rule: length_induct)
  case (1 s)
  show ?case
  proof (cases "nxt s")
    case (Stop e)
    then have "loop s = ([], e)" by (subst loop_unfold) simp
    with Stop show ?thesis by (intro exI [of _ "[]"] exI [of _ s]) simp
  next
    case (Frame body rest)
    with 1 obtain bodies tail where ih: "rest = concat (map fr bodies) @ tail"
      "\<forall>body\<in>set bodies. ok body" "nxt tail = Stop (snd (loop rest))"
      "fst (loop rest) = concat (map emit bodies)"
      using nxt_shrinks by blast
    have "loop s = (emit body @ fst (loop rest), snd (loop rest))"
      using Frame by (subst loop_unfold) (simp split: prod.splits)
    with ih nxt_frame [OF Frame] nxt_body_ok [OF Frame] show ?thesis
      by (intro exI [of _ "body # bodies"] exI [of _ tail]) simp
  qed
qed

end

section \<open>The daemon's framing keeps the contract\<close>

definition body_ok :: "bytes \<Rightarrow> bool" where
  "body_ok body \<longleftrightarrow> 1 \<le> length body \<and> length body \<le> 8192"

lemma frame_length: "body_ok body \<Longrightarrow> unat (word_of_nat (length body) :: u32) = length body"
  by (simp add: body_ok_def unat_of_nat)

lemma next_frame_written: "body_ok body \<Longrightarrow> next_frame (frame body @ rest) = Frame body rest"
  by (simp add: next_frame_def frame_def codec be32.dec_take frame_length Let_def del: take_append)
     (simp add: codec body_ok_def)

lemma next_frame_split:
  assumes "next_frame s = Frame body rest"
  shows "s = frame body @ rest" and "body_ok body"
proof -
  let ?len = "unat (u32_from_be (take 4 s))"
  have len: "4 \<le> length s" "1 \<le> ?len" "?len \<le> 8192" "?len \<le> length s - 4"
    and body: "body = take ?len (drop 4 s)" and rest: "rest = drop ?len (drop 4 s)"
    using assms by (auto simp: next_frame_def Let_def split: if_splits)
  have blen: "length body = ?len"
    using len body by simp
  have head: "take 4 s = u32_be (word_of_nat (length body))"
    using len(1) unfolding blen by (simp add: be32.enc_dec)
  have "drop 4 s = body @ rest"
    unfolding body rest by (rule append_take_drop_id [symmetric])
  then have "s = take 4 s @ body @ rest"
    by (metis append_take_drop_id)
  then show "s = frame body @ rest"
    unfolding frame_def head by simp
  show "body_ok body"
    using blen len by (simp add: body_ok_def)
qed

lemma next_frame_bad_extend:
  "next_frame s = Stop (BadLength n) \<Longrightarrow> next_frame (s @ t) = Stop (BadLength n)"
  by (auto simp: next_frame_def Let_def split: if_splits)

interpretation wire: framed_stream body_ok frame next_frame handle_body read_link
proof
  show "next_frame (frame body @ rest) = Frame body rest" if "body_ok body" for body rest
    using that by (rule next_frame_written)
  show "length rest < length s" if "next_frame s = Frame body rest" for s body rest
    using that by (rule next_frame_shrinks)
  show "next_frame (s @ t) = Frame body (rest @ t)" if "next_frame s = Frame body rest"
    for s body rest t
    using next_frame_split [OF that] by (simp add: next_frame_written)
  show "body_ok body" if "next_frame s = Frame body rest" for s body rest
    using that by (rule next_frame_split)
  show "s = frame body @ rest" if "next_frame s = Frame body rest" for s body rest
    using that by (rule next_frame_split)
  show "next_frame (s @ t) = Stop (BadLength n)" if "next_frame s = Stop (BadLength n)" for s n t
    using that by (rule next_frame_bad_extend)
  show "read_link s = (case next_frame s of
        Stop e \<Rightarrow> ([], e)
      | Frame body rest \<Rightarrow> (let (es, e) = read_link rest in (handle_body body @ es, e)))" for s
    by (rule read_link.simps)
qed

lemma decode_response_message [codec]:
  "decode_response (response_message number payload) = Some (number, payload)"
  by (simp add: decode_response_def response_message_def codec)

lemma decode_response_Some:
  assumes "decode_response body = Some (number, payload)"
  shows "body = response_message number payload"
proof -
  have b: "body \<noteq> []" "hd body = RESP" "4 \<le> length (tl body)"
    and n: "number = u32_from_be (take 4 (tl body))" and p: "payload = drop 4 (tl body)"
    using assms by (cases body; auto simp: decode_response_def split: if_splits)+
  have "body = RESP # take 4 (tl body) @ drop 4 (tl body)"
    using b(1,2) by (metis append_take_drop_id list.collapse)
  also have "take 4 (tl body) = u32_be number"
    using b(3) by (simp add: n be32.enc_dec)
  finally show ?thesis
    by (simp add: response_message_def p)
qed

lemma handle_body_simps [simp]:
  "handle_body (response_message number payload) = [Response number payload]"
  "handle_body [PONG] = [Pong]"
  by (simp_all add: handle_body_def decode_response_message)
     (simp_all add: response_message_def codec)

lemma handle_body_no_panic: "Panicked \<notin> set (handle_body body)"
  by (cases body) (auto simp: handle_body_def decode_response_def)

lemma handle_body_Response:
  "Response number payload \<in> set (handle_body body) \<longleftrightarrow> body = response_message number payload"
proof
  assume "Response number payload \<in> set (handle_body body)"
  then have "decode_response body = Some (number, payload)"
    by (auto simp: handle_body_def split: if_splits option.splits)
  then show "body = response_message number payload"
    by (rule decode_response_Some)
qed simp

section \<open>Properties\<close>

text \<open>The answers a device writes, one frame each, are the events the reader produces, in order
  and unchanged; a frame torn anywhere at the end of the stream produces no event.\<close>

theorem read_link_answers:
  assumes "\<forall>(number, payload)\<in>set answers. length payload \<le> 8187"
    and "k < length (frame torn)" and "body_ok torn"
  shows "read_link (concat (map (\<lambda>(number, payload). frame (response_message number payload)) answers)
      @ take k (frame torn))
    = (map (\<lambda>(number, payload). Response number payload) answers, Eof)"
proof -
  have tail: "next_frame (take k (frame torn)) = Stop Eof"
  proof (cases "k < 4")
    case False
    then have "take 4 (take k (frame torn)) = u32_be (word_of_nat (length torn))"
      by (simp add: frame_def codec)
    with False assms(2,3) frame_length [OF assms(3)] show ?thesis
      by (simp add: next_frame_def codec Let_def body_ok_def) (simp add: frame_def codec)
  qed (simp add: next_frame_def min_def)
  have "\<forall>body\<in>set (map (\<lambda>(number, payload). response_message number payload) answers). body_ok body"
    using assms(1) by (auto simp: body_ok_def response_message_def codec)
  note written = wire.loop_frames [OF this, of "take k (frame torn)"]
  have "read_link (take k (frame torn)) = ([], Eof)"
    using tail by (subst read_link.simps) simp
  moreover have "map frame (map (\<lambda>(number, payload). response_message number payload) answers)
      = map (\<lambda>(number, payload). frame (response_message number payload)) answers"
    by auto
  moreover have "concat (map handle_body (map (\<lambda>(number, payload). response_message number payload) answers))
      = map (\<lambda>(number, payload). Response number payload) answers"
    by (induction answers) auto
  ultimately show ?thesis
    using written by (simp only: fst_conv snd_conv append_Nil2)
qed

theorem read_link_answers_witness:
  "read_link (concat (map (\<lambda>(number, payload). frame (response_message number payload)) [(7, [0, 1]), (8, [])])
      @ take 5 (frame [PONG, 1])) = ([Response 7 [0, 1], Response 8 []], Eof)"
  using read_link_answers [of "[(7, [0, 1]), (8, [])]" 5 "[PONG, 1]"]
  by (simp add: frame_def codec body_ok_def)

text \<open>C8: on any stream of bytes at all, the reader's unwrap cannot fail, each event it produces
  comes from one whole frame of 1 to 8192 bytes that really is in the stream, an answer carries
  exactly the number and payload of its frame, the reader stops only where no further frame is
  complete or a length is out of range, and bytes arriving later add events but never change
  the ones already produced.\<close>

theorem read_link_sound:
  shows "\<exists>bodies tail. s = concat (map frame bodies) @ tail \<and> (\<forall>body\<in>set bodies. body_ok body)
      \<and> next_frame tail = Stop (snd (read_link s))
      \<and> fst (read_link s) = concat (map handle_body bodies)
      \<and> Panicked \<notin> set (fst (read_link s))
      \<and> (\<forall>number payload. Response number payload \<in> set (fst (read_link s))
           \<longleftrightarrow> response_message number payload \<in> set bodies)
      \<and> (\<forall>t. \<exists>es. fst (read_link (s @ t)) = fst (read_link s) @ es)"
proof -
  obtain bodies tail where s: "s = concat (map frame bodies) @ tail" "\<forall>body\<in>set bodies. body_ok body"
    "next_frame tail = Stop (snd (read_link s))" "fst (read_link s) = concat (map handle_body bodies)"
    using wire.loop_decompose [of s] by blast
  then have "Response number payload \<in> set (fst (read_link s))
      \<longleftrightarrow> response_message number payload \<in> set bodies" for number payload
    by (simp add: handle_body_Response)
  moreover have "Panicked \<notin> set (fst (read_link s))"
    using s(4) handle_body_no_panic by simp
  ultimately show ?thesis
    using s wire.loop_extend [of s] by blast
qed

theorem read_link_sound_witness:
  "\<exists>bodies tail. frame [PONG] @ [0, 0] = concat (map frame bodies) @ tail
    \<and> fst (read_link (frame [PONG] @ [0, 0])) = concat (map handle_body bodies)"
  using read_link_sound [of "frame [PONG] @ [0, 0]"] by blast

end
