(* ===== verification/Rust_Text.thy ===== *)
theory Rust_Text
  imports Prelude
begin

text \<open>
  The \<open>str\<close> operations the program uses.  A \<open>string\<close> is the UTF-8 text byte by byte (one
  \<open>char\<close> per byte), so \<open>length\<close> is Rust's \<open>len()\<close>.  Separators are ASCII, and a byte of a
  multi-byte character is never ASCII, so splitting bytewise is splitting by characters;
  whitespace follows Unicode's \<open>White_Space\<close>, with the multi-byte characters spelled out.
\<close>

named_theorems text_rt

abbreviation "NL \<equiv> CHR 0x0A"
abbreviation "CR \<equiv> CHR 0x0D"
abbreviation "TAB \<equiv> CHR 0x09"

section \<open>Splitting and joining\<close>

fun split_on :: "'a \<Rightarrow> 'a list \<Rightarrow> 'a list list" where
  "split_on d [] = [[]]"
| "split_on d (c # cs) =
     (if c = d then [] # split_on d cs
      else (case split_on d cs of [] \<Rightarrow> [[c]] | p # ps \<Rightarrow> (c # p) # ps))"

fun join_with :: "'a list \<Rightarrow> 'a list list \<Rightarrow> 'a list" where
  "join_with sep [] = []"
| "join_with sep [p] = p"
| "join_with sep (p # ps) = p @ sep @ join_with sep ps"

lemma split_on_not_Nil [simp]: "split_on d s \<noteq> []"
  by (induction s) (auto split: list.splits)

lemma split_on_single [text_rt]: "d \<notin> set p \<Longrightarrow> split_on d p = [p]"
  by (induction p) auto

lemma split_on_append [text_rt]: "d \<notin> set p \<Longrightarrow> split_on d (p @ d # s) = p # split_on d s"
  by (induction p) auto

lemma split_on_no_sep: "p \<in> set (split_on d s) \<Longrightarrow> d \<notin> set p"
  by (induction s arbitrary: p) (auto split: if_splits list.splits)

lemma split_on_subset: "p \<in> set (split_on d s) \<Longrightarrow> set p \<subseteq> set s"
proof (induction s arbitrary: p)
  case (Cons c s)
  obtain q qs where q: "split_on d s = q # qs"
    by (meson neq_Nil_conv split_on_not_Nil)
  show ?case
    using Cons.prems Cons.IH [of q] Cons.IH [of p]
    by (auto simp: q split: if_splits)
qed simp

lemma split_on_hd: "hd (split_on d s) = takeWhile (\<lambda>c. c \<noteq> d) s"
  by (induction s) (auto split: list.splits)

lemma split_join [text_rt]:
  "ps \<noteq> [] \<Longrightarrow> \<forall>p\<in>set ps. d \<notin> set p \<Longrightarrow> split_on d (join_with [d] ps) = ps"
  by (induction "[d]" ps rule: join_with.induct) (auto simp: text_rt)

lemma join_split [text_rt]: "join_with [d] (split_on d s) = s"
proof (induction s)
  case (Cons c s)
  obtain q qs where q: "split_on d s = q # qs"
    by (meson neq_Nil_conv split_on_not_Nil)
  then show ?case
    using Cons by (cases qs) auto
qed simp

lemma split_on_app_join:
  "split_on d (s @ d # t) = split_on d s @ split_on d t"
  by (induction s) (auto split: list.splits)

lemma join_with_append:
  "ps \<noteq> [] \<Longrightarrow> qs \<noteq> [] \<Longrightarrow> join_with sep (ps @ qs) = join_with sep ps @ sep @ join_with sep qs"
proof (induction sep ps rule: join_with.induct)
  case (2 sep p)
  then show ?case by (cases qs) auto
qed auto

lemma set_join_with: "set (join_with sep ps) \<subseteq> set sep \<union> (\<Union>p\<in>set ps. set p)"
  by (induction sep ps rule: join_with.induct) auto

section \<open>Prefixes, suffixes and containment\<close>

definition starts_with :: "'a list \<Rightarrow> 'a list \<Rightarrow> bool" where
  "starts_with p s \<longleftrightarrow> take (length p) s = p"

definition strip_prefix :: "'a list \<Rightarrow> 'a list \<Rightarrow> 'a list option" where
  "strip_prefix p s = (if starts_with p s then Some (drop (length p) s) else None)"

definition strip_suffix :: "'a list \<Rightarrow> 'a list \<Rightarrow> 'a list option" where
  "strip_suffix p s =
     (if length p \<le> length s \<and> drop (length s - length p) s = p
      then Some (take (length s - length p) s) else None)"

fun contains :: "'a list \<Rightarrow> 'a list \<Rightarrow> bool" where
  "contains p [] = (p = [])"
| "contains p (c # cs) = (starts_with p (c # cs) \<or> contains p cs)"

lemma starts_with_iff: "starts_with p s \<longleftrightarrow> (\<exists>r. s = p @ r)"
  unfolding starts_with_def by (metis append_eq_conv_conj)

lemma starts_with_append [simp]: "starts_with p (p @ s)"
  by (simp add: starts_with_def)

lemma strip_prefix_append [simp]: "strip_prefix p (p @ s) = Some s"
  by (simp add: strip_prefix_def)

lemma strip_prefix_Some: "strip_prefix p s = Some r \<longleftrightarrow> s = p @ r"
  by (auto simp: strip_prefix_def starts_with_def split: if_splits)
     (metis append_take_drop_id)

lemma strip_suffix_append [simp]: "strip_suffix p (s @ p) = Some s"
  by (simp add: strip_suffix_def)

lemma contains_iff: "contains p s \<longleftrightarrow> (\<exists>a b. s = a @ p @ b)"
proof (induction s)
  case (Cons c s)
  show ?case
  proof
    assume "contains p (c # s)"
    then consider "starts_with p (c # s)" | "contains p s" by auto
    then show "\<exists>a b. c # s = a @ p @ b"
    proof cases
      case 1
      then show ?thesis by (metis append_Nil starts_with_iff)
    next
      case 2
      then show ?thesis using Cons by (metis append_Cons)
    qed
  next
    assume "\<exists>a b. c # s = a @ p @ b"
    then obtain a b where ab: "c # s = a @ p @ b" by blast
    show "contains p (c # s)"
    proof (cases a)
      case Nil
      with ab have "starts_with p (c # s)" by (simp add: starts_with_iff)
      then show ?thesis by simp
    next
      case (Cons x xs)
      with ab Cons.IH show ?thesis by auto
    qed
  qed
qed simp

lemma contains_infix [simp]: "contains p (a @ p @ b)"
  by (auto simp: contains_iff)

lemma contains_later: "contains p s \<Longrightarrow> contains p (a @ s)"
  by (metis append.assoc contains_iff)

lemma contains_earlier: "contains p s \<Longrightarrow> contains p (s @ b)"
  by (metis append.assoc contains_iff)

text \<open>\<open>str::split_once\<close> with a one-byte separator.\<close>

definition split_once :: "char \<Rightarrow> string \<Rightarrow> (string \<times> string) option" where
  "split_once d s =
     (if d \<in> set s then Some (takeWhile (\<lambda>c. c \<noteq> d) s, tl (dropWhile (\<lambda>c. c \<noteq> d) s)) else None)"

lemma split_once_append [text_rt]: "d \<notin> set p \<Longrightarrow> split_once d (p @ d # s) = Some (p, s)"
proof -
  assume "d \<notin> set p"
  then have "takeWhile (\<lambda>c. c \<noteq> d) (p @ d # s) = p" "dropWhile (\<lambda>c. c \<noteq> d) (p @ d # s) = d # s"
    by (simp_all add: takeWhile_append dropWhile_append)
  then show ?thesis by (simp add: split_once_def)
qed

section \<open>Numbers\<close>

text \<open>\<open>str::parse\<close> for an unsigned type whose largest value is \<open>limit\<close>: an optional plus sign,
  then at least one decimal digit and nothing else.\<close>

definition digit_value :: "char \<Rightarrow> nat" where
  "digit_value c = of_char c - 48"

definition is_digit :: "char \<Rightarrow> bool" where
  "is_digit c \<longleftrightarrow> 48 \<le> (of_char c :: nat) \<and> (of_char c :: nat) \<le> 57"

definition decimal_value :: "string \<Rightarrow> nat" where
  "decimal_value ds = fold (\<lambda>c v. 10 * v + digit_value c) ds 0"

definition parse_unsigned :: "nat \<Rightarrow> string \<Rightarrow> nat option" where
  "parse_unsigned limit s =
     (let ds = (if s \<noteq> [] \<and> hd s = CHR ''+'' then tl s else s) in
      if ds = [] \<or> \<not> list_all is_digit ds then None
      else if decimal_value ds \<le> limit then Some (decimal_value ds) else None)"

text \<open>\<open>to_string\<close> of a number.\<close>

fun dec_string :: "nat \<Rightarrow> string" where
  "dec_string n =
     (if n < 10 then [char_of (48 + n)] else dec_string (n div 10) @ [char_of (48 + n mod 10)])"

declare dec_string.simps [simp del]

lemma decimal_value_snoc: "decimal_value (ds @ [c]) = 10 * decimal_value ds + digit_value c"
  by (simp add: decimal_value_def)

lemma char_of_eq_zero: "char_of (48 + n) = CHR ''0'' \<longleftrightarrow> (48 + n) mod 256 = (48 :: nat)"
proof -
  have "char_of (48 + n) = CHR ''0'' \<longleftrightarrow> of_char (char_of (48 + n)) = (of_char (CHR ''0'') :: nat)"
    by (simp only: of_char_eq_iff)
  then show ?thesis by simp
qed

lemma dec_digit:
  "n < 10 \<Longrightarrow> digit_value (char_of (48 + n)) = n \<and> is_digit (char_of (48 + n))
    \<and> (char_of (48 + n) = CHR ''0'' \<longleftrightarrow> n = 0)"
  by (simp add: digit_value_def is_digit_def char_of_eq_zero)

lemma dec_string_reads:
  "decimal_value (dec_string n) = n \<and> list_all is_digit (dec_string n) \<and> dec_string n \<noteq> []"
proof (induction n rule: dec_string.induct)
  case (1 n)
  show ?case
  proof (cases "n < 10")
    case True
    then show ?thesis using dec_digit [OF True] by (simp add: dec_string.simps [of n] decimal_value_def)
  next
    case False
    then show ?thesis using 1 dec_digit [of "n mod 10"]
      by (simp add: dec_string.simps [of n] decimal_value_snoc)
  qed
qed

lemma dec_string_first: "n \<noteq> 0 \<Longrightarrow> hd (dec_string n) \<noteq> CHR ''0''"
proof (induction n rule: dec_string.induct)
  case (1 n)
  show ?case
  proof (cases "n < 10")
    case True
    then show ?thesis using dec_digit [OF True] 1 by (simp add: dec_string.simps [of n])
  next
    case False
    then have "n div 10 \<noteq> 0" by (simp add: div_eq_0_iff)
    with False 1 dec_string_reads [of "n div 10"] show ?thesis by (simp add: dec_string.simps [of n])
  qed
qed

lemma dec_string_short: "n < 10 ^ k \<Longrightarrow> k \<noteq> 0 \<Longrightarrow> length (dec_string n) \<le> k"
proof (induction k arbitrary: n)
  case (Suc k)
  show ?case
  proof (cases "n < 10")
    case False
    then have "k \<noteq> 0" using Suc.prems by (cases k) auto
    moreover have "n div 10 < 10 ^ k" using Suc.prems by (simp add: less_mult_imp_div_less mult.commute)
    ultimately show ?thesis using False Suc.IH [of "n div 10"] by (simp add: dec_string.simps [of n])
  qed (simp add: dec_string.simps [of n])
qed simp

section \<open>Lines\<close>

text \<open>\<open>str::lines\<close>: the text up to each newline, a carriage return before the newline dropped;
  text after the last newline is a line of its own, kept as it is.\<close>

definition strip_cr :: "string \<Rightarrow> string" where
  "strip_cr l = (if l \<noteq> [] \<and> last l = CR then butlast l else l)"

fun lines_from :: "string \<Rightarrow> string \<Rightarrow> string list" where
  "lines_from cur [] = (if cur = [] then [] else [cur])"
| "lines_from cur (c # cs) =
     (if c = NL then strip_cr cur # lines_from [] cs else lines_from (cur @ [c]) cs)"

definition str_lines :: "string \<Rightarrow> string list" where
  "str_lines s = lines_from [] s"

text \<open>A line as \<open>str::lines\<close> gives back what was written: no newline, no final carriage return.\<close>

definition plain_line :: "string \<Rightarrow> bool" where
  "plain_line l \<longleftrightarrow> NL \<notin> set l \<and> (l \<noteq> [] \<longrightarrow> last l \<noteq> CR)"

definition unlines :: "string list \<Rightarrow> string" where
  "unlines ls = concat (map (\<lambda>l. l @ [NL]) ls)"

lemma unlines_simps [simp]:
  "unlines [] = []" "unlines (l # ls) = l @ NL # unlines ls" "unlines (a @ b) = unlines a @ unlines b"
  by (simp_all add: unlines_def)

lemma lines_from_append:
  "NL \<notin> set l \<Longrightarrow> lines_from cur (l @ NL # s) = strip_cr (cur @ l) # lines_from [] s"
  by (induction l arbitrary: cur) auto

lemma strip_cr_plain [simp]: "plain_line l \<Longrightarrow> strip_cr l = l"
  by (auto simp: plain_line_def strip_cr_def)

lemma str_lines_Nil [simp]: "str_lines [] = []"
  by (simp add: str_lines_def)

lemma str_lines_cons [text_rt]:
  "plain_line l \<Longrightarrow> str_lines (l @ NL # s) = l # str_lines s"
  by (auto simp: str_lines_def lines_from_append plain_line_def strip_cr_def)

lemma lines_unlines [text_rt]: "\<forall>l\<in>set ls. plain_line l \<Longrightarrow> str_lines (unlines ls) = ls"
  by (induction ls) (auto simp: text_rt)

lemma lines_unlines_append:
  "\<forall>l\<in>set ls. plain_line l \<Longrightarrow> str_lines (unlines ls @ s) = ls @ str_lines s"
  by (induction ls) (auto simp: text_rt)

lemma set_strip_cr: "set (strip_cr l) \<subseteq> set l"
  by (auto simp: strip_cr_def dest: in_set_butlastD)

lemma lines_from_no_nl:
  "NL \<notin> set cur \<Longrightarrow> l \<in> set (lines_from cur s) \<Longrightarrow> NL \<notin> set l"
proof (induction cur s arbitrary: l rule: lines_from.induct)
  case (2 cur c cs)
  then show ?case
    using set_strip_cr [of cur] by (auto split: if_splits)
qed (auto split: if_splits)

lemma str_lines_no_nl: "l \<in> set (str_lines s) \<Longrightarrow> NL \<notin> set l"
  unfolding str_lines_def by (rule lines_from_no_nl) auto

lemma unlines_join: "ls \<noteq> [] \<Longrightarrow> join_with [NL] ls @ [NL] = unlines ls"
  by (induction "[NL]" ls rule: join_with.induct) auto

section \<open>Whitespace\<close>

text \<open>The \<open>White_Space\<close> characters beyond ASCII, as UTF-8.\<close>

definition wide_spaces :: "nat list list" where
  "wide_spaces =
     [[0xC2, 0x85], [0xC2, 0xA0], [0xE1, 0x9A, 0x80], [0xE2, 0x80, 0xA8], [0xE2, 0x80, 0xA9],
      [0xE2, 0x80, 0xAF], [0xE2, 0x81, 0x9F], [0xE3, 0x80, 0x80]]
     @ map (\<lambda>b. [0xE2, 0x80, b]) [0x80, 0x81, 0x82, 0x83, 0x84, 0x85, 0x86, 0x87, 0x88, 0x89, 0x8A]"

definition ascii_space :: "char \<Rightarrow> bool" where
  "ascii_space c \<longleftrightarrow> c \<in> {CHR 0x09, CHR 0x0A, CHR 0x0B, CHR 0x0C, CHR 0x0D, CHR '' ''}"

text \<open>How many bytes the whitespace character at the start (at the end) of a text takes.\<close>

definition space_at_start :: "string \<Rightarrow> nat" where
  "space_at_start s =
     (if s \<noteq> [] \<and> ascii_space (hd s) then 1
      else (case List.find (\<lambda>w. starts_with w (map of_char s)) wide_spaces of
              None \<Rightarrow> 0 | Some w \<Rightarrow> length w))"

definition space_at_end :: "string \<Rightarrow> nat" where
  "space_at_end s =
     (if s \<noteq> [] \<and> ascii_space (last s) then 1
      else (case List.find (\<lambda>w. strip_suffix w (map of_char s) \<noteq> None) wide_spaces of
              None \<Rightarrow> 0 | Some w \<Rightarrow> length w))"

lemma space_at_start_le: "space_at_start s \<le> length s"
proof -
  have "length w \<le> length s" if "starts_with w (map of_char s)" for w :: "nat list"
    using that unfolding starts_with_def by (metis length_map nat_le_linear take_all_iff)
  then show ?thesis
    by (cases s) (auto simp: space_at_start_def split: option.splits dest: find_Some_in)
qed

lemma space_at_end_le: "space_at_end s \<le> length s"
  by (cases s) (auto simp: space_at_end_def strip_suffix_def split: option.splits
      dest!: find_Some_in)

function trim_start :: "string \<Rightarrow> string" where
  "trim_start s = (let n = space_at_start s in if n = 0 then s else trim_start (drop n s))"
  by pat_completeness auto
termination
  by (relation "measure length")
     (auto, metis diff_less le_zero_eq length_greater_0_conv list.size(3) neq0_conv space_at_start_le)

function trim_end :: "string \<Rightarrow> string" where
  "trim_end s =
     (let n = space_at_end s in if n = 0 then s else trim_end (take (length s - n) s))"
  by pat_completeness auto
termination
  by (relation "measure length")
     (auto, metis diff_less le_zero_eq length_greater_0_conv list.size(3) neq0_conv space_at_end_le)

definition trim :: "string \<Rightarrow> string" where
  "trim s = trim_end (trim_start s)"

function split_space :: "string \<Rightarrow> string \<Rightarrow> string list" where
  "split_space cur s =
     (if s = [] then (if cur = [] then [] else [cur])
      else let n = space_at_start s in
        if n = 0 then split_space (cur @ [hd s]) (tl s)
        else (if cur = [] then [] else [cur]) @ split_space [] (drop n s))"
  by pat_completeness auto
termination
  by (relation "measure (\<lambda>(cur, s). length s)") auto

definition split_whitespace :: "string \<Rightarrow> string list" where
  "split_whitespace s = split_space [] s"

declare trim_start.simps [simp del] trim_end.simps [simp del] split_space.simps [simp del]

lemma split_space_pieces:
  "p \<in> set (split_space cur s) \<Longrightarrow> (\<forall>c\<in>set cur. \<not> ascii_space c)
    \<Longrightarrow> p \<noteq> [] \<and> (\<forall>c\<in>set p. \<not> ascii_space c)"
proof (induction cur s arbitrary: p rule: split_space.induct)
  case (1 cur s)
  show ?case
  proof (cases "s = []")
    case True
    with "1.prems" have "cur \<noteq> [] \<and> p = cur"
      by (simp add: split_space.simps [of cur "[]"] split: if_splits)
    with "1.prems"(2) show ?thesis by auto
  next
    case False
    show ?thesis
    proof (cases "space_at_start s = 0")
      case True
      then have "\<not> ascii_space (hd s)"
        using False by (auto simp: space_at_start_def split: if_splits)
      moreover have "p \<in> set (split_space (cur @ [hd s]) (tl s))"
        using "1.prems"(1) False True by (simp add: split_space.simps [of cur s])
      ultimately show ?thesis
        using "1.prems"(2) by (intro "1.IH"(1) [OF False refl True]) (simp_all add: ball_Un)
    next
      case pos: False
      have "p = cur \<and> cur \<noteq> [] \<or> p \<in> set (split_space [] (drop (space_at_start s) s))"
        using "1.prems"(1) False pos
        by (simp add: split_space.simps [of cur s] Let_def split: if_splits)
      then consider "p = cur" "cur \<noteq> []" | "p \<in> set (split_space [] (drop (space_at_start s) s))"
        by blast
      then show ?thesis
      proof cases
        case 1
        with "1.prems"(2) show ?thesis by simp
      next
        case 2
        then show ?thesis
          by (rule "1.IH"(2) [OF False refl pos]) simp
      qed
    qed
  qed
qed

lemma split_whitespace_pieces:
  "p \<in> set (split_whitespace s) \<Longrightarrow> p \<noteq> [] \<and> (\<forall>c\<in>set p. \<not> ascii_space c)"
  unfolding split_whitespace_def by (rule split_space_pieces) auto

section \<open>UTF-8\<close>

text \<open>\<open>String::from_utf8\<close> and \<open>read_to_string\<close> accept exactly the well-formed sequences of the
  Unicode standard: no overlong form, no surrogate, nothing above U+10FFFF.  \<open>utf8_char\<close> is the
  number of bytes of the character at the start, 0 when there is none.\<close>

definition continuation :: "u8 \<Rightarrow> bool" where
  "continuation b \<longleftrightarrow> 0x80 \<le> b \<and> b \<le> 0xBF"

fun utf8_char :: "bytes \<Rightarrow> nat" where
  "utf8_char [] = 0"
| "utf8_char (a # s) =
     (if a \<le> 0x7F then 1
      else case s of [] \<Rightarrow> 0 | b # s2 \<Rightarrow>
        if 0xC2 \<le> a \<and> a \<le> 0xDF then (if continuation b then 2 else 0)
        else case s2 of [] \<Rightarrow> 0 | c # s3 \<Rightarrow>
          if a = 0xE0 then (if 0xA0 \<le> b \<and> b \<le> 0xBF \<and> continuation c then 3 else 0)
          else if a = 0xED then (if 0x80 \<le> b \<and> b \<le> 0x9F \<and> continuation c then 3 else 0)
          else if 0xE1 \<le> a \<and> a \<le> 0xEF then (if continuation b \<and> continuation c then 3 else 0)
          else case s3 of [] \<Rightarrow> 0 | d # _ \<Rightarrow>
            if a = 0xF0 then
              (if 0x90 \<le> b \<and> b \<le> 0xBF \<and> continuation c \<and> continuation d then 4 else 0)
            else if 0xF1 \<le> a \<and> a \<le> 0xF3 then
              (if continuation b \<and> continuation c \<and> continuation d then 4 else 0)
            else if a = 0xF4 then
              (if 0x80 \<le> b \<and> b \<le> 0x8F \<and> continuation c \<and> continuation d then 4 else 0)
            else 0)"

function utf8_valid :: "bytes \<Rightarrow> bool" where
  "utf8_valid s =
     (if s = [] then True
      else if utf8_char s = 0 then False
      else utf8_valid (drop (utf8_char s) s))"
  by pat_completeness auto
termination
  by (relation "measure length") auto

declare utf8_valid.simps [simp del]

lemma utf8_valid_Nil [simp]: "utf8_valid []"
  by (subst utf8_valid.simps) simp

lemma utf8_valid_ascii_Cons [simp]: "b \<le> 0x7F \<Longrightarrow> utf8_valid (b # s) = utf8_valid s"
  by (subst utf8_valid.simps) simp

lemma utf8_ascii: "\<forall>b\<in>set s. b \<le> 0x7F \<Longrightarrow> utf8_valid s"
  by (induction s) auto

lemma utf8_char_long:
  assumes "utf8_char (a # b # c # s) \<noteq> 0" and "\<not> a \<le> 0x7F" and "\<not> (0xC2 \<le> a \<and> a \<le> 0xDF)"
  shows "continuation b \<and> continuation c
    \<and> (utf8_char (a # b # c # s) = 3 \<or> (\<exists>d s4. utf8_char (a # b # c # s) = 4 \<and> s = d # s4 \<and> continuation d))"
proof -
  have m: "continuation b" if "0xA0 \<le> b \<and> b \<le> 0xBF \<or> 0x80 \<le> b \<and> b \<le> 0x9F \<or> 0x90 \<le> b \<and> b \<le> 0xBF \<or> 0x80 \<le> b \<and> b \<le> 0x8F"
    using that by (auto simp: continuation_def word_le_nat_alt)
  note e = utf8_char.simps(2) [of a "b # c # s", unfolded if_not_P [OF assms(2)] list.case if_not_P [OF assms(3)]]
  show ?thesis
  proof (cases s)
    case Nil
    show ?thesis using assms(1) m unfolding Nil e [unfolded Nil list.case] by (simp only: split: if_split_asm) simp_all
  next
    case (Cons d s4)
    show ?thesis using assms(1) m unfolding Cons e [unfolded Cons list.case] by (simp only: split: if_split_asm) simp_all
  qed
qed
text \<open>The characters of a text.\<close>

function utf8_chars :: "bytes \<Rightarrow> bytes list" where
  "utf8_chars s =
     (if s = [] then []
      else let k = max 1 (utf8_char s) in take k s # utf8_chars (drop k s))"
  by pat_completeness auto
termination
  by (relation "measure length") (auto simp: max_def)

declare utf8_chars.simps [simp del]

lemma utf8_chars_Nil [simp]: "utf8_chars [] = []"
  by (subst utf8_chars.simps) simp

text \<open>\<open>String::from_utf8_lossy\<close>: in place of what is not UTF-8 stands U+FFFD, one for each longest beginning
  of a character; \<open>utf8_bad\<close> is its length.\<close>

fun utf8_bad :: "bytes \<Rightarrow> nat" where
  "utf8_bad (a # b # s) =
     (if a = 0xE0 then (if 0xA0 \<le> b \<and> b \<le> 0xBF then 2 else 1)
      else if a = 0xED then (if 0x80 \<le> b \<and> b \<le> 0x9F then 2 else 1)
      else if 0xE1 \<le> a \<and> a \<le> 0xEF then (if continuation b then 2 else 1)
      else if a = 0xF0 \<and> 0x90 \<le> b \<and> b \<le> 0xBF \<or> 0xF1 \<le> a \<and> a \<le> 0xF3 \<and> continuation b
          \<or> a = 0xF4 \<and> 0x80 \<le> b \<and> b \<le> 0x8F
        then (case s of c # _ \<Rightarrow> if continuation c then 3 else 2 | [] \<Rightarrow> 2)
      else 1)"
| "utf8_bad s = 1"

lemma utf8_bad_pos: "1 \<le> utf8_bad s"
  by (cases s rule: utf8_bad.cases) (simp_all split: list.splits)

function utf8_lossy :: "bytes \<Rightarrow> bytes" where
  "utf8_lossy s =
     (if s = [] then []
      else if utf8_char s = 0 then [0xEF, 0xBF, 0xBD] @ utf8_lossy (drop (utf8_bad s) s)
      else take (utf8_char s) s @ utf8_lossy (drop (utf8_char s) s))"
  by pat_completeness auto
termination
proof (relation "measure length")
  fix s :: bytes
  assume "s \<noteq> []"
  then show "(drop (utf8_bad s) s, s) \<in> measure length" using utf8_bad_pos [of s] by simp
qed simp_all

declare utf8_lossy.simps [simp del]

lemma utf8_lossy_valid: "utf8_valid s \<Longrightarrow> utf8_lossy s = s"
proof (induction s rule: utf8_valid.induct)
  case (1 s)
  show ?case
  proof (cases "s = []")
    case True
    then show ?thesis by (subst utf8_lossy.simps) simp
  next
    case False
    then have c: "utf8_char s \<noteq> 0" "utf8_valid (drop (utf8_char s) s)"
      using "1.prems" utf8_valid.simps [of s] by (simp_all split: if_splits)
    then have "utf8_lossy (drop (utf8_char s) s) = drop (utf8_char s) s"
      using "1.IH" False by blast
    then show ?thesis using c False by (subst utf8_lossy.simps) simp
  qed
qed

text \<open>Texts without whitespace bytes and without bytes beyond ASCII split into themselves.\<close>

definition word_char :: "char \<Rightarrow> bool" where
  "word_char c \<longleftrightarrow> \<not> ascii_space c \<and> of_char c < (0x80 :: nat)"

lemma space_at_start_word: "word_char c \<Longrightarrow> space_at_start (c # s) = 0"
  by (auto simp: space_at_start_def word_char_def wide_spaces_def starts_with_def)

lemma space_at_start_space: "ascii_space c \<Longrightarrow> space_at_start (c # s) = 1"
  by (simp add: space_at_start_def)

lemma split_space_word:
  "\<forall>c\<in>set p. word_char c \<Longrightarrow> split_space cur (p @ s) = split_space (cur @ p) s"
proof (induction p arbitrary: cur)
  case (Cons c p)
  then show ?case
    by (subst split_space.simps) (simp add: space_at_start_word)
qed simp

lemma split_space_end [simp]: "split_space cur [] = (if cur = [] then [] else [cur])"
  by (subst split_space.simps) simp

lemma split_space_space:
  "ascii_space c \<Longrightarrow> split_space cur (c # s) = (if cur = [] then [] else [cur]) @ split_space [] s"
  by (subst split_space.simps) (simp add: space_at_start_space)

lemma split_whitespace_word [text_rt]:
  "p \<noteq> [] \<Longrightarrow> \<forall>c\<in>set p. word_char c \<Longrightarrow> ascii_space sep \<Longrightarrow>
    split_whitespace (p @ sep # s) = p # split_whitespace s"
  by (simp add: split_whitespace_def split_space_word split_space_space)

lemma split_whitespace_last:
  "p \<noteq> [] \<Longrightarrow> \<forall>c\<in>set p. word_char c \<Longrightarrow> split_whitespace p = [p]"
  using split_space_word [of p "[]" "[]"] by (simp add: split_whitespace_def)

lemma split_whitespace_skip: "ascii_space c \<Longrightarrow> split_whitespace (c # s) = split_whitespace s"
  by (simp add: split_whitespace_def split_space_space)

lemma space_is_space: "ascii_space CHR '' ''"
  by (simp add: ascii_space_def)

lemma split_words:
  "\<forall>w\<in>set ws. w \<noteq> [] \<and> (\<forall>c\<in>set w. word_char c) \<Longrightarrow> split_whitespace (join_with '' '' ws) = ws"
proof (induction ws)
  case (Cons w ws)
  then show ?case
    by (cases ws) (simp_all add: split_whitespace_last split_whitespace_word space_is_space)
qed (simp add: split_whitespace_def)

end
