(* ===== verification/Daemon_State.thy ===== *)
theory Daemon_State
  imports Wire Rust_Text
begin

text \<open>
  The daemon's state and its connections (src/src/daemon.rs: \<open>Link\<close>, \<open>Partial\<close>, \<open>Request\<close>,
  \<open>HidState\<close>, \<open>UhidState\<close>, \<open>Daemon\<close> and the operations on links and requests).  An \<open>Arc<Link>\<close>
  is an index into the store \<open>heap\<close>, so \<open>Arc::ptr_eq\<close> is equality of indices; an \<open>Arc<Request>\<close>
  carries the index \<open>rid\<close> of its \<open>pending\<close> list.  What the daemon writes is recorded: to a
  connection in \<open>lsent\<close>, to /dev/uhid in \<open>out\<close>, to /run/passkey/devices in \<open>devices_file\<close>.
  Whether a write succeeds is up to the environment: \<open>lup\<close>, \<open>can_open_uhid\<close>, \<open>can_write_state\<close>.
\<close>

section \<open>Data\<close>

record link =
  lname :: string
  ldevice :: string
  llabel :: string
  lpriority :: u8
  lsent :: "bytes list"
  lup :: bool
  lresponses :: "(u32 \<times> bytes) list"
  lpong :: bool
  lalive :: bool

record partial =
  pcommand :: u8
  ptotal :: nat
  pdata :: bytes
  pnext_sequence :: u8

record request =
  rchannel :: u32
  rnumber :: u32
  rid :: nat

datatype uhid_event =
    Create2
  | Destroy
  | Input2 bytes
  | ReportReply u32 u32

record daemon =
  heap :: "nat \<Rightarrow> link"
  links :: "nat list"
  partials :: "u32 \<rightharpoonup> partial"
  busy :: "request option"
  holders :: "string set"
  lastdev :: "string option"
  pendings :: "nat \<Rightarrow> nat list"
  generation :: u64
  uhid_file :: bool
  next_request :: u32
  next_channel :: u32
  next_generation :: u64
  next_rid :: nat
  spawned :: "(request \<times> bytes) list"
  out :: "uhid_event list"
  devices_file :: string
  can_open_uhid :: bool
  can_write_state :: bool

text \<open>\<open>Daemon::new\<close>; the first channel number is the process id, at least 1.\<close>

definition daemon_new :: "u32 \<Rightarrow> (nat \<Rightarrow> link) \<Rightarrow> daemon" where
  "daemon_new pid store =
     \<lparr>heap = store, links = [], partials = Map.empty, busy = None, holders = {}, lastdev = None,
      pendings = (\<lambda>_. []), generation = 0, uhid_file = False, next_request = 1,
      next_channel = max pid 1, next_generation = 1, next_rid = 0, spawned = [], out = [],
      devices_file = [], can_open_uhid = True, can_write_state = True\<rparr>"

section \<open>A link\<close>

definition link_new :: "string \<Rightarrow> u8 \<Rightarrow> string \<Rightarrow> string \<Rightarrow> link" where
  "link_new name priority label device =
     \<lparr>lname = name, ldevice = device, llabel = join_with '' '' (split_whitespace label),
      lpriority = priority, lsent = [], lup = True, lresponses = [], lpong = False, lalive = True\<rparr>"

definition send :: "bytes \<Rightarrow> link \<Rightarrow> bool \<times> link" where
  "send body l =
     (if lup l then (True, l\<lparr>lsent := lsent l @ [frame body]\<rparr>) else (False, l))"

definition close :: "link \<Rightarrow> link" where
  "close l =
     (if lalive l
      then l\<lparr>lalive := False, lup := False, lresponses := lresponses l @ [(0, [])]\<rparr>
      else l)"

text \<open>\<open>ping\<close>; \<open>answered\<close>: a pong arrived within the ten seconds the code waits.\<close>

definition ping :: "bool \<Rightarrow> link \<Rightarrow> bool \<times> link" where
  "ping answered l =
     (let (ok, l1) = send [PING] (l\<lparr>lpong := False\<rparr>) in
      if \<not> ok then (False, l1)
      else let l2 = (if answered then l1\<lparr>lpong := True\<rparr> else l1) in (lpong l2, l2))"

text \<open>What the reader thread does with an event of \<open>read_link\<close>.\<close>

fun link_event :: "link_event \<Rightarrow> link \<Rightarrow> link" where
  "link_event (Response number payload) l = l\<lparr>lresponses := lresponses l @ [(number, payload)]\<rparr>"
| "link_event Pong l = l\<lparr>lpong := True\<rparr>"
| "link_event Panicked l = l"

text \<open>\<open>Receiver::try_recv\<close> on the link's queue.\<close>

definition try_recv :: "link \<Rightarrow> (u32 \<times> bytes) option \<times> link" where
  "try_recv l =
     (case lresponses l of [] \<Rightarrow> (None, l) | m # ms \<Rightarrow> (Some m, l\<lparr>lresponses := ms\<rparr>))"

section \<open>The link table\<close>

definition upd_link :: "nat \<Rightarrow> (link \<Rightarrow> link) \<Rightarrow> daemon \<Rightarrow> daemon" where
  "upd_link i f d = d\<lparr>heap := (heap d)(i := f (heap d i))\<rparr>"

definition live_links :: "daemon \<Rightarrow> nat list" where
  "live_links d = filter (\<lambda>i. lalive (heap d i)) (links d)"

definition by_device :: "daemon \<Rightarrow> nat list" where
  "by_device d =
     retain_first (\<lambda>i. ldevice (heap d i)) {}
       (sort_key (\<lambda>i. lpriority (heap d i)) (live_links d))"

definition send_to :: "bytes \<Rightarrow> nat \<Rightarrow> daemon \<Rightarrow> daemon" where
  "send_to body i d = upd_link i (\<lambda>l. snd (send body l)) d"

section \<open>Requests\<close>

definition request_is_current :: "request \<Rightarrow> daemon \<Rightarrow> bool" where
  "request_is_current request d \<longleftrightarrow>
     (case busy d of None \<Rightarrow> False | Some current \<Rightarrow> rid current = rid request)"

definition finish_request :: "request \<Rightarrow> daemon \<Rightarrow> daemon" where
  "finish_request request d =
     (if request_is_current request d then d\<lparr>busy := None\<rparr> else d)"

definition withdraw :: "request \<Rightarrow> nat list \<Rightarrow> daemon \<Rightarrow> daemon" where
  "withdraw request ls d = fold (send_to (cancel_message (rnumber request))) ls d"

definition cancel :: "u32 option \<Rightarrow> bool \<Rightarrow> daemon \<Rightarrow> daemon" where
  "cancel channel abandon d =
     (let request = busy d;
          d1 = (if abandon \<and> (case request of None \<Rightarrow> False | Some r \<Rightarrow> Some (rchannel r) = channel)
                then d\<lparr>busy := None\<rparr> else d)
      in case request of
           None \<Rightarrow> d1
         | Some r \<Rightarrow>
             if (case channel of None \<Rightarrow> True | Some c \<Rightarrow> c = rchannel r)
             then withdraw r (pendings d1 (rid r)) d1 else d1)"

section \<open>The virtual key\<close>

definition write_uhid :: "uhid_event \<Rightarrow> daemon \<Rightarrow> daemon" where
  "write_uhid event d = (if uhid_file d then d\<lparr>out := out d @ [event]\<rparr> else d)"

definition create_uhid :: "daemon \<Rightarrow> daemon" where
  "create_uhid d =
     (if uhid_file d then d
      else if \<not> can_open_uhid d then d
      else d\<lparr>out := out d @ [Create2], generation := next_generation d,
             next_generation := next_generation d + 1, uhid_file := True\<rparr>)"

definition destroy_uhid :: "daemon \<Rightarrow> daemon" where
  "destroy_uhid d =
     (if uhid_file d then d\<lparr>uhid_file := False, out := out d @ [Destroy], generation := 0\<rparr> else d)"

definition sync_uhid :: "daemon \<Rightarrow> daemon" where
  "sync_uhid d =
     (if live_links d = [] then destroy_uhid (cancel None False d) else create_uhid d)"

text \<open>The end of \<open>read_uhid\<close>: the reader of generation \<open>g\<close> lost its file.\<close>

definition uhid_lost :: "u64 \<Rightarrow> daemon \<Rightarrow> daemon" where
  "uhid_lost g d =
     (if generation d = g then sync_uhid (d\<lparr>uhid_file := False, generation := 0\<rparr>) else d)"

section \<open>Connecting and disconnecting\<close>

definition publish_text :: "daemon \<Rightarrow> string" where
  "publish_text d =
     concat (map (\<lambda>i. ldevice (heap d i) @ TAB # llabel (heap d i) @ [NL])
       (retain_first (\<lambda>i. ldevice (heap d i)) {}
         (sort_key (\<lambda>i. lpriority (heap d i)) (live_links d))))"

definition publish :: "daemon \<Rightarrow> daemon" where
  "publish d = (if can_write_state d then d\<lparr>devices_file := publish_text d\<rparr> else d)"

text \<open>\<open>add\<close> of the link at index \<open>i\<close>; \<open>cloned\<close>: the stream could be duplicated for the reader.\<close>

definition add :: "bool \<Rightarrow> nat \<Rightarrow> daemon \<Rightarrow> daemon" where
  "add cloned i d =
     (if cloned then sync_uhid (publish (d\<lparr>links := links d @ [i]\<rparr>)) else d)"

definition remove :: "nat \<Rightarrow> daemon \<Rightarrow> daemon" where
  "remove i d =
     (let d1 = d\<lparr>links := filter (\<lambda>j. j \<noteq> i) (links d)\<rparr> in
      if length (links d) \<noteq> length (links d1) then sync_uhid (publish d1) else d1)"

text \<open>One pass of \<open>keepalive_loop\<close>; \<open>answered\<close> says which devices pong in time.\<close>

definition keepalive_pass :: "(nat \<Rightarrow> bool) \<Rightarrow> daemon \<Rightarrow> daemon" where
  "keepalive_pass answered d =
     fold (\<lambda>i d. let (ok, l) = ping (answered i) (heap d i) in
                 upd_link i (\<lambda>_. if ok then l else close l) d) (live_links d) d"

end
