(* ===== verification/Ctaphid.thy ===== *)
theory Ctaphid
  imports Daemon_State
begin

unbundle bit_operations_syntax

text \<open>
  CTAPHID, the packet protocol of the virtual key (src/src/daemon.rs: \<open>send_report\<close>, \<open>reply\<close>,
  \<open>error\<close>, \<open>packet\<close>, \<open>dispatch\<close>): messages leave in reports of 64 bytes and arrive in
  packets that are put together per channel.  A thread started for a CBOR request is an entry of
  \<open>spawned\<close>, with the request and its data.
\<close>

section \<open>Constants\<close>

abbreviation (input) PING_CMD :: u8 where "PING_CMD \<equiv> 0x81"
abbreviation (input) INIT :: u8 where "INIT \<equiv> 0x86"
abbreviation (input) WINK :: u8 where "WINK \<equiv> 0x88"
abbreviation (input) CBOR :: u8 where "CBOR \<equiv> 0x90"
abbreviation (input) CANCEL_CMD :: u8 where "CANCEL_CMD \<equiv> 0x91"
abbreviation (input) KEEPALIVE :: u8 where "KEEPALIVE \<equiv> 0xbb"
abbreviation (input) ERROR :: u8 where "ERROR \<equiv> 0xbf"
abbreviation (input) ERR_INVALID_CMD :: u8 where "ERR_INVALID_CMD \<equiv> 0x01"
abbreviation (input) ERR_INVALID_LEN :: u8 where "ERR_INVALID_LEN \<equiv> 0x03"
abbreviation (input) ERR_INVALID_SEQ :: u8 where "ERR_INVALID_SEQ \<equiv> 0x04"
abbreviation (input) ERR_CHANNEL_BUSY :: u8 where "ERR_CHANNEL_BUSY \<equiv> 0x06"
abbreviation (input) ERR_INVALID_CHANNEL :: u8 where "ERR_INVALID_CHANNEL \<equiv> 0x0b"
abbreviation (input) CTAP2_ERR_OTHER :: u8 where "CTAP2_ERR_OTHER \<equiv> 0x7f"
abbreviation (input) BROADCAST :: u32 where "BROADCAST \<equiv> 0xFFFFFFFF"
abbreviation (input) MAX_MESSAGE :: nat where "MAX_MESSAGE \<equiv> 7609"

section \<open>Answers\<close>

text \<open>The continuation packets of \<open>reply\<close>: \<open>while !rest.is_empty()\<close>.\<close>

function rest_packets :: "u32 \<Rightarrow> u8 \<Rightarrow> bytes \<Rightarrow> bytes list" where
  "rest_packets channel sequence rest =
     (if rest = [] then []
      else (u32_be channel @ [sequence] @ take 59 rest)
           # rest_packets channel (sequence + 1) (drop 59 rest))"
  by pat_completeness auto
termination
  by (relation "measure (\<lambda>(channel, sequence, rest). length rest)") auto

declare rest_packets.simps [simp del]

definition first_packet :: "u32 \<Rightarrow> u8 \<Rightarrow> bytes \<Rightarrow> bytes" where
  "first_packet channel command data =
     u32_be channel @ [command] @ u16_be (word_of_nat (length data)) @ take 57 data"

definition reply_packets :: "u32 \<Rightarrow> u8 \<Rightarrow> bytes \<Rightarrow> bytes list" where
  "reply_packets channel command data =
     first_packet channel command data # rest_packets channel 0 (drop 57 data)"

text \<open>\<open>send_report\<close>: the first 64 bytes of the report become an input event.\<close>

definition send_report :: "bytes \<Rightarrow> daemon \<Rightarrow> daemon" where
  "send_report report d = write_uhid (Input2 (take 64 report)) d"

definition reply :: "u32 \<Rightarrow> u8 \<Rightarrow> bytes \<Rightarrow> daemon \<Rightarrow> daemon" where
  "reply channel command data d = fold send_report (reply_packets channel command data) d"

definition hid_error :: "u32 \<Rightarrow> u8 \<Rightarrow> daemon \<Rightarrow> daemon" where
  "hid_error channel code d = reply channel ERROR [code] d"

section \<open>Commands\<close>

text \<open>The loop over \<open>next_channel.fetch_add\<close> that skips 0 and the broadcast channel: the number
  assigned and the counter after it.\<close>

function assign_channel :: "u32 \<Rightarrow> u32 \<times> u32" where
  "assign_channel candidate =
     (if candidate \<noteq> 0 \<and> candidate \<noteq> BROADCAST then (candidate, candidate + 1)
      else assign_channel (candidate + 1))"
  by pat_completeness auto
termination
  by (relation "measure (\<lambda>c :: u32. if c = 0xFFFFFFFF then 2 else if c = 0 then 1 else 0)") auto

declare assign_channel.simps [simp del]

definition dispatch :: "u32 \<Rightarrow> u8 \<Rightarrow> bytes \<Rightarrow> daemon \<Rightarrow> daemon" where
  "dispatch channel command data d =
     (if command = INIT then
        (if length data \<noteq> 8 then hid_error channel ERR_INVALID_LEN d
         else
           let (assigned, d1) =
                 (if channel = BROADCAST
                  then (let (c, next) = assign_channel (next_channel d)
                        in (c, d\<lparr>next_channel := next\<rparr>))
                  else (channel, d))
           in reply channel INIT (data @ u32_be assigned @ [2, 1, 0, 0, 0x0d]) d1)
      else if channel = 0 \<or> channel = BROADCAST then hid_error channel ERR_INVALID_CHANNEL d
      else if command = PING_CMD then reply channel PING_CMD data d
      else if command = WINK then reply channel WINK [] d
      else if command \<noteq> CBOR then hid_error channel ERR_INVALID_CMD d
      else if data = [] \<or> live_links d = [] then reply channel CBOR [CTAP2_ERR_OTHER] d
      else
        let request = \<lparr>rchannel = channel, rnumber = next_request d, rid = next_rid d\<rparr>;
            d1 = d\<lparr>next_request := next_request d + 1, next_rid := next_rid d + 1,
                   pendings := (pendings d)(next_rid d := [])\<rparr>
        in if busy d1 \<noteq> None then hid_error channel ERR_CHANNEL_BUSY d1
           else d1\<lparr>busy := Some request, spawned := spawned d1 @ [(request, data)]\<rparr>)"

section \<open>Packets\<close>

definition put_partial :: "u32 \<Rightarrow> partial option \<Rightarrow> daemon \<Rightarrow> daemon" where
  "put_partial channel p d = d\<lparr>partials := (partials d)(channel := p)\<rparr>"

text \<open>The end of \<open>packet\<close>: a message that is complete leaves the table and is dispatched.\<close>

definition complete :: "u32 \<Rightarrow> daemon \<Rightarrow> daemon" where
  "complete channel d =
     (case partials d channel of
        None \<Rightarrow> d
      | Some p \<Rightarrow>
          if length (pdata p) \<ge> ptotal p
          then dispatch channel (pcommand p) (pdata p) (put_partial channel None d)
          else d)"

definition busy_elsewhere :: "u32 \<Rightarrow> daemon \<Rightarrow> bool" where
  "busy_elsewhere channel d \<longleftrightarrow>
     (case busy d of None \<Rightarrow> False | Some request \<Rightarrow> rchannel request \<noteq> channel)"

definition packet :: "bytes \<Rightarrow> daemon \<Rightarrow> daemon" where
  "packet pkt d =
     (if length pkt < 5 then d
      else
        let channel = u32_from_be (take 4 pkt); byte = pkt ! 4 in
        if byte AND 0x80 \<noteq> 0 then
          (if length pkt < 7 then d
           else
             let total = unat (u16_from_be (take 2 (drop 5 pkt)));
                 start = \<lparr>pcommand = byte, ptotal = total, pdata = take total (drop 7 pkt),
                          pnext_sequence = 0\<rparr>
             in if total > MAX_MESSAGE then hid_error channel ERR_INVALID_LEN d
                else if byte = CANCEL_CMD then cancel (Some channel) False d
                else if byte = INIT then
                  complete channel (put_partial channel (Some start)
                    (cancel (Some channel) True (put_partial channel None d)))
                else if busy_elsewhere channel d then hid_error channel ERR_CHANNEL_BUSY d
                else complete channel (put_partial channel (Some start) d))
        else
          (case partials d channel of
             None \<Rightarrow> d
           | Some p \<Rightarrow>
               if byte \<noteq> pnext_sequence p
               then hid_error channel ERR_INVALID_SEQ (put_partial channel None d)
               else
                 let count = min (ptotal p - length (pdata p)) (length pkt - 5) in
                 complete channel (put_partial channel
                   (Some (p\<lparr>pdata := pdata p @ take count (drop 5 pkt),
                            pnext_sequence := pnext_sequence p + 1\<rparr>)) d)))"

section \<open>What the operations write and what they leave alone\<close>

lemma length_rest_packets: "p \<in> set (rest_packets channel sequence rest) \<Longrightarrow> length p \<le> 64"
proof (induction channel sequence rest rule: rest_packets.induct)
  case (1 channel sequence rest)
  show ?case
  proof (cases "rest = []")
    case True
    with "1.prems" show ?thesis by (simp add: rest_packets.simps)
  next
    case False
    then have "p = u32_be channel @ [sequence] @ take 59 rest
        \<or> p \<in> set (rest_packets channel (sequence + 1) (drop 59 rest))"
      using "1.prems" by (subst (asm) rest_packets.simps) simp
    then show ?thesis
      using "1.IH" [OF False] by (auto simp: codec)
  qed
qed

lemma length_reply_packets: "p \<in> set (reply_packets channel command data) \<Longrightarrow> length p \<le> 64"
  by (auto simp: reply_packets_def first_packet_def codec dest: length_rest_packets)

lemma fold_send_report:
  "\<forall>p\<in>set ps. length p \<le> 64 \<Longrightarrow>
    fold send_report ps d = (if uhid_file d then d\<lparr>out := out d @ map Input2 ps\<rparr> else d)"
  by (induction ps arbitrary: d) (auto simp: send_report_def write_uhid_def)

lemma reply_eq:
  "reply channel command data d =
     (if uhid_file d
      then d\<lparr>out := out d @ map Input2 (reply_packets channel command data)\<rparr> else d)"
  unfolding reply_def by (rule fold_send_report) (blast dest: length_reply_packets)

lemma reply_fields [simp, daemon_frame]:
  "heap (reply c cmd x d) = heap d" "links (reply c cmd x d) = links d"
  "partials (reply c cmd x d) = partials d" "busy (reply c cmd x d) = busy d"
  "holders (reply c cmd x d) = holders d" "lastdev (reply c cmd x d) = lastdev d"
  "pendings (reply c cmd x d) = pendings d" "generation (reply c cmd x d) = generation d"
  "uhid_file (reply c cmd x d) = uhid_file d" "next_request (reply c cmd x d) = next_request d"
  "next_rid (reply c cmd x d) = next_rid d" "spawned (reply c cmd x d) = spawned d"
  "next_channel (reply c cmd x d) = next_channel d" "devices_file (reply c cmd x d) = devices_file d"
  by (simp_all add: reply_eq)

lemma hid_error_fields [simp, daemon_frame]:
  "heap (hid_error c e d) = heap d" "links (hid_error c e d) = links d"
  "partials (hid_error c e d) = partials d" "busy (hid_error c e d) = busy d"
  "pendings (hid_error c e d) = pendings d" "uhid_file (hid_error c e d) = uhid_file d"
  "next_rid (hid_error c e d) = next_rid d" "spawned (hid_error c e d) = spawned d"
  "generation (hid_error c e d) = generation d"
  by (simp_all add: hid_error_def)

lemma upd_link_fields [simp, daemon_frame]:
  "links (upd_link i f d) = links d" "partials (upd_link i f d) = partials d"
  "busy (upd_link i f d) = busy d" "holders (upd_link i f d) = holders d"
  "lastdev (upd_link i f d) = lastdev d" "pendings (upd_link i f d) = pendings d"
  "generation (upd_link i f d) = generation d" "uhid_file (upd_link i f d) = uhid_file d"
  "next_request (upd_link i f d) = next_request d" "next_rid (upd_link i f d) = next_rid d"
  "spawned (upd_link i f d) = spawned d" "out (upd_link i f d) = out d"
  by (simp_all add: upd_link_def)

text \<open>Messages to links change nothing but the links' outgoing streams.\<close>

lemma fold_send_to_fields [simp, daemon_frame]:
  "links (fold (send_to m) ls d) = links d" "partials (fold (send_to m) ls d) = partials d"
  "busy (fold (send_to m) ls d) = busy d" "holders (fold (send_to m) ls d) = holders d"
  "lastdev (fold (send_to m) ls d) = lastdev d" "pendings (fold (send_to m) ls d) = pendings d"
  "generation (fold (send_to m) ls d) = generation d"
  "uhid_file (fold (send_to m) ls d) = uhid_file d"
  "next_request (fold (send_to m) ls d) = next_request d"
  "next_rid (fold (send_to m) ls d) = next_rid d"
  "spawned (fold (send_to m) ls d) = spawned d" "out (fold (send_to m) ls d) = out d"
  by (induction ls arbitrary: d) (simp_all add: send_to_def)

lemma cancel_fields [simp, daemon_frame]:
  "links (cancel c a d) = links d" "partials (cancel c a d) = partials d"
  "holders (cancel c a d) = holders d" "lastdev (cancel c a d) = lastdev d"
  "pendings (cancel c a d) = pendings d" "generation (cancel c a d) = generation d"
  "uhid_file (cancel c a d) = uhid_file d" "next_request (cancel c a d) = next_request d"
  "next_rid (cancel c a d) = next_rid d" "spawned (cancel c a d) = spawned d"
  "out (cancel c a d) = out d"
  by (simp_all add: cancel_def withdraw_def Let_def split: option.splits)

lemma busy_cancel:
  "busy (cancel c a d) = (case busy d of None \<Rightarrow> None
     | Some r \<Rightarrow> if a \<and> Some (rchannel r) = c then None else Some r)"
  by (simp add: cancel_def withdraw_def Let_def split: option.splits)

lemma put_partial_fields [simp, daemon_frame]:
  "heap (put_partial c p d) = heap d" "links (put_partial c p d) = links d"
  "busy (put_partial c p d) = busy d" "pendings (put_partial c p d) = pendings d"
  "uhid_file (put_partial c p d) = uhid_file d" "spawned (put_partial c p d) = spawned d"
  "next_rid (put_partial c p d) = next_rid d" "next_request (put_partial c p d) = next_request d"
  "generation (put_partial c p d) = generation d" "holders (put_partial c p d) = holders d"
  "lastdev (put_partial c p d) = lastdev d"
  "out (put_partial c p d) = out d" "partials (put_partial c p d) = (partials d)(c := p)"
  by (simp_all add: put_partial_def)

lemma put_partial_twice [simp]: "put_partial c p (put_partial c q d) = put_partial c p d"
  by (simp add: put_partial_def)

lemma put_partial_live [simp]: "live_links (put_partial c p d) = live_links d"
  by (simp add: live_links_def)

section \<open>Putting packets together\<close>

text \<open>The host pads a packet to the 64 bytes of a report.\<close>

definition pad64 :: "bytes \<Rightarrow> bytes" where
  "pad64 p = p @ replicate (64 - length p) 0"

lemma odd_div_128:
  assumes "(n :: nat) < 256"
  shows "odd (n div 128) \<longleftrightarrow> 128 \<le> n"
proof (cases "n < 128")
  case False
  then have "n div 128 = 1"
    using assms by (intro div_nat_eqI) simp_all
  with False show ?thesis by simp
qed simp

lemma take_min_length: "take (min (length xs) n) xs = take n xs"
  by (simp add: min_def)

lemma top_bit: "(w :: u8) AND 0x80 = 0 \<longleftrightarrow> unat w < 128"
proof -
  have "w AND 0x80 = 0 \<longleftrightarrow> \<not> bit w 7"
    using and_exp_eq_0_iff_not_bit [of w 7] by simp
  also have "\<dots> \<longleftrightarrow> \<not> bit (unat w) 7"
    by (simp add: bit_unsigned_iff)
  also have "\<dots> \<longleftrightarrow> unat w < 128"
    using odd_div_128 [OF unat_u8_less [of w]] by (auto simp: bit_iff_odd)
  finally show ?thesis .
qed

lemma unat_next_sequence: "unat (s :: u8) < 255 \<Longrightarrow> unat (s + 1) = unat s + 1"
  by (simp add: unat_word_ariths)

lemma take_pad: "take n (xs @ replicate k 0) = take n xs" if "n \<le> length xs \<or> k = 0"
  using that by auto

lemma packet_first:
  assumes cmd: "cmd AND 0x80 \<noteq> 0" "cmd \<noteq> CANCEL_CMD" "cmd \<noteq> INIT"
    and len: "length data \<le> MAX_MESSAGE" and idle: "\<not> busy_elsewhere ch d"
  shows "packet (pad64 (first_packet ch cmd data)) d =
    complete ch (put_partial ch (Some \<lparr>pcommand = cmd, ptotal = length data,
      pdata = take 57 data, pnext_sequence = 0\<rparr>) d)"
proof -
  let ?pkt = "pad64 (first_packet ch cmd data)"
  let ?zeros = "replicate (64 - length (first_packet ch cmd data)) 0 :: bytes"
  have pkt: "?pkt = u32_be ch @ cmd # u16_be (word_of_nat (length data)) @ take 57 data @ ?zeros"
    by (simp add: pad64_def first_packet_def)
  have "unat (word_of_nat (length data) :: u16) = length data"
    using len by (simp add: unat_of_nat)
  then have parse: "7 \<le> length ?pkt" "u32_from_be (take 4 ?pkt) = ch" "?pkt ! 4 = cmd"
    "unat (u16_from_be (take 2 (drop 5 ?pkt))) = length data" "drop 7 ?pkt = take 57 data @ ?zeros"
    by (simp_all add: pkt codec nth_append)
  have "take (length data) (take 57 data @ ?zeros) = take 57 data"
  proof (cases "length data \<le> 57")
    case False
    then have "?zeros = []"
      by (simp add: first_packet_def codec)
    then show ?thesis by (simp add: take_min_length)
  qed simp
  with parse show ?thesis
    using assms by (simp add: packet_def Let_def)
qed

lemma packet_next:
  assumes p: "partials d ch = Some p" "pnext_sequence p = sequence" "unat sequence < 128"
    and total: "ptotal p = length (pdata p) + length rest"
  shows "packet (pad64 (u32_be ch @ [sequence] @ take 59 rest)) d =
    complete ch (put_partial ch
      (Some (p\<lparr>pdata := pdata p @ take 59 rest, pnext_sequence := sequence + 1\<rparr>)) d)"
proof -
  let ?zeros = "replicate (59 - length (take 59 rest)) 0 :: bytes"
  let ?pkt = "pad64 (u32_be ch @ [sequence] @ take 59 rest)"
  have pkt: "?pkt = u32_be ch @ sequence # take 59 rest @ ?zeros"
    by (simp add: pad64_def codec)
  then have parse: "length ?pkt = 64" "u32_from_be (take 4 ?pkt) = ch" "?pkt ! 4 = sequence"
    "drop 5 ?pkt = take 59 rest @ ?zeros"
    by (simp_all add: codec nth_append)
  have "take (min (length rest) 59) (take 59 rest @ ?zeros) = take 59 rest"
    by (simp add: take_min_length)
  with parse p total top_bit [of sequence] show ?thesis
    by (simp add: packet_def Let_def)
qed

lemma fold_packet_rest:
  assumes "rest \<noteq> []" and "length rest \<le> 59 * (128 - unat sequence)"
    and "partials d ch = Some \<lparr>pcommand = cmd, ptotal = length dat + length rest, pdata = dat,
      pnext_sequence = sequence\<rparr>"
  shows "fold packet (map pad64 (rest_packets ch sequence rest)) d
    = dispatch ch cmd (dat @ rest) (put_partial ch None d)"
  using assms
proof (induction ch sequence rest arbitrary: dat d rule: rest_packets.induct)
  case (1 ch sequence rest)
  let ?p = "\<lparr>pcommand = cmd, ptotal = length dat + length rest, pdata = dat,
      pnext_sequence = sequence\<rparr>"
  let ?q = "?p\<lparr>pdata := dat @ take 59 rest, pnext_sequence := sequence + 1\<rparr>"
  have "0 < length rest"
    using "1.prems"(1) by simp
  with "1.prems"(2) have seq: "unat sequence < 128"
    by (metis diff_is_0_eq' linorder_not_less mult_0_right not_less_zero order_less_le_trans)
  have step: "packet (pad64 (u32_be ch @ [sequence] @ take 59 rest)) d
      = complete ch (put_partial ch (Some ?q) d)"
    using packet_next [OF "1.prems"(3) _ seq, of rest] by simp
  show ?case
  proof (cases "drop 59 rest = []")
    case True
    then have "rest_packets ch sequence rest = [u32_be ch @ [sequence] @ take 59 rest]"
      using "1.prems"(1) by (simp add: rest_packets.simps)
    with True step show ?thesis
      by (simp add: complete_def)
  next
    case False
    then have "complete ch (put_partial ch (Some ?q) d) = put_partial ch (Some ?q) d"
      by (simp add: complete_def)
    moreover have "fold packet (map pad64 (rest_packets ch (sequence + 1) (drop 59 rest)))
        (put_partial ch (Some ?q) d)
        = dispatch ch cmd ((dat @ take 59 rest) @ drop 59 rest)
            (put_partial ch None (put_partial ch (Some ?q) d))"
      using False "1.prems"(1,2) seq
      by (intro "1.IH") (auto simp: unat_next_sequence)
    ultimately show ?thesis
      using step "1.prems"(1) by (subst rest_packets.simps) simp
  qed
qed

lemma fold_packet_message:
  assumes "cmd AND 0x80 \<noteq> 0" "cmd \<noteq> CANCEL_CMD" "cmd \<noteq> INIT"
    and "length data \<le> MAX_MESSAGE" and "\<not> busy_elsewhere ch d"
  shows "fold packet (map pad64 (reply_packets ch cmd data)) d
    = dispatch ch cmd data (put_partial ch None d)"
proof -
  let ?p = "\<lparr>pcommand = cmd, ptotal = length data, pdata = take 57 data, pnext_sequence = 0\<rparr>"
  note first = packet_first [OF assms]
  show ?thesis
  proof (cases "drop 57 data = []")
    case True
    then show ?thesis
      by (simp add: reply_packets_def rest_packets.simps first complete_def)
  next
    case False
    then have "complete ch (put_partial ch (Some ?p) d) = put_partial ch (Some ?p) d"
      by (simp add: complete_def)
    moreover have "fold packet (map pad64 (rest_packets ch 0 (drop 57 data))) (put_partial ch (Some ?p) d)
        = dispatch ch cmd (take 57 data @ drop 57 data) (put_partial ch None (put_partial ch (Some ?p) d))"
      using False assms(4) by (intro fold_packet_rest) auto
    ultimately show ?thesis
      by (simp add: reply_packets_def first)
  qed
qed

section \<open>Reading an answer\<close>

text \<open>What a CTAPHID host makes of the reports of one message: an initialization packet, then
  continuation packets of the same channel with sequence numbers 0, 1, 2, ... below 128.\<close>

fun host_rest :: "u32 \<Rightarrow> nat \<Rightarrow> bytes list \<Rightarrow> bytes \<Rightarrow> bytes option" where
  "host_rest ch k [] acc = Some acc"
| "host_rest ch k (p # ps) acc =
     (if take 4 p = u32_be ch \<and> p ! 4 AND 0x80 = 0 \<and> unat (p ! 4) = k
      then host_rest ch (Suc k) ps (acc @ drop 5 p) else None)"

definition host_message :: "bytes list \<Rightarrow> (u32 \<times> u8 \<times> bytes) option" where
  "host_message ps =
     (case ps of
        [] \<Rightarrow> None
      | p # rest \<Rightarrow>
          if p ! 4 AND 0x80 = 0 then None
          else map_option (\<lambda>body. (u32_from_be (take 4 p), p ! 4,
                 take (unat (u16_from_be (take 2 (drop 5 p)))) body))
               (host_rest (u32_from_be (take 4 p)) 0 rest (drop 7 p)))"

lemma pad64_packet:
  assumes "length chunk \<le> 59"
  shows "take 4 (pad64 (u32_be ch @ [b] @ chunk)) = u32_be ch"
    and "pad64 (u32_be ch @ [b] @ chunk) ! 4 = b"
    and "drop 5 (pad64 (u32_be ch @ [b] @ chunk)) = chunk @ replicate (59 - length chunk) 0"
  using assms by (simp_all add: pad64_def codec nth_append)

definition padded :: "bytes \<Rightarrow> bytes" where
  "padded rest = rest @ replicate ((59 - length rest mod 59) mod 59) 0"

lemma padded_step:
  "take 59 rest @ replicate (59 - length (take 59 rest)) 0 @ padded (drop 59 rest) = padded rest"
  if "rest \<noteq> []"
proof (cases "length rest < 59")
  case True
  with that show ?thesis by (simp add: padded_def)
next
  case False
  then show ?thesis by (simp add: padded_def le_mod_geq)
qed

lemma host_rest_packets:
  "unat sequence \<le> 128 \<Longrightarrow> k = unat sequence \<Longrightarrow>
    host_rest ch k (map pad64 (rest_packets ch sequence rest)) acc
      = (if length rest \<le> 59 * (128 - k) then Some (acc @ padded rest) else None)"
proof (induction ch sequence rest arbitrary: k acc rule: rest_packets.induct)
  case (1 ch sequence rest)
  show ?case
  proof (cases "rest = []")
    case True
    then show ?thesis by (simp add: rest_packets.simps padded_def)
  next
    case False
    let ?p = "pad64 (u32_be ch @ [sequence] @ take 59 rest)"
    have p: "take 4 ?p = u32_be ch" "?p ! 4 = sequence"
      "drop 5 ?p = take 59 rest @ replicate (59 - length (take 59 rest)) 0"
      by (rule pad64_packet; simp)+
    have unfold: "rest_packets ch sequence rest
        = (u32_be ch @ [sequence] @ take 59 rest) # rest_packets ch (sequence + 1) (drop 59 rest)"
      using False by (simp add: rest_packets.simps)
    show ?thesis
    proof (cases "unat sequence = 128")
      case True
      then have "sequence AND 0x80 \<noteq> 0"
        by (simp add: top_bit)
      with p True False "1.prems" show ?thesis
        by (simp add: unfold del: append.simps)
    next
      case seq: False
      then have next_seq: "unat (sequence + 1) = Suc (unat sequence)"
        using "1.prems" by (simp add: unat_next_sequence)
      have "host_rest ch (Suc k) (map pad64 (rest_packets ch (sequence + 1) (drop 59 rest)))
          (acc @ drop 5 ?p)
        = (if length (drop 59 rest) \<le> 59 * (128 - Suc k)
           then Some ((acc @ drop 5 ?p) @ padded (drop 59 rest)) else None)"
        using False "1.prems" seq by (intro "1.IH") (auto simp: next_seq)
      moreover have "(acc @ drop 5 ?p) @ padded (drop 59 rest) = acc @ padded rest"
        unfolding p(3) using padded_step [OF False] by simp
      moreover have "length (drop 59 rest) \<le> 59 * (128 - Suc k) \<longleftrightarrow> length rest \<le> 59 * (128 - k)"
        using "1.prems" seq by auto
      ultimately show ?thesis
        using p "1.prems" seq by (simp add: unfold top_bit del: append.simps)
    qed
  qed
qed

lemma host_reads_reply:
  assumes "length data < 65536" and "cmd AND 0x80 \<noteq> 0"
  shows "host_message (map pad64 (reply_packets ch cmd data))
    = (if length data \<le> MAX_MESSAGE then Some (ch, cmd, data) else None)"
proof -
  let ?first = "first_packet ch cmd data" and ?rest = "drop 57 data"
  have "unat (word_of_nat (length data) :: u16) = length data"
    using assms(1) by (simp add: unat_of_nat)
  then have first: "take 4 (pad64 ?first) = u32_be ch" "pad64 ?first ! 4 = cmd"
    "unat (u16_from_be (take 2 (drop 5 (pad64 ?first)))) = length data"
    "drop 7 (pad64 ?first) = take 57 data @ replicate (57 - length data) 0"
    by (simp_all add: pad64_def first_packet_def codec nth_append)
  have "host_rest ch 0 (map pad64 (rest_packets ch 0 ?rest)) (take 57 data @ replicate (57 - length data) 0)
      = (if length data \<le> MAX_MESSAGE
         then Some ((take 57 data @ replicate (57 - length data) 0) @ padded ?rest) else None)"
    by (subst host_rest_packets) auto
  moreover have "take (length data) ((take 57 data @ replicate (57 - length data) 0) @ padded ?rest) = data"
    by (cases "length data \<le> 57") (simp_all add: padded_def)
  ultimately show ?thesis
    using first assms(2) by (simp add: host_message_def reply_packets_def codec)
qed

section \<open>Dispatch and the busy slot\<close>

lemma assign_channel_valid:
  "assign_channel c = (assigned, next) \<Longrightarrow> assigned \<noteq> 0 \<and> assigned \<noteq> BROADCAST \<and> next = assigned + 1"
  by (induction c rule: assign_channel.induct) (subst (asm) assign_channel.simps, auto split: if_splits)

lemma dispatch_fields [simp, daemon_frame]:
  "heap (dispatch c cmd x d) = heap d" "links (dispatch c cmd x d) = links d"
  "partials (dispatch c cmd x d) = partials d" "uhid_file (dispatch c cmd x d) = uhid_file d"
  "generation (dispatch c cmd x d) = generation d" "holders (dispatch c cmd x d) = holders d"
  "lastdev (dispatch c cmd x d) = lastdev d"
  by (simp_all add: dispatch_def hid_error_def Let_def split: prod.splits)

lemma dispatch_busy:
  assumes "busy d = Some r"
  shows "busy (dispatch c cmd x d) = Some r" and "spawned (dispatch c cmd x d) = spawned d"
  using assms by (simp_all add: dispatch_def Let_def split: prod.splits)

lemma dispatch_init:
  "busy (dispatch c INIT x d) = busy d" "spawned (dispatch c INIT x d) = spawned d"
  by (simp_all add: dispatch_def Let_def split: prod.splits)

lemma complete_fields [simp, daemon_frame]:
  "heap (complete c d) = heap d" "links (complete c d) = links d"
  "uhid_file (complete c d) = uhid_file d" "generation (complete c d) = generation d"
  "holders (complete c d) = holders d" "lastdev (complete c d) = lastdev d"
  by (simp_all add: complete_def split: option.splits)

lemma complete_busy:
  "busy d = Some r \<Longrightarrow> busy (complete c d) = Some r \<and> spawned (complete c d) = spawned d"
  by (simp add: complete_def dispatch_busy split: option.splits)

lemma complete_init:
  "partials d c = Some p \<Longrightarrow> pcommand p = INIT \<Longrightarrow>
    busy (complete c d) = busy d \<and> spawned (complete c d) = spawned d"
  by (simp add: complete_def dispatch_init)

text \<open>The invariant of the table of unfinished messages: what a message still lacks is positive and
  its declared size is within the protocol's limit, so \<open>partial.total - partial.data.len()\<close> never
  underflows.\<close>

definition partial_ok :: "partial \<Rightarrow> bool" where
  "partial_ok p \<longleftrightarrow> length (pdata p) < ptotal p \<and> ptotal p \<le> MAX_MESSAGE"

definition partials_ok :: "daemon \<Rightarrow> bool" where
  "partials_ok d \<longleftrightarrow> (\<forall>c p. partials d c = Some p \<longrightarrow> partial_ok p)"

lemma partials_ok_remove: "partials_ok d \<Longrightarrow> partials_ok (put_partial c None d)"
  by (simp add: partials_ok_def)

lemma partials_ok_cong: "partials e = partials d \<Longrightarrow> partials_ok e = partials_ok d"
  by (simp add: partials_ok_def)

lemma complete_partials_ok:
  assumes "partials_ok d" and "ptotal p \<le> MAX_MESSAGE"
  shows "partials_ok (complete c (put_partial c (Some p) d))"
  using assms by (auto simp: partials_ok_def partial_ok_def complete_def)

text \<open>What a packet can do, one case per exit of the code.\<close>

lemma packet_cases:
  obtains (ignored) "packet pkt d = d"
  | (refused) c e d' where "packet pkt d = hid_error c e d'" "d' = d \<or> d' = put_partial c None d"
  | (cancelled) c where "packet pkt d = cancel (Some c) False d"
  | (init) p where "pkt ! 4 = INIT" "pcommand p = INIT" "ptotal p \<le> MAX_MESSAGE"
      "packet pkt d = complete (u32_from_be (take 4 pkt)) (put_partial (u32_from_be (take 4 pkt)) (Some p)
         (cancel (Some (u32_from_be (take 4 pkt))) True
           (put_partial (u32_from_be (take 4 pkt)) None d)))"
  | (begun) c p where "\<not> busy_elsewhere c d" "ptotal p \<le> MAX_MESSAGE"
      "packet pkt d = complete c (put_partial c (Some p) d)"
  | (continued) c p q where "partials d c = Some p" "ptotal q = ptotal p"
      "packet pkt d = complete c (put_partial c (Some q) d)"
proof -
  let ?c = "u32_from_be (take 4 pkt)" and ?b = "pkt ! 4"
  let ?total = "unat (u16_from_be (take 2 (drop 5 pkt)))"
  let ?start = "\<lparr>pcommand = ?b, ptotal = ?total, pdata = take ?total (drop 7 pkt), pnext_sequence = 0\<rparr>"
  consider (short) "length pkt < 5 \<or> (?b AND 0x80 \<noteq> 0 \<and> length pkt < 7)"
    | (first) "\<not> length pkt < 5" "?b AND 0x80 \<noteq> 0" "\<not> length pkt < 7"
    | (more) "\<not> length pkt < 5" "?b AND 0x80 = 0"
    by blast
  then show thesis
  proof cases
    case short
    then show thesis by (intro ignored) (auto simp: packet_def)
  next
    case first
    consider "?total > MAX_MESSAGE" | "\<not> ?total > MAX_MESSAGE" "?b = CANCEL_CMD"
      | "\<not> ?total > MAX_MESSAGE" "?b = INIT"
      | "\<not> ?total > MAX_MESSAGE" "?b \<noteq> CANCEL_CMD" "?b \<noteq> INIT" "busy_elsewhere ?c d"
      | "\<not> ?total > MAX_MESSAGE" "?b \<noteq> CANCEL_CMD" "?b \<noteq> INIT" "\<not> busy_elsewhere ?c d"
      by blast
    then show thesis
    proof cases
      case 1
      with first show thesis by (intro refused [of ?c ERR_INVALID_LEN d]) (simp_all add: packet_def)
    next
      case 2
      with first show thesis by (intro cancelled [of ?c]) (simp add: packet_def)
    next
      case 3
      with first show thesis by (intro init [of ?start]) (simp_all add: packet_def Let_def)
    next
      case 4
      with first show thesis by (intro refused [of ?c ERR_CHANNEL_BUSY d]) (simp_all add: packet_def)
    next
      case 5
      with first show thesis by (intro begun [of ?c ?start]) (simp_all add: packet_def Let_def)
    qed
  next
    case more
    show thesis
    proof (cases "partials d ?c")
      case None
      with more show thesis by (intro ignored) (simp add: packet_def)
    next
      case (Some p)
      show thesis
      proof (cases "?b = pnext_sequence p")
        case True
        with more Some show thesis by (intro continued [of ?c p]) (auto simp: packet_def Let_def)
      next
        case False
        with more Some show thesis
          by (intro refused [of ?c ERR_INVALID_SEQ "put_partial ?c None d"]) (simp_all add: packet_def Let_def)
      qed
    qed
  qed
qed

lemma packet_partials_ok:
  assumes "partials_ok d"
  shows "partials_ok (packet pkt d)"
proof (cases rule: packet_cases [of pkt d])
  case ignored
  with assms show ?thesis by simp
next
  case (refused c e d')
  then have "partials_ok d'"
    using assms partials_ok_remove by auto
  with refused(1) show ?thesis by (simp add: partials_ok_def)
next
  case (cancelled c)
  with assms show ?thesis by (simp add: partials_ok_def)
next
  case (init p)
  have "partials_ok (cancel a b (put_partial c None d))" for a b c
    using partials_ok_remove [OF assms] by (simp add: partials_ok_def)
  with init show ?thesis by (simp add: complete_partials_ok)
next
  case (begun c p)
  with assms show ?thesis by (simp add: complete_partials_ok)
next
  case (continued c p q)
  then have "ptotal q \<le> MAX_MESSAGE"
    using assms by (auto simp: partials_ok_def partial_ok_def)
  with continued assms show ?thesis by (simp add: complete_partials_ok)
qed

text \<open>While a request is in flight a packet starts no second one; only INIT on the request's own
  channel takes the slot away.\<close>

lemma packet_busy_slot:
  assumes "busy d = Some r"
  shows "spawned (packet pkt d) = spawned d
    \<and> (busy (packet pkt d) = Some r
       \<or> busy (packet pkt d) = None \<and> pkt ! 4 = INIT \<and> u32_from_be (take 4 pkt) = rchannel r)"
proof (cases rule: packet_cases [of pkt d])
  case (cancelled c)
  with assms show ?thesis by (simp add: busy_cancel)
next
  case (init p)
  then show ?thesis
    using assms by (simp add: complete_init busy_cancel)
next
  case (begun c p)
  with assms show ?thesis by (simp add: complete_busy)
next
  case (continued c p q)
  with assms show ?thesis by (simp add: complete_busy)
qed (use assms in auto)

lemma packet_init:
  assumes "length nonce = 8"
  shows "packet (pad64 (first_packet ch INIT nonce)) d
    = dispatch ch INIT nonce (put_partial ch None (cancel (Some ch) True (put_partial ch None d)))"
proof -
  have n: "unat (word_of_nat (length nonce) :: u16) = 8"
    using assms by (simp add: unat_of_nat)
  have f: "take 4 (pad64 (first_packet ch INIT nonce)) = u32_be ch"
    "pad64 (first_packet ch INIT nonce) ! 4 = INIT"
    "unat (u16_from_be (take 2 (drop 5 (pad64 (first_packet ch INIT nonce))))) = 8"
    "take 8 (drop 7 (pad64 (first_packet ch INIT nonce))) = nonce"
    "length (pad64 (first_packet ch INIT nonce)) = 64"
    using n assms by (simp_all add: pad64_def first_packet_def codec nth_append)
  then show ?thesis
    using assms by (simp add: packet_def codec Let_def complete_def)
qed

section \<open>Properties\<close>



text \<open>C36: the packets of an answer carry it to the host, which reads back the channel, the command
  and the data, exactly when the answer has at most 7609 bytes: a longer one wraps into sequence
  number 128, which the host takes for a new message.\<close>

theorem reply_readable_iff:
  assumes "length data < 65536" and "cmd AND 0x80 \<noteq> 0" and "uhid_file d"
  shows "\<exists>ps. out (reply ch cmd data d) = out d @ map Input2 ps \<and> (\<forall>p\<in>set ps. length p \<le> 64)
    \<and> (host_message (map pad64 ps) = Some (ch, cmd, data) \<longleftrightarrow> length data \<le> MAX_MESSAGE)"
proof (intro exI conjI)
  show "out (reply ch cmd data d) = out d @ map Input2 (reply_packets ch cmd data)"
    using assms(3) by (simp add: reply_eq)
qed (use assms(1,2) in \<open>auto simp: host_reads_reply dest: length_reply_packets\<close>)

theorem reply_readable_iff_witness:
  "\<exists>ps. out (reply 1 CBOR (replicate 8000 0) (daemon_new 5 (\<lambda>_. undefined)\<lparr>uhid_file := True\<rparr>))
      = map Input2 ps \<and> host_message (map pad64 ps) \<noteq> Some (1, CBOR, replicate 8000 0)"
  using reply_readable_iff [of "replicate 8000 0" CBOR "daemon_new 5 (\<lambda>_. undefined)\<lparr>uhid_file := True\<rparr>" 1]
  by (auto simp: daemon_new_def)

text \<open>Every sequence of packets, of whatever bytes, keeps the table of unfinished messages well
  formed: each entry still lacks data and its declared size is within the limit, so the
  subtraction \<open>partial.total - partial.data.len()\<close> of the next packet cannot underflow.\<close>

theorem packets_keep_partials:
  assumes "partials_ok d"
  shows "partials_ok (fold packet pkts d)"
  using assms by (induction pkts arbitrary: d) (simp_all add: packet_partials_ok)

theorem packets_keep_partials_witness:
  "partials_ok (fold packet [[0, 0, 0, 1, 0x90, 0xFF, 0xFF], [0, 0, 0, 1, 0x90, 0, 9]]
     (daemon_new 5 (\<lambda>_. undefined)))"
  by (rule packets_keep_partials) (simp add: partials_ok_def daemon_new_def)

text \<open>C21: while a request is in flight no packet starts another one, and no packet changes the
  request in the slot except INIT on the request's own channel, which empties it.\<close>

theorem packet_slot:
  assumes "busy d = Some r"
  shows "spawned (packet pkt d) = spawned d
    \<and> (busy (packet pkt d) = Some r
       \<or> busy (packet pkt d) = None \<and> pkt ! 4 = INIT \<and> u32_from_be (take 4 pkt) = rchannel r)"
  using assms by (rule packet_busy_slot)

theorem packet_slot_witness:
  "spawned (packet (pad64 (first_packet 9 INIT (replicate 8 0)))
      (daemon_new 5 (\<lambda>_. undefined)\<lparr>busy := Some \<lparr>rchannel = 9, rnumber = 1, rid = 0\<rparr>\<rparr>)) = []"
  using packet_slot [of "daemon_new 5 (\<lambda>_. undefined)\<lparr>busy := Some \<lparr>rchannel = 9, rnumber = 1, rid = 0\<rparr>\<rparr>"
      "\<lparr>rchannel = 9, rnumber = 1, rid = 0\<rparr>" "pad64 (first_packet 9 INIT (replicate 8 0))"]
  by (simp add: daemon_new_def)

text \<open>C32: INIT always synchronizes: in any state, an INIT packet with an 8-byte nonce is answered to
  the sender with its nonce, a channel number that is neither 0 nor the broadcast channel unless
  the sender's own channel is 0, and the capabilities; the request in flight is given up if it is
  on this channel and untouched otherwise.\<close>

theorem init_synchronizes:
  assumes "uhid_file d" and "length nonce = 8"
  shows "let d' = packet (pad64 (first_packet ch INIT nonce)) d in
    (\<exists>ps assigned. out d' = out d @ map Input2 ps
      \<and> host_message (map pad64 ps) = Some (ch, INIT, nonce @ u32_be assigned @ [2, 1, 0, 0, 0x0d])
      \<and> (if ch = BROADCAST then assigned \<noteq> 0 \<and> assigned \<noteq> BROADCAST else assigned = ch))
    \<and> busy d' = (case busy d of None \<Rightarrow> None
        | Some r \<Rightarrow> if rchannel r = ch then None else Some r)
    \<and> partials d' ch = None"
proof -
  let ?d = "put_partial ch None (cancel (Some ch) True (put_partial ch None d))"
  let ?reply = "\<lambda>a. nonce @ u32_be a @ [2, 1, 0, 0, 0x0d]"
  have up: "uhid_file ?d" "out ?d = out d"
    using assms by simp_all
  have host: "host_message (map pad64 (reply_packets ch INIT (?reply a))) = Some (ch, INIT, ?reply a)" for a
    using assms by (subst host_reads_reply) (simp_all add: codec)
  have "\<exists>ps assigned. out (dispatch ch INIT nonce ?d) = out d @ map Input2 ps
      \<and> host_message (map pad64 ps) = Some (ch, INIT, ?reply assigned)
      \<and> (if ch = BROADCAST then assigned \<noteq> 0 \<and> assigned \<noteq> BROADCAST else assigned = ch)"
  proof (cases "ch = BROADCAST")
    case True
    obtain a n where a: "assign_channel (next_channel ?d) = (a, n)" by fastforce
    then have "out (dispatch ch INIT nonce ?d) = out d @ map Input2 (reply_packets ch INIT (?reply a))"
      using True assms up by (simp add: dispatch_def reply_eq)
    with True host [of a] assign_channel_valid [OF a] show ?thesis by auto
  next
    case False
    then have "out (dispatch ch INIT nonce ?d) = out d @ map Input2 (reply_packets ch INIT (?reply ch))"
      using assms up by (simp add: dispatch_def reply_eq)
    with False host [of ch] show ?thesis by auto
  qed
  then show ?thesis
    using assms(2) by (simp add: packet_init Let_def dispatch_init busy_cancel split: option.splits)
qed

theorem init_synchronizes_witness:
  "partials (packet (pad64 (first_packet BROADCAST INIT (replicate 8 3)))
     (daemon_new 5 (\<lambda>_. undefined)\<lparr>uhid_file := True\<rparr>)) BROADCAST = None"
  using init_synchronizes [of "daemon_new 5 (\<lambda>_. undefined)\<lparr>uhid_file := True\<rparr>" "replicate 8 3" BROADCAST]
  by (simp add: Let_def)

text \<open>A complete message that reaches the dispatcher is answered exactly once, there and then,
  with the request slot untouched; or it is a CBOR request with data, a real channel, a live
  device and a free slot, and then it takes the slot and one thread is started for it, with a
  request number and an identity no earlier thread has.\<close>

theorem dispatch_answers_or_starts:
  assumes "uhid_file d"
  shows "let d' = dispatch ch cmd data d in
    if cmd = CBOR \<and> ch \<noteq> 0 \<and> ch \<noteq> BROADCAST \<and> data \<noteq> [] \<and> live_links d \<noteq> [] \<and> busy d = None
    then out d' = out d \<and> (\<exists>r. busy d' = Some r \<and> spawned d' = spawned d @ [(r, data)]
      \<and> rchannel r = ch \<and> rnumber r = next_request d \<and> rid r = next_rid d
      \<and> next_rid d' = Suc (next_rid d) \<and> next_request d' = next_request d + 1)
    else busy d' = busy d \<and> spawned d' = spawned d
      \<and> (\<exists>answer payload. out d' = out d @ map Input2 (reply_packets ch answer payload))"
proof -
  have answered: "\<exists>answer payload. out (reply h c x e) = out d @ map Input2 (reply_packets h answer payload)"
    if "uhid_file e" "out e = out d" for h c x e
    using that by (auto simp: reply_eq)
  show ?thesis
    using assms by (auto simp: Let_def dispatch_def hid_error_def intro!: answered split: prod.splits)
qed

theorem dispatch_answers_or_starts_witness:
  "spawned (dispatch 0 CBOR [4] (daemon_new 5 (\<lambda>_. undefined)\<lparr>uhid_file := True\<rparr>)) = []"
  using dispatch_answers_or_starts [of "daemon_new 5 (\<lambda>_. undefined)\<lparr>uhid_file := True\<rparr>" 0 CBOR "[4]"]
  by (simp add: Let_def daemon_new_def)

end
