(* ===== verification/Uhid_Events.thy ===== *)
theory Uhid_Events
  imports Ctaphid
begin

text \<open>
  The events exchanged with the kernel through /dev/uhid (src/src/daemon.rs: \<open>create_uhid\<close>,
  \<open>destroy_uhid\<close>, \<open>send_report\<close>, \<open>read_uhid_events\<close>, \<open>put_u16_le\<close>, \<open>put_u32_le\<close>).  The state keeps
  the events written as values; \<open>event_bytes\<close> is the buffer of 4376 bytes the code fills for each.
  \<open>on_uhid_event\<close> is one turn of the reader's loop on the bytes the kernel delivered.
\<close>

section \<open>Constants\<close>

abbreviation (input) UHID_DESTROY :: u32 where "UHID_DESTROY \<equiv> 1"
abbreviation (input) UHID_CLOSE :: u32 where "UHID_CLOSE \<equiv> 5"
abbreviation (input) UHID_OUTPUT :: u32 where "UHID_OUTPUT \<equiv> 6"
abbreviation (input) UHID_GET_REPORT :: u32 where "UHID_GET_REPORT \<equiv> 9"
abbreviation (input) UHID_GET_REPORT_REPLY :: u32 where "UHID_GET_REPORT_REPLY \<equiv> 10"
abbreviation (input) UHID_CREATE2 :: u32 where "UHID_CREATE2 \<equiv> 11"
abbreviation (input) UHID_INPUT2 :: u32 where "UHID_INPUT2 \<equiv> 12"
abbreviation (input) UHID_SET_REPORT :: u32 where "UHID_SET_REPORT \<equiv> 13"
abbreviation (input) UHID_SET_REPORT_REPLY :: u32 where "UHID_SET_REPORT_REPLY \<equiv> 14"
abbreviation (input) UHID_EVENT_SIZE :: nat where "UHID_EVENT_SIZE \<equiv> 4376"

definition REPORT_DESC :: bytes where
  "REPORT_DESC =
     [0x06, 0xd0, 0xf1, 0x09, 0x01, 0xa1, 0x01, 0x09, 0x20, 0x15, 0x00, 0x26, 0xff, 0x00, 0x75, 0x08,
      0x95, 0x40, 0x81, 0x02, 0x09, 0x21, 0x15, 0x00, 0x26, 0xff, 0x00, 0x75, 0x08, 0x95, 0x40, 0x91,
      0x02, 0xc0]"

section \<open>Buffers\<close>

text \<open>\<open>buf[at..at + data.len()].copy_from_slice(data)\<close>.\<close>

definition copy_at :: "nat \<Rightarrow> bytes \<Rightarrow> bytes \<Rightarrow> bytes" where
  "copy_at at data buf = take at buf @ data @ drop (at + length data) buf"

definition put_u16_le :: "nat \<Rightarrow> u16 \<Rightarrow> bytes \<Rightarrow> bytes" where
  "put_u16_le at v buf = copy_at at (u16_le v) buf"

definition put_u32_le :: "nat \<Rightarrow> u32 \<Rightarrow> bytes \<Rightarrow> bytes" where
  "put_u32_le at v buf = copy_at at (u32_le v) buf"

definition empty_event :: bytes where
  "empty_event = replicate UHID_EVENT_SIZE 0"

text \<open>\<open>b"passkey"\<close>.\<close>

definition device_name :: bytes where
  "device_name = [0x70, 0x61, 0x73, 0x73, 0x6b, 0x65, 0x79]"

definition create2_event :: bytes where
  "create2_event =
     copy_at 280 REPORT_DESC
       (put_u32_le 272 1
         (put_u32_le 268 0x7ab1
           (put_u32_le 264 0x1209
             (put_u16_le 262 0x03
               (put_u16_le 260 (word_of_nat (length REPORT_DESC))
                 (copy_at 4 device_name
                   (put_u32_le 0 UHID_CREATE2 empty_event)))))))"

definition destroy_event :: bytes where
  "destroy_event = put_u32_le 0 UHID_DESTROY empty_event"

definition input2_event :: "bytes \<Rightarrow> bytes" where
  "input2_event report =
     copy_at 6 (take 64 report) (put_u16_le 4 64 (put_u32_le 0 UHID_INPUT2 empty_event))"

definition report_reply_event :: "u32 \<Rightarrow> u32 \<Rightarrow> bytes" where
  "report_reply_event answer report_id =
     put_u16_le 8 5 (put_u32_le 4 report_id (put_u32_le 0 answer empty_event))"

fun event_bytes :: "uhid_event \<Rightarrow> bytes" where
  "event_bytes Create2 = create2_event"
| "event_bytes Destroy = destroy_event"
| "event_bytes (Input2 report) = input2_event report"
| "event_bytes (ReportReply answer report_id) = report_reply_event answer report_id"

section \<open>The reader\<close>

text \<open>The report of an output event: at most 4096 bytes, the report number of a 65-byte report
  dropped, at most 64 bytes passed on.  \<open>got\<close> bytes were read into a buffer that is larger and
  keeps its old content behind them; \<open>event\<close> is the whole buffer.\<close>

definition output_report :: "bytes \<Rightarrow> bytes" where
  "output_report event =
     (let count = unat (u16_from_le (take 2 (drop 4100 event)));
          report = take (min count 4096) (drop 4 event);
          report = (if length report = 65 then drop 1 report else report)
      in take (min (length report) 64) report)"

definition on_uhid_event :: "nat \<Rightarrow> bytes \<Rightarrow> daemon \<Rightarrow> daemon" where
  "on_uhid_event got event d =
     (if got < 4 then d
      else
        let kind = u32_from_le (take 4 event) in
        if kind = UHID_OUTPUT \<and> got \<ge> 4102 then packet (output_report event) d
        else if kind = UHID_CLOSE then cancel None False d
        else if (kind = UHID_GET_REPORT \<or> kind = UHID_SET_REPORT) \<and> got \<ge> 8 then
          (let report_id = u32_from_le (take 4 (drop 4 event));
               answer = (if kind = UHID_GET_REPORT then UHID_GET_REPORT_REPLY
                         else UHID_SET_REPORT_REPLY)
           in write_uhid (ReportReply answer report_id) d)
        else d)"

text \<open>How \<open>read_uhid_events\<close> consumes what \<open>read\<close> returns, one entry per return (a wait that times
  out has none): \<open>None\<close> is the end of
  the file or an error, \<open>Some (got, event)\<close> a read of \<open>got\<close> bytes.  The loop ends when the
  generation is no longer its own.\<close>

fun read_uhid_events :: "u64 \<Rightarrow> (nat \<times> bytes) option list \<Rightarrow> daemon \<Rightarrow> daemon" where
  "read_uhid_events g [] d = d"
| "read_uhid_events g (r # rs) d =
     (if generation d \<noteq> g then d
      else case r of
          None \<Rightarrow> d
        | Some (got, event) \<Rightarrow>
            if got = 0 then d else read_uhid_events g rs (on_uhid_event got event d))"

section \<open>Fields of a buffer\<close>

definition field :: "nat \<Rightarrow> nat \<Rightarrow> bytes \<Rightarrow> bytes" where
  "field at n buf = take n (drop at buf)"

lemma length_copy_at [simp]: "at + length data \<le> length buf \<Longrightarrow> length (copy_at at data buf) = length buf"
  by (simp add: copy_at_def)

lemma field_copied: "at \<le> length buf \<Longrightarrow> n = length data \<Longrightarrow> field at n (copy_at at data buf) = data"
  by (simp add: field_def copy_at_def)

lemma field_before:
  "at + n \<le> i \<Longrightarrow> i \<le> length buf \<Longrightarrow> field at n (copy_at i data buf) = field at n buf"
proof -
  assume i: "at + n \<le> i" "i \<le> length buf"
  then have "field at n (copy_at i data buf) = take n (drop at (take i buf))"
    by (simp add: field_def copy_at_def)
  also have "\<dots> = field at n buf"
    using i by (simp add: field_def drop_take)
  finally show ?thesis .
qed

lemma field_after:
  "i + length data \<le> at \<Longrightarrow> i + length data \<le> length buf \<Longrightarrow> field at n (copy_at i data buf) = field at n buf"
  by (simp add: field_def copy_at_def)

lemma field_empty [simp]: "at + n \<le> UHID_EVENT_SIZE \<Longrightarrow> field at n empty_event = replicate n 0"
  by (simp add: field_def empty_event_def min_def)

lemma length_empty_event [simp]: "length empty_event = UHID_EVENT_SIZE"
  by (simp add: empty_event_def)

lemma length_put [simp]:
  "at + 2 \<le> length buf \<Longrightarrow> length (put_u16_le at v buf) = length buf"
  "at + 4 \<le> length buf \<Longrightarrow> length (put_u32_le at w buf) = length buf"
  by (simp_all add: put_u16_le_def put_u32_le_def codec)

lemma field_put:
  "at \<le> length buf \<Longrightarrow> field at 2 (put_u16_le at v buf) = u16_le v"
  "at \<le> length buf \<Longrightarrow> field at 4 (put_u32_le at w buf) = u32_le w"
  "at + n \<le> i \<Longrightarrow> i \<le> length buf \<Longrightarrow> field at n (put_u16_le i v buf) = field at n buf"
  "at + n \<le> i \<Longrightarrow> i \<le> length buf \<Longrightarrow> field at n (put_u32_le i w buf) = field at n buf"
  "i + 2 \<le> at \<Longrightarrow> i + 2 \<le> length buf \<Longrightarrow> field at n (put_u16_le i v buf) = field at n buf"
  "i + 4 \<le> at \<Longrightarrow> i + 4 \<le> length buf \<Longrightarrow> field at n (put_u32_le i w buf) = field at n buf"
  by (simp_all add: put_u16_le_def put_u32_le_def field_copied field_before field_after codec)

lemmas fields = field_copied field_before field_after field_put

lemma length_report_desc [simp]: "length REPORT_DESC = 34" and length_device_name [simp]: "length device_name = 7"
  by (simp_all add: REPORT_DESC_def device_name_def)

lemmas event_defs = create2_event_def destroy_event_def input2_event_def report_reply_event_def

lemma length_event_bytes: "length (event_bytes e) = UHID_EVENT_SIZE"
  by (cases e) (simp_all add: event_defs min_def)

lemma event_kind: "field 0 4 (event_bytes e) = u32_le (case e of Create2 \<Rightarrow> UHID_CREATE2
    | Destroy \<Rightarrow> UHID_DESTROY | Input2 _ \<Rightarrow> UHID_INPUT2 | ReportReply answer _ \<Rightarrow> answer)"
  by (cases e) (simp_all add: event_defs fields)

text \<open>The report a kernel takes from an input event.\<close>

lemma input2_report: "length report \<le> 64 \<Longrightarrow> field 6 64 (input2_event report) = pad64 report"
  by (simp add: input2_event_def field_def copy_at_def put_u16_le_def put_u32_le_def codec
      empty_event_def pad64_def)

section \<open>Packets through the kernel\<close>

text \<open>An output event as the kernel lays it out: the report in a field of 4096 bytes, its size, and
  the rest of the buffer.\<close>

definition output_event :: "bytes \<Rightarrow> bytes \<Rightarrow> bytes" where
  "output_event report trailing =
     u32_le UHID_OUTPUT @ report @ replicate (4096 - length report) 0
       @ u16_le (word_of_nat (length report)) @ trailing"

lemma output_event_report:
  assumes "length report \<le> 4096"
  shows "take 4 (output_event report trailing) = u32_le UHID_OUTPUT"
    and "output_report (output_event report trailing)
      = take 64 (if length report = 65 then drop 1 report else report)"
proof -
  have "unat (word_of_nat (length report) :: u16) = length report"
    using assms by (simp add: unat_of_nat)
  then show "output_report (output_event report trailing)
      = take 64 (if length report = 65 then drop 1 report else report)"
    using assms by (simp add: output_report_def output_event_def codec Let_def min_def)
qed (simp add: output_event_def codec)

lemma on_output_event:
  assumes "length report \<le> 4096" and "4102 \<le> got"
  shows "on_uhid_event got (output_event report trailing) d
    = packet (take 64 (if length report = 65 then drop 1 report else report)) d"
  using assms by (simp add: on_uhid_event_def output_event_report codec Let_def)

text \<open>A host writes a packet of 64 bytes with or without a report number before it.\<close>

definition host_writes :: "bytes \<Rightarrow> bytes \<Rightarrow> bool" where
  "host_writes pkt report \<longleftrightarrow> length pkt = 64 \<and> (report = pkt \<or> (\<exists>number. report = number # pkt))"

lemma on_host_write:
  "host_writes pkt report \<Longrightarrow> 4102 \<le> got \<Longrightarrow> on_uhid_event got (output_event report trailing) d = packet pkt d"
  by (auto simp: host_writes_def on_output_event)

lemma length_pad64: "length p \<le> 64 \<Longrightarrow> length (pad64 p) = 64"
  by (simp add: pad64_def)

definition from_host :: "bytes \<Rightarrow> daemon \<Rightarrow> daemon" where
  "from_host report d = on_uhid_event UHID_EVENT_SIZE (output_event report [1]) d"

lemma fold_from_host:
  "list_all2 host_writes pkts reports \<Longrightarrow> fold from_host reports d = fold packet pkts d"
  by (induction arbitrary: d rule: list_all2_induct) (simp_all add: from_host_def on_host_write)

section \<open>Properties\<close>

text \<open>Every event written to the kernel is a whole event of 4376 bytes with its type in front; a
  new device has the name, the buses and ids and exactly the report descriptor of the code at the
  places the kernel reads them; an input event carries the packet, padded with zeros to 64.\<close>

theorem event_layout:
  shows "length (event_bytes e) = UHID_EVENT_SIZE
    \<and> (e = Create2 \<longrightarrow> field 0 4 (event_bytes e) = u32_le UHID_CREATE2
        \<and> field 4 8 (event_bytes e) = device_name @ [0]
        \<and> field 260 2 (event_bytes e) = u16_le 34 \<and> field 262 2 (event_bytes e) = u16_le 3
        \<and> field 264 4 (event_bytes e) = u32_le 0x1209 \<and> field 268 4 (event_bytes e) = u32_le 0x7ab1
        \<and> field 272 4 (event_bytes e) = u32_le 1 \<and> field 280 34 (event_bytes e) = REPORT_DESC)
    \<and> (e = Destroy \<longrightarrow> field 0 4 (event_bytes e) = u32_le UHID_DESTROY)
    \<and> (\<forall>report. e = Input2 report \<and> length report \<le> 64 \<longrightarrow>
        field 0 4 (event_bytes e) = u32_le UHID_INPUT2 \<and> field 4 2 (event_bytes e) = u16_le 64
        \<and> field 6 64 (event_bytes e) = pad64 report)
    \<and> (\<forall>answer report_id. e = ReportReply answer report_id \<longrightarrow>
        field 0 4 (event_bytes e) = u32_le answer \<and> field 4 4 (event_bytes e) = u32_le report_id
        \<and> field 8 2 (event_bytes e) = u16_le 5)"
proof (cases e)
  case Create2
  have "field 4 8 create2_event = device_name @ [0]"
    by (simp add: create2_event_def fields)
       (simp add: field_def copy_at_def put_u32_le_def codec empty_event_def)
  with Create2 show ?thesis
    by (simp add: length_event_bytes event_kind) (simp add: create2_event_def fields)
next
  case (Input2 report)
  then show ?thesis
    using input2_report by (simp add: length_event_bytes event_kind) (simp add: input2_event_def fields)
next
  case (ReportReply answer report_id)
  then show ?thesis
    by (simp add: length_event_bytes event_kind) (simp add: report_reply_event_def fields)
next
  case Destroy
  then show ?thesis
    using event_kind [of Destroy] length_event_bytes [of Destroy] by simp
qed

theorem event_layout_witness:
  "field 6 64 (event_bytes (Input2 [1, 2])) = pad64 [1, 2]"
  using event_layout [of "Input2 [1, 2]"] by simp



end
