(* ===== verification/Cbor.thy ===== *)
theory Cbor
  imports Rust_Text
begin

unbundle bit_operations_syntax

text \<open>
  The CBOR reader the daemon looks into requests with (src/src/daemon.rs: \<open>Cbor\<close>, \<open>decode_cbor\<close>,
  \<open>read_uint\<close>, \<open>silent\<close>).  The \<open>&mut usize\<close> offset is an argument and part of the result; an
  \<open>Err(())\<close> is \<open>None\<close> (the offset is not used after it).  The lengths a request declares are up
  to 64 bits wide, so the facts that matter are that reading ends, stays inside the buffer, and
  builds no more than the bytes it read.
\<close>

section \<open>Data\<close>

datatype cbor =
    CInteger int
  | CBytes bytes
  | CText bytes
  | CArray "cbor list"
  | CMap "(cbor \<times> cbor) list"
  | CBool bool
  | CNull

section \<open>Reading\<close>

definition usize_add :: "nat \<Rightarrow> nat \<Rightarrow> nat option" where
  "usize_add a b = (if a + b < 2 ^ 64 then Some (a + b) else None)"

text \<open>\<open>input.get(start..end)\<close>.\<close>

definition get_range :: "bytes \<Rightarrow> nat \<Rightarrow> nat \<Rightarrow> bytes option" where
  "get_range input start stop =
     (if start \<le> stop \<and> stop \<le> length input then Some (take (stop - start) (drop start input))
      else None)"

definition shift_in :: "u8 \<Rightarrow> u64 \<Rightarrow> u64" where
  "shift_in byte value = push_bit 8 value OR ucast byte"

definition read_uint :: "bytes \<Rightarrow> nat \<Rightarrow> nat \<Rightarrow> (u64 \<times> nat) option" where
  "read_uint input offset count =
     (case usize_add offset count of
        None \<Rightarrow> None
      | Some stop \<Rightarrow>
          (case get_range input offset stop of
             None \<Rightarrow> None
           | Some bs \<Rightarrow> Some (fold shift_in bs 0, stop)))"

definition read_argument :: "bytes \<Rightarrow> nat \<Rightarrow> u8 \<Rightarrow> (u64 \<times> nat) option" where
  "read_argument input offset info =
     (if info \<le> 23 then Some (ucast info, offset)
      else if info = 24 then read_uint input offset 1
      else if info = 25 then read_uint input offset 2
      else if info = 26 then read_uint input offset 4
      else if info = 27 then read_uint input offset 8
      else None)"

definition read_string :: "bytes \<Rightarrow> nat \<Rightarrow> u64 \<Rightarrow> (bytes \<times> nat) option" where
  "read_string input offset value =
     (case usize_add offset (unat value) of
        None \<Rightarrow> None
      | Some stop \<Rightarrow> map_option (\<lambda>bs. (bs, stop)) (get_range input offset stop))"

function (sequential)
      decode_cbor :: "bytes \<Rightarrow> nat \<Rightarrow> nat \<Rightarrow> (cbor \<times> nat) option"
  and decode_items :: "nat \<Rightarrow> bytes \<Rightarrow> nat \<Rightarrow> nat \<Rightarrow> (cbor list \<times> nat) option"
  and decode_pairs :: "nat \<Rightarrow> bytes \<Rightarrow> nat \<Rightarrow> nat \<Rightarrow> ((cbor \<times> cbor) list \<times> nat) option"
where
  "decode_cbor input offset depth =
     (if depth > 8 \<or> offset \<ge> length input then None
      else
        let first = input ! offset; major = drop_bit 5 first; info = first AND 31 in
        if major = 7 then
          (if info = 20 then Some (CBool False, offset + 1)
           else if info = 21 then Some (CBool True, offset + 1)
           else if info = 22 then Some (CNull, offset + 1)
           else None)
        else case read_argument input (offset + 1) info of
          None \<Rightarrow> None
        | Some (value, off) \<Rightarrow>
            if major = 0 then
              (if unat value < 2 ^ 63 then Some (CInteger (uint value), off) else None)
            else if major = 1 then
              (if unat value < 2 ^ 63 then Some (CInteger (-1 - uint value), off) else None)
            else if major = 2 then
              map_option (\<lambda>(bs, off2). (CBytes bs, off2)) (read_string input off value)
            else if major = 3 then
              (case read_string input off value of
                 None \<Rightarrow> None
               | Some (bs, off2) \<Rightarrow> if utf8_valid bs then Some (CText bs, off2) else None)
            else if major = 4 then
              map_option (\<lambda>(vs, off2). (CArray vs, off2))
                (decode_items (unat value) input off (depth + 1))
            else if major = 5 then
              map_option (\<lambda>(kvs, off2). (CMap kvs, off2))
                (decode_pairs (unat value) input off (depth + 1))
            else if major = 6 then decode_cbor input off (depth + 1)
            else None)"
| "decode_items n input offset depth =
     (if n = 0 then Some ([], offset)
      else case decode_cbor input offset depth of
        None \<Rightarrow> None
      | Some (v, off) \<Rightarrow>
          map_option (\<lambda>(vs, off2). (v # vs, off2)) (decode_items (n - 1) input off depth))"
| "decode_pairs n input offset depth =
     (if n = 0 then Some ([], offset)
      else case decode_cbor input offset depth of
        None \<Rightarrow> None
      | Some (k, off) \<Rightarrow>
          (case decode_cbor input off depth of
             None \<Rightarrow> None
           | Some (v, off2) \<Rightarrow>
               map_option (\<lambda>(kvs, off3). ((k, v) # kvs, off3))
                 (decode_pairs (n - 1) input off2 depth)))"
  by pat_completeness auto
termination
  by (relation "inv_image (less_than <*lex*> less_than)
        (\<lambda>x. case x of Inl (input, offset, depth) \<Rightarrow> (10 - depth, 0)
           | Inr (Inl (n, input, offset, depth)) \<Rightarrow> (10 - depth, n + 1)
           | Inr (Inr (n, input, offset, depth)) \<Rightarrow> (10 - depth, n + 1))") auto

declare decode_cbor.simps [simp del] decode_items.simps [simp del] decode_pairs.simps [simp del]

abbreviation (input) GET_ASSERTION :: u8 where "GET_ASSERTION \<equiv> 0x02"

text \<open>\<open>"up".into()\<close>.\<close>

definition up_key :: bytes where
  "up_key = [0x75, 0x70]"

definition silent_option :: "cbor \<times> cbor \<Rightarrow> bool" where
  "silent_option kv \<longleftrightarrow> fst kv = CText up_key \<and> snd kv = CBool False"

definition silent_entry :: "cbor \<times> cbor \<Rightarrow> bool" where
  "silent_entry kv =
     (if fst kv \<noteq> CInteger 5 then False
      else case snd kv of CMap options \<Rightarrow> list_ex silent_option options | _ \<Rightarrow> False)"

definition silent :: "bytes \<Rightarrow> bool" where
  "silent data =
     (if data = [] \<or> hd data \<noteq> GET_ASSERTION then False
      else case decode_cbor data 1 0 of
        Some (CMap root, _) \<Rightarrow>
          list_ex silent_entry root
      | _ \<Rightarrow> False)"

section \<open>What reading guarantees\<close>

text \<open>\<open>cbor_cost\<close> counts the nodes of a value and the bytes of its strings: what the reader
  allocates.  \<open>cbor_ok\<close> holds of the values the Rust type can hold.\<close>

fun cbor_cost :: "cbor \<Rightarrow> nat" where
  "cbor_cost (CBytes bs) = 1 + length bs"
| "cbor_cost (CText bs) = 1 + length bs"
| "cbor_cost (CArray vs) = 1 + sum_list (map cbor_cost vs)"
| "cbor_cost (CMap kvs) = 1 + sum_list (map (\<lambda>(k, v). cbor_cost k + cbor_cost v) kvs)"
| "cbor_cost _ = 1"

fun cbor_depth :: "cbor \<Rightarrow> nat" where
  "cbor_depth (CArray vs) = 1 + foldr max (map cbor_depth vs) 0"
| "cbor_depth (CMap kvs) = 1 + foldr max (map (\<lambda>(k, v). max (cbor_depth k) (cbor_depth v)) kvs) 0"
| "cbor_depth _ = 1"

fun cbor_ok :: "cbor \<Rightarrow> bool" where
  "cbor_ok (CInteger i) \<longleftrightarrow> - (2 ^ 63) \<le> i \<and> i < 2 ^ 63"
| "cbor_ok (CText bs) \<longleftrightarrow> utf8_valid bs"
| "cbor_ok (CArray vs) \<longleftrightarrow> list_all cbor_ok vs"
| "cbor_ok (CMap kvs) \<longleftrightarrow> list_all (\<lambda>(k, v). cbor_ok k \<and> cbor_ok v) kvs"
| "cbor_ok _ \<longleftrightarrow> True"

definition read_span :: "bytes \<Rightarrow> nat \<Rightarrow> nat \<Rightarrow> nat \<Rightarrow> bool" where
  "read_span input start stop cost \<longleftrightarrow> stop \<le> max start (length input) \<and> start + cost \<le> stop"

lemma foldr_max_le: "foldr max ns 0 \<le> (m :: nat) \<longleftrightarrow> (\<forall>n\<in>set ns. n \<le> m)"
  by (induction ns) auto

lemma read_uint_Some:
  "read_uint input offset count = Some (v, off) \<Longrightarrow> off = offset + count \<and> off \<le> length input"
  by (auto simp: read_uint_def usize_add_def get_range_def split: option.splits if_splits)

lemma read_argument_Some:
  "read_argument input offset info = Some (v, off)
    \<Longrightarrow> offset \<le> off \<and> off \<le> max offset (length input)"
  by (auto simp: read_argument_def dest!: read_uint_Some split: if_splits)

lemma read_string_Some:
  "read_string input offset v = Some (bs, off)
    \<Longrightarrow> off = offset + length bs \<and> off \<le> length input"
  by (auto simp: read_string_def usize_add_def get_range_def split: option.splits if_splits)

lemmas read_Some = read_argument_Some read_string_Some

text \<open>How a value can have been read, one case per branch of the code.\<close>

lemma decode_cborE:
  assumes "decode_cbor input offset depth = Some (v, off)"
  obtains (simple) "drop_bit 5 (input ! offset) = 7" "off = offset + 1"
      "v \<in> {CBool False, CBool True, CNull}" "depth \<le> 8" "offset < length input"
  | (integer) arg where "drop_bit 5 (input ! offset) \<in> {0, 1}"
      "read_argument input (offset + 1) (input ! offset AND 31) = Some (arg, off)"
      "v = CInteger (if drop_bit 5 (input ! offset) = 0 then uint arg else -1 - uint arg)"
      "unat arg < 2 ^ 63" "depth \<le> 8" "offset < length input"
  | (string) arg off1 bs where "drop_bit 5 (input ! offset) \<in> {2, 3}"
      "read_argument input (offset + 1) (input ! offset AND 31) = Some (arg, off1)"
      "read_string input off1 arg = Some (bs, off)"
      "v = (if drop_bit 5 (input ! offset) = 2 then CBytes bs else CText bs)"
      "drop_bit 5 (input ! offset) = 3 \<Longrightarrow> utf8_valid bs" "depth \<le> 8" "offset < length input"
  | (array) arg off1 vs where "drop_bit 5 (input ! offset) = 4"
      "read_argument input (offset + 1) (input ! offset AND 31) = Some (arg, off1)"
      "decode_items (unat arg) input off1 (depth + 1) = Some (vs, off)"
      "v = CArray vs" "depth \<le> 8" "offset < length input"
  | (map) arg off1 kvs where "drop_bit 5 (input ! offset) = 5"
      "read_argument input (offset + 1) (input ! offset AND 31) = Some (arg, off1)"
      "decode_pairs (unat arg) input off1 (depth + 1) = Some (kvs, off)"
      "v = CMap kvs" "depth \<le> 8" "offset < length input"
  | (tag) arg off1 where "drop_bit 5 (input ! offset) = 6"
      "read_argument input (offset + 1) (input ! offset AND 31) = Some (arg, off1)"
      "decode_cbor input off1 (depth + 1) = Some (v, off)" "depth \<le> 8" "offset < length input"
proof -
  let ?major = "drop_bit 5 (input ! offset)" and ?info = "input ! offset AND 31"
  have ok: "depth \<le> 8" "offset < length input"
    using assms by (simp_all add: decode_cbor.simps [of input offset depth] split: if_splits)
  note run = assms [unfolded decode_cbor.simps [of input offset depth] Let_def]
  show thesis
  proof (cases "?major = 7")
    case True
    with run ok have "off = offset + 1 \<and> v \<in> {CBool False, CBool True, CNull}"
      by (simp split: if_splits)
    with True ok show thesis by (intro simple) auto
  next
    case False
    with run ok obtain arg off1 where arg: "read_argument input (offset + 1) ?info = Some (arg, off1)"
      by (cases "read_argument input (offset + 1) ?info") auto
    note run = run [unfolded arg]
    consider "?major = 0" | "?major = 1" | "?major = 2" | "?major = 3" | "?major = 4" | "?major = 5"
      | "?major = 6"
      using run ok False by (simp split: if_splits)
    then show thesis
    proof cases
      case 1
      with run ok arg show thesis by (intro integer [of arg]) (simp_all split: if_splits)
    next
      case 2
      with run ok arg show thesis by (intro integer [of arg]) (simp_all split: if_splits)
    next
      case 3
      with run ok arg show thesis by (auto intro: string [of arg off1])
    next
      case 4
      with run ok arg show thesis
        by (auto intro: string [of arg off1] split: option.splits if_splits)
    next
      case 5
      with run ok arg show thesis by (auto intro: array [of arg off1])
    next
      case 6
      with run ok arg show thesis by (auto intro: map [of arg off1])
    next
      case 7
      with run ok arg show thesis by (auto intro: tag [of arg off1])
    qed
  qed
qed

lemma decode_bounds:
  "decode_cbor input offset depth = Some (v, off) \<Longrightarrow>
     offset < length input \<and> read_span input offset off (cbor_cost v)
     \<and> depth + cbor_depth v \<le> 9 \<and> cbor_ok v"
  "decode_items n input offset depth = Some (vs, off) \<Longrightarrow>
     read_span input offset off (sum_list (map cbor_cost vs)) \<and> length vs = n
     \<and> (\<forall>v\<in>set vs. depth + cbor_depth v \<le> 9 \<and> cbor_ok v)"
  "decode_pairs n input offset depth = Some (kvs, off) \<Longrightarrow>
     read_span input offset off (sum_list (map (\<lambda>(k, v). cbor_cost k + cbor_cost v) kvs))
     \<and> length kvs = n
     \<and> (\<forall>(k, v)\<in>set kvs. depth + cbor_depth k \<le> 9 \<and> cbor_ok k \<and> depth + cbor_depth v \<le> 9 \<and> cbor_ok v)"
proof (induction input offset depth and n input offset depth and n input offset depth
    arbitrary: v off and vs off and kvs off
    rule: decode_cbor_decode_items_decode_pairs.induct)
  case (1 input offset depth)
  have neg: "\<not> (8 < depth \<or> length input \<le> offset)"
    if "depth \<le> 8" "offset < length input" using that by simp
  from "1.prems" show ?case
  proof (cases rule: decode_cborE)
    case (integer arg)
    define i where "i = uint arg"
    have "int (unat arg) < int (2 ^ 63)"
      using integer(4) by (simp only: of_nat_less_iff)
    then have "0 \<le> i" "i < 2 ^ 63"
      by (simp_all add: i_def)
    then have "cbor_ok v" "cbor_cost v = 1" "cbor_depth v = 1"
      by (auto simp: integer(3) i_def [symmetric])
    with read_argument_Some [OF integer(2)] integer(5,6) show ?thesis
      by (simp add: read_span_def)
  next
    case (string arg off1 bs)
    have "cbor_ok v" "cbor_cost v = 1 + length bs" "cbor_depth v = 1"
      using string(1,5) by (auto simp: string(4))
    with read_argument_Some [OF string(2)] read_string_Some [OF string(3)] string(6,7)
    show ?thesis
      by (simp add: read_span_def)
  next
    case (array arg off1 vs)
    have "read_span input off1 off (sum_list (map cbor_cost vs)) \<and> length vs = unat arg
        \<and> (\<forall>v\<in>set vs. depth + 1 + cbor_depth v \<le> 9 \<and> cbor_ok v)"
      by (rule "1.IH"(1) [OF neg refl refl refl _ array(2) refl _ _ _ _ array(1) array(3)])
         (simp_all add: array(1,5,6))
    moreover from this have "foldr max (map cbor_depth vs) 0 \<le> 8 - depth"
      by (auto simp: foldr_max_le)
    ultimately show ?thesis
      using read_argument_Some [OF array(2)] array(4-6)
      by (auto simp: read_span_def list_all_iff)
  next
    case (map arg off1 kvs)
    have "read_span input off1 off (sum_list (List.map (\<lambda>(k, v). cbor_cost k + cbor_cost v) kvs))
        \<and> length kvs = unat arg
        \<and> (\<forall>(k, v)\<in>set kvs. depth + 1 + cbor_depth k \<le> 9 \<and> cbor_ok k
             \<and> depth + 1 + cbor_depth v \<le> 9 \<and> cbor_ok v)"
      by (rule "1.IH"(2) [OF neg refl refl refl _ map(2) refl _ _ _ _ _ map(1) map(3)])
         (simp_all add: map(1,5,6))
    moreover from this
    have "foldr max (List.map (\<lambda>(k, v). max (cbor_depth k) (cbor_depth v)) kvs) 0 \<le> 8 - depth"
      by (fastforce simp: foldr_max_le)
    ultimately show ?thesis
      using read_argument_Some [OF map(2)] map(4-6)
      by (auto simp: read_span_def list_all_iff)
  next
    case (tag arg off1)
    have "off1 < length input \<and> read_span input off1 off (cbor_cost v)
        \<and> depth + 1 + cbor_depth v \<le> 9 \<and> cbor_ok v"
      by (rule "1.IH"(3) [OF neg refl refl refl _ tag(2) refl _ _ _ _ _ _ tag(1) tag(3)])
         (simp_all add: tag(1,4,5))
    with read_argument_Some [OF tag(2)] tag(4,5) show ?thesis
      by (auto simp: read_span_def)
  qed (auto simp: read_span_def)
next
  case (2 n input offset depth)
  show ?case
  proof (cases "n = 0")
    case True
    with "2.prems" show ?thesis by (simp add: decode_items.simps read_span_def)
  next
    case False
    then obtain v off1 us where v: "decode_cbor input offset depth = Some (v, off1)"
      and us: "decode_items (n - 1) input off1 depth = Some (us, off)" and vs: "vs = v # us"
      using "2.prems" by (subst (asm) decode_items.simps) (auto split: option.splits)
    show ?thesis
      using "2.IH"(1) [OF False v] "2.IH"(2) [OF False v refl us] False
      by (auto simp: vs read_span_def)
  qed
next
  case (3 n input offset depth)
  show ?case
  proof (cases "n = 0")
    case True
    with "3.prems" show ?thesis by (simp add: decode_pairs.simps read_span_def)
  next
    case False
    then obtain k off1 v off2 us where k: "decode_cbor input offset depth = Some (k, off1)"
      and v: "decode_cbor input off1 depth = Some (v, off2)"
      and us: "decode_pairs (n - 1) input off2 depth = Some (us, off)" and kvs: "kvs = (k, v) # us"
      using "3.prems" by (subst (asm) decode_pairs.simps) (auto split: option.splits)
    show ?thesis
      using "3.IH"(1) [OF False k] "3.IH"(2) [OF False k refl v] "3.IH"(3) [OF False k refl v refl us] False
      by (auto simp: kvs read_span_def)
  qed
qed

section \<open>Reading back what an encoder writes\<close>

text \<open>The heads of the device's encoder (\<open>head\<close> of Cbor.java), and the definite-length encoding of a
  value built from them: the reference the reader is checked against.\<close>

definition encode_head :: "u8 \<Rightarrow> nat \<Rightarrow> bytes" where
  "encode_head major v =
     (let m = push_bit 5 major in
      if v < 24 then [m OR word_of_nat v]
      else if v < 0x100 then (m OR 24) # be_enc 1 v
      else if v < 0x10000 then (m OR 25) # be_enc 2 v
      else if v < 0x100000000 then (m OR 26) # be_enc 4 v
      else (m OR 27) # be_enc 8 v)"

fun encode_cbor :: "cbor \<Rightarrow> bytes" where
  "encode_cbor (CInteger i) =
     (if 0 \<le> i then encode_head 0 (nat i) else encode_head 1 (nat (-1 - i)))"
| "encode_cbor (CBytes bs) = encode_head 2 (length bs) @ bs"
| "encode_cbor (CText bs) = encode_head 3 (length bs) @ bs"
| "encode_cbor (CArray vs) = encode_head 4 (length vs) @ concat (map encode_cbor vs)"
| "encode_cbor (CMap kvs) =
     encode_head 5 (length kvs) @ concat (map (\<lambda>(k, v). encode_cbor k @ encode_cbor v) kvs)"
| "encode_cbor (CBool b) = [if b then 0xF5 else 0xF4]"
| "encode_cbor CNull = [0xF6]"

lemma shift_in_eq: "shift_in b w = w * 256 + word_of_nat (unat b)"
proof -
  have "push_bit 8 w AND ucast b = 0"
    by (rule bit_word_eqI) (auto simp: bit_simps dest: bit_imp_le_length)
  then have "shift_in b w = push_bit 8 w + ucast b"
    by (simp add: shift_in_def disjunctive_add_eq_or)
  then show ?thesis
    by (simp add: push_bit_eq_mult)
qed

lemma le_dec_append: "le_dec (xs @ ys) = le_dec xs + 256 ^ length xs * le_dec ys"
  by (induction xs) (auto simp: algebra_simps)

lemma be_dec_Cons: "be_dec (b # bs) = unat b * 256 ^ length bs + be_dec bs"
  by (simp add: be_dec_def le_dec_append)

lemma fold_shift_in: "fold shift_in bs w = w * 256 ^ length bs + word_of_nat (be_dec bs)"
proof (induction bs arbitrary: w)
  case Nil
  then show ?case by (simp add: be_dec_def)
next
  case (Cons b bs)
  then show ?case
    by (simp add: shift_in_eq be_dec_Cons algebra_simps)
qed

lemma read_uint_at:
  assumes "length pre + length bs < 2 ^ 64" and "input = pre @ bs @ post"
  shows "read_uint input (length pre) (length bs)
    = Some (word_of_nat (be_dec bs), length pre + length bs)"
  using assms by (simp add: read_uint_def usize_add_def get_range_def fold_shift_in)

lemma read_string_at:
  assumes "length pre + length bs < 2 ^ 64" and "input = pre @ bs @ post"
  shows "read_string input (length pre) (word_of_nat (length bs)) = Some (bs, length pre + length bs)"
proof -
  have "unat (word_of_nat (length bs) :: u64) = length bs"
    using assms(1) by (simp add: unat_of_nat)
  then show ?thesis
    using assms by (simp add: read_string_def usize_add_def get_range_def)
qed

lemma head_byte:
  assumes "take_bit 3 m = (m :: u8)" and "take_bit 5 x = x"
  shows "drop_bit 5 (push_bit 5 m OR x) = m" and "(push_bit 5 m OR x) AND 31 = x"
proof -
  have "drop_bit 5 (push_bit 5 (take_bit 3 m) OR take_bit 5 x) = take_bit 3 m"
    by (rule bit_word_eqI) (auto simp: bit_simps)
  then show "drop_bit 5 (push_bit 5 m OR x) = m"
    by (simp only: assms)
  have "(push_bit 5 m OR take_bit 5 x) AND mask 5 = take_bit 5 x"
    by (rule bit_word_eqI) (auto simp: bit_simps)
  then show "(push_bit 5 m OR x) AND 31 = x"
    by (simp only: assms) (simp add: mask_eq_exp_minus_1)
qed

lemma small_info:
  assumes "v < 24"
  shows "take_bit 5 (word_of_nat v :: u8) = word_of_nat v" and "(word_of_nat v :: u8) \<le> 23"
    and "(ucast (word_of_nat v :: u8) :: u64) = word_of_nat v"
proof -
  have "unat (take_bit 5 (word_of_nat v :: u8)) = unat (word_of_nat v :: u8)"
    using assms by (simp only: unsigned_take_bit_eq) (simp add: unat_of_nat take_bit_eq_mod)
  then show "take_bit 5 (word_of_nat v :: u8) = word_of_nat v"
    by (simp only: word_unat_eq_iff)
  show "(word_of_nat v :: u8) \<le> 23" and "(ucast (word_of_nat v :: u8) :: u64) = word_of_nat v"
    using assms by (simp_all add: word_unat_eq_iff unsigned_ucast_eq unat_of_nat
        take_bit_eq_mod word_le_nat_alt)
qed

lemma read_head:
  assumes "take_bit 3 m = (m :: u8)" and "v < 2 ^ 64"
    and "length pre + length (encode_head m v) < 2 ^ 64" and "input = pre @ encode_head m v @ post"
  shows "drop_bit 5 (input ! length pre) = m"
    and "read_argument input (Suc (length pre)) (input ! length pre AND 31)
      = Some (word_of_nat v, length pre + length (encode_head m v))"
proof -
  obtain x bs where hd: "encode_head m v = (push_bit 5 m OR x) # bs" and x: "take_bit 5 x = x"
    and arg: "x \<le> 23 \<and> bs = [] \<and> x = word_of_nat v \<and> v < 24
      \<or> (x, length bs) \<in> {(24, 1), (25, 2), (26, 4), (27, 8)} \<and> bs = be_enc (length bs) v
         \<and> v < 256 ^ length bs"
    using that small_info [of v] assms(2)
    by (force simp: encode_head_def Let_def split: if_splits)
  have byte: "input ! length pre = push_bit 5 m OR x"
    by (simp add: assms(4) hd nth_append)
  show "drop_bit 5 (input ! length pre) = m"
    by (simp only: byte head_byte [OF assms(1) x])
  have info: "input ! length pre AND 31 = x"
    by (simp only: byte head_byte [OF assms(1) x])
  show "read_argument input (Suc (length pre)) (input ! length pre AND 31)
      = Some (word_of_nat v, length pre + length (encode_head m v))"
    using arg
  proof
    assume "x \<le> 23 \<and> bs = [] \<and> x = word_of_nat v \<and> v < 24"
    then show ?thesis
      by (simp add: info read_argument_def hd small_info)
  next
    assume a: "(x, length bs) \<in> {(24, 1), (25, 2), (26, 4), (27, 8)} \<and> bs = be_enc (length bs) v
         \<and> v < 256 ^ length bs"
    have "read_uint input (Suc (length pre)) (length bs)
      = Some (word_of_nat (be_dec bs), Suc (length pre) + length bs)"
      using read_uint_at [of "pre @ [push_bit 5 m OR x]" bs input post] assms(3,4) by (simp add: hd)
    moreover have "be_dec bs = v"
      using a by (metis be_dec_enc mod_less)
    ultimately show ?thesis
      using a by (auto simp: info read_argument_def hd)
  qed
qed

lemma encode_nonempty [simp]: "encode_cbor v \<noteq> []"
  by (cases v) (auto simp: encode_head_def Let_def)

lemma length_le_concat: "\<forall>x\<in>set xs. f x \<noteq> [] \<Longrightarrow> length xs \<le> length (concat (map f xs))"
proof (induction xs)
  case (Cons x xs)
  then obtain y ys where "f x = y # ys" by (cases "f x") auto
  with Cons show ?case by simp
qed simp

text \<open>\<open>reads_back v\<close>: wherever the encoding of \<open>v\<close> stands and whatever follows it, the reader gives
  \<open>v\<close> and stops right after it.\<close>

definition reads_back :: "cbor \<Rightarrow> bool" where
  "reads_back v \<longleftrightarrow> (\<forall>pre post depth. depth + cbor_depth v \<le> 9
     \<longrightarrow> length pre + length (encode_cbor v) < 2 ^ 64
     \<longrightarrow> decode_cbor (pre @ encode_cbor v @ post) (length pre) depth
        = Some (v, length pre + length (encode_cbor v)))"

lemma reads_backD:
  "reads_back v \<Longrightarrow> depth + cbor_depth v \<le> 9 \<Longrightarrow> length pre + length (encode_cbor v) < 2 ^ 64
    \<Longrightarrow> input = pre @ encode_cbor v @ post \<Longrightarrow> offset = length pre
    \<Longrightarrow> decode_cbor input offset depth = Some (v, offset + length (encode_cbor v))"
  by (simp add: reads_back_def)

lemma decode_items_back:
  assumes "\<forall>v\<in>set vs. reads_back v \<and> depth + cbor_depth v \<le> 9"
    and "length pre + length (concat (map encode_cbor vs)) < 2 ^ 64"
  shows "decode_items (length vs) (pre @ concat (map encode_cbor vs) @ post) (length pre) depth
    = Some (vs, length pre + length (concat (map encode_cbor vs)))"
  using assms
proof (induction vs arbitrary: pre)
  case Nil
  then show ?case by (simp add: decode_items.simps)
next
  case (Cons v vs)
  have "decode_cbor (pre @ concat (map encode_cbor (v # vs)) @ post) (length pre) depth
      = Some (v, length pre + length (encode_cbor v))"
    using Cons.prems
    by (intro reads_backD [where pre = pre and post = "concat (map encode_cbor vs) @ post"]) auto
  then show ?case
    using Cons.IH [of "pre @ encode_cbor v"] Cons.prems
    by (subst decode_items.simps) (simp add: add.assoc)
qed

lemma decode_pairs_back:
  assumes "\<forall>(k, v)\<in>set kvs. reads_back k \<and> reads_back v
      \<and> depth + cbor_depth k \<le> 9 \<and> depth + cbor_depth v \<le> 9"
    and "length pre + length (concat (map (\<lambda>(k, v). encode_cbor k @ encode_cbor v) kvs)) < 2 ^ 64"
  shows "decode_pairs (length kvs)
      (pre @ concat (map (\<lambda>(k, v). encode_cbor k @ encode_cbor v) kvs) @ post) (length pre) depth
    = Some (kvs, length pre + length (concat (map (\<lambda>(k, v). encode_cbor k @ encode_cbor v) kvs)))"
  using assms
proof (induction kvs arbitrary: pre)
  case Nil
  then show ?case by (simp add: decode_pairs.simps)
next
  case (Cons kv kvs)
  obtain k v where kv: "kv = (k, v)" by (cases kv)
  let ?input = "pre @ concat (map (\<lambda>(k, v). encode_cbor k @ encode_cbor v) (kv # kvs)) @ post"
  have "decode_cbor ?input (length pre) depth = Some (k, length pre + length (encode_cbor k))"
    using Cons.prems
    by (intro reads_backD [where pre = pre and post = "encode_cbor v
          @ concat (map (\<lambda>(k, v). encode_cbor k @ encode_cbor v) kvs) @ post"]) (auto simp: kv)
  moreover have "decode_cbor ?input (length (pre @ encode_cbor k)) depth
      = Some (v, length (pre @ encode_cbor k) + length (encode_cbor v))"
    using Cons.prems
    by (intro reads_backD [where pre = "pre @ encode_cbor k"
          and post = "concat (map (\<lambda>(k, v). encode_cbor k @ encode_cbor v) kvs) @ post"])
       (auto simp: kv)
  ultimately show ?case
    using Cons.IH [of "pre @ encode_cbor k @ encode_cbor v"] Cons.prems
    by (subst decode_pairs.simps) (simp add: kv add.assoc)
qed

lemma decode_at_head:
  assumes "take_bit 3 m = (m :: u8)" and "m \<noteq> 7" and "v < 2 ^ 64" and "depth \<le> 8"
    and "length pre + length (encode_head m v) < 2 ^ 64" and "input = pre @ encode_head m v @ post"
    and "off = length pre + length (encode_head m v)"
  shows "decode_cbor input (length pre) depth =
    (if m = 0 then if v < 2 ^ 63 then Some (CInteger (int v), off) else None
     else if m = 1 then if v < 2 ^ 63 then Some (CInteger (-1 - int v), off) else None
     else if m = 2 then map_option (\<lambda>(bs, off2). (CBytes bs, off2)) (read_string input off (word_of_nat v))
     else if m = 3 then (case read_string input off (word_of_nat v) of None \<Rightarrow> None
       | Some (bs, off2) \<Rightarrow> if utf8_valid bs then Some (CText bs, off2) else None)
     else if m = 4 then map_option (\<lambda>(vs, off2). (CArray vs, off2)) (decode_items v input off (depth + 1))
     else if m = 5 then map_option (\<lambda>(kvs, off2). (CMap kvs, off2)) (decode_pairs v input off (depth + 1))
     else if m = 6 then decode_cbor input off (depth + 1) else None)"
proof -
  have "encode_head m v \<noteq> []"
    by (simp add: encode_head_def Let_def)
  then have inside: "\<not> (8 < depth \<or> length input \<le> length pre)"
    using assms(4,6) by (cases "encode_head m v") auto
  have v: "unat (word_of_nat v :: u64) = v" "uint (word_of_nat v :: u64) = int v"
    using assms(3) by (simp_all add: unat_of_nat uint_nat)
  show ?thesis
    using inside read_head [OF assms(1,3,5,6)] assms(2)
    by (simp add: decode_cbor.simps [of input "length pre" depth] Let_def v assms(7))
qed

lemma decode_leaf_back: "reads_back (CBool b)" "reads_back CNull"
  by (auto simp: reads_back_def decode_cbor.simps)

lemma decode_integer_back: "cbor_ok (CInteger i) \<Longrightarrow> reads_back (CInteger i)"
  unfolding reads_back_def
  by (auto simp: decode_at_head [OF _ _ _ _ _ refl refl])

lemma read_string_after:
  "length pre + (length h + length bs) < 2 ^ 64 \<Longrightarrow>
    read_string (pre @ h @ bs @ post) (length pre + length h) (word_of_nat (length bs))
      = Some (bs, length pre + (length h + length bs))"
  using read_string_at [of "pre @ h" bs "pre @ h @ bs @ post" post] by (simp add: add.assoc)

lemma decode_string_back:
  "reads_back (CBytes bs)" "utf8_valid bs \<Longrightarrow> reads_back (CText bs)"
  unfolding reads_back_def
  by (auto simp: decode_at_head [OF _ _ _ _ _ refl refl] read_string_after)

lemma decode_array_back:
  assumes "\<forall>v\<in>set vs. reads_back v"
  shows "reads_back (CArray vs)"
  unfolding reads_back_def
proof (intro allI impI)
  fix pre post depth
  let ?h = "encode_head 4 (length vs)" and ?body = "concat (map encode_cbor vs)"
  let ?input = "pre @ encode_cbor (CArray vs) @ post"
  assume depth: "depth + cbor_depth (CArray vs) \<le> 9"
    and len: "length pre + length (encode_cbor (CArray vs)) < 2 ^ 64"
  have "foldr max (map cbor_depth vs) 0 \<le> 8 - depth"
    using depth by simp
  then have "\<forall>v\<in>set vs. reads_back v \<and> depth + 1 + cbor_depth v \<le> 9"
    using assms depth by (fastforce simp: foldr_max_le)
  then have items: "decode_items (length vs) ?input (length pre + length ?h) (depth + 1)
      = Some (vs, length pre + length (encode_cbor (CArray vs)))"
    using decode_items_back [of vs "depth + 1" "pre @ ?h" post] len by (simp add: add.assoc)
  have "length vs < 2 ^ 64"
    using length_le_concat [of vs encode_cbor] len by simp
  then show "decode_cbor ?input (length pre) depth
      = Some (CArray vs, length pre + length (encode_cbor (CArray vs)))"
    using len depth items
    by (subst decode_at_head [where m = 4 and v = "length vs" and post = "?body @ post", OF _ _ _ _ _ _ refl])
       auto
qed

lemma decode_map_back:
  assumes "\<forall>(k, v)\<in>set kvs. reads_back k \<and> reads_back v"
  shows "reads_back (CMap kvs)"
  unfolding reads_back_def
proof (intro allI impI)
  fix pre post depth
  let ?h = "encode_head 5 (length kvs)"
  let ?body = "concat (map (\<lambda>(k, v). encode_cbor k @ encode_cbor v) kvs)"
  let ?input = "pre @ encode_cbor (CMap kvs) @ post"
  assume depth: "depth + cbor_depth (CMap kvs) \<le> 9"
    and len: "length pre + length (encode_cbor (CMap kvs)) < 2 ^ 64"
  have "foldr max (map (\<lambda>(k, v). max (cbor_depth k) (cbor_depth v)) kvs) 0 \<le> 8 - depth"
    using depth by simp
  then have "\<forall>(k, v)\<in>set kvs. reads_back k \<and> reads_back v
      \<and> depth + 1 + cbor_depth k \<le> 9 \<and> depth + 1 + cbor_depth v \<le> 9"
    using assms depth by (fastforce simp: foldr_max_le)
  then have pairs: "decode_pairs (length kvs) ?input (length pre + length ?h) (depth + 1)
      = Some (kvs, length pre + length (encode_cbor (CMap kvs)))"
    using decode_pairs_back [of kvs "depth + 1" "pre @ ?h" post] len by (simp add: add.assoc)
  have "length kvs \<le> length ?body"
    by (rule length_le_concat) auto
  with len have "length kvs < 2 ^ 64"
    by simp
  then show "decode_cbor ?input (length pre) depth
      = Some (CMap kvs, length pre + length (encode_cbor (CMap kvs)))"
    using len depth pairs
    by (subst decode_at_head [where m = 5 and v = "length kvs" and post = "?body @ post", OF _ _ _ _ _ _ refl])
       auto
qed

lemma encoded_reads_back: "cbor_ok v \<Longrightarrow> reads_back v"
proof (induction v rule: cbor_ok.induct)
  case (1 i)
  then show ?case by (rule decode_integer_back)
next
  case (2 bs)
  then show ?case by (simp add: decode_string_back)
next
  case (3 vs)
  then show ?case by (intro decode_array_back) (simp add: list_all_iff)
next
  case (4 kvs)
  then show ?case by (intro decode_map_back) (fastforce simp: list_all_iff)
qed (simp_all add: decode_string_back decode_leaf_back)

lemma silent_option_ex: "list_ex silent_option options \<longleftrightarrow> (CText up_key, CBool False) \<in> set options"
  by (force simp: list_ex_iff silent_option_def)

lemma silent_entry_iff:
  "silent_entry (k, v) \<longleftrightarrow> k = CInteger 5
    \<and> (\<exists>options. v = CMap options \<and> (CText up_key, CBool False) \<in> set options)"
  by (cases v) (auto simp: silent_entry_def silent_option_ex)

section \<open>Properties\<close>

text \<open>C40: whatever bytes a request holds, a value the reader returns ends strictly after where it
  started and inside the buffer, was built from no more nodes and string bytes than the bytes
  read (a declared length cannot inflate it), is nested at most nine levels deep from the top,
  and holds only 64-bit integers and well-formed text.\<close>

theorem decode_cbor_bounded:
  assumes "decode_cbor input offset depth = Some (v, off)"
  shows "offset < off \<and> off \<le> length input \<and> cbor_cost v \<le> off - offset
    \<and> depth + cbor_depth v \<le> 9 \<and> cbor_ok v"
proof -
  have "0 < cbor_cost v" by (cases v) auto
  with decode_bounds(1) [OF assms] show ?thesis
    by (auto simp: read_span_def)
qed

theorem decode_cbor_bounded_witness:
  "decode_cbor [0x82, 0x01, 0x41, 0xFF] 0 0 = Some (CArray [CInteger 1, CBytes [0xFF]], 4)
    \<and> cbor_cost (CArray [CInteger 1, CBytes [0xFF]]) \<le> 4"
proof -
  have run: "decode_cbor [0x82, 0x01, 0x41, 0xFF] 0 0 = Some (CArray [CInteger 1, CBytes [0xFF]], 4)"
    by code_simp
  show ?thesis
    using run decode_cbor_bounded [OF run] by simp
qed

text \<open>C35: reading is the inverse of the definite-length encoding: a value of the Rust type, nested
  at most nine levels, is read back exactly, from any position of a buffer and whatever follows
  it, and the offset ends right after it.\<close>

theorem decode_encode_cbor:
  assumes "cbor_ok v" and "depth + cbor_depth v \<le> 9"
    and "length pre + length (encode_cbor v) < 2 ^ 64"
  shows "decode_cbor (pre @ encode_cbor v @ post) (length pre) depth
    = Some (v, length pre + length (encode_cbor v))"
  by (rule reads_backD [OF encoded_reads_back [OF assms(1)] assms(2,3) refl refl])

theorem decode_encode_cbor_witness:
  "decode_cbor ([0x02] @ encode_cbor (CMap [(CInteger 5, CText up_key), (CInteger (-300), CNull)]) @ [7]) 1 0
    = Some (CMap [(CInteger 5, CText up_key), (CInteger (-300), CNull)], 10)"
proof -
  let ?v = "CMap [(CInteger 5, CText up_key), (CInteger (-300), CNull)]"
  have "cbor_ok ?v" "0 + cbor_depth ?v \<le> 9" and len: "length (encode_cbor ?v) = 9"
    by code_simp+
  then show ?thesis
    using decode_encode_cbor [of ?v 0 "[0x02]" "[7]"] by simp
qed

text \<open>C34: the daemon takes a request for a silent probe exactly when it is a GetAssertion whose
  parameters are read as a map with, under key 5, an options map that sets "up" to false (each at any
  place in its map); every other request is not silent: another command, parameters that cannot be
  read or are no map, an option "up" that is not false, options under another key.  So a
  GetAssertion that encodes such a map is silent whatever follows it, and one that encodes a map
  without that option is not.\<close>

theorem silent_iff:
  assumes "cbor_ok (CMap root)" and "cbor_depth (CMap root) \<le> 9"
    and "1 + length (encode_cbor (CMap root)) < 2 ^ 64"
  shows "(silent (command # encode_cbor (CMap root) @ trailing) \<longleftrightarrow>
      command = 0x02 \<and> (\<exists>options. (CInteger 5, CMap options) \<in> set root
        \<and> (CText up_key, CBool False) \<in> set options))
    \<and> (\<forall>data. silent data \<longleftrightarrow> (\<exists>params read off options. data = 0x02 # params
        \<and> decode_cbor data 1 0 = Some (CMap read, off)
        \<and> (CInteger 5, CMap options) \<in> set read \<and> (CText up_key, CBool False) \<in> set options))"
proof -
  have entries: "list_ex silent_entry kvs \<longleftrightarrow> (\<exists>options. (CInteger 5, CMap options) \<in> set kvs
      \<and> (CText up_key, CBool False) \<in> set options)" for kvs
    by (simp add: list_ex_iff Bex_def split_paired_Ex silent_entry_iff) blast
  have all: "silent data \<longleftrightarrow> (\<exists>params read off. data = 0x02 # params
      \<and> decode_cbor data 1 0 = Some (CMap read, off) \<and> list_ex silent_entry read)" for data
    by (cases data) (auto simp: silent_def split: option.splits cbor.splits)
  have "decode_cbor ([command] @ encode_cbor (CMap root) @ trailing) (length [command]) 0
      = Some (CMap root, length [command] + length (encode_cbor (CMap root)))"
    by (rule reads_backD [where pre = "[command]" and post = trailing, OF encoded_reads_back [OF assms(1)]])
       (use assms in simp_all)
  then have "silent (command # encode_cbor (CMap root) @ trailing)
      \<longleftrightarrow> command = 0x02 \<and> list_ex silent_entry root"
    by (cases "command = 0x02") (simp_all add: silent_def)
  with all show ?thesis
    unfolding entries by blast
qed

theorem silent_iff_witness:
  "silent (0x02 # encode_cbor (CMap [(CInteger 5, CMap [(CText up_key, CBool False)])]) @ [])"
proof -
  let ?root = "[(CInteger 5, CMap [(CText up_key, CBool False)])]"
  have "cbor_ok (CMap ?root)" "cbor_depth (CMap ?root) \<le> 9"
    "1 + length (encode_cbor (CMap ?root)) < 2 ^ 64"
    by code_simp+
  then show ?thesis
    by (rule iffD2 [OF conjunct1 [OF silent_iff]]) simp_all
qed

end
