(* ===== verification/Fan_Out.thy ===== *)
theory Fan_Out
  imports Uhid_Events Cbor "HOL-Library.Sublist"
begin

text \<open>
  Asking the devices (src/src/daemon.rs: \<open>fan_out\<close>, \<open>withdraw\<close>, \<open>request_is_current\<close>).  The thread
  of a request runs beside the threads of the kernel device, of the connections and of other
  requests.  An \<open>env_event\<close> is one atomic step of another thread: what it does under one lock, or one
  operation on an atomic, a channel or a file.  The thread itself is cut at every such step too; what
  the others do in the gaps is a schedule, one \<open>tick\<close> per turn of its loop.  A loop that has not
  ended when the schedule does is \<open>None\<close>.
\<close>

section \<open>The other threads\<close>

text \<open>Connections: an answer or a pong is read, \<open>alive\<close> is swapped, a stream is shut down, a message is
  sent, an answer is taken, the table of links gains or loses one, the file of devices is replaced.
  The slot of requests: a request gets it (its \<open>Arc\<close> is new then), loses it to INIT, gives it back;
  its pending devices change; a partial message changes; the counters move; a winner is remembered.
  The kernel device: an event is written, the key is created, destroyed or lost.\<close>

datatype env_event =
    Arrive nat link_event
  | Dead nat
  | Shut nat
  | Sent bytes nat
  | Taken nat
  | Pushed nat
  | Dropped nat
  | Published string
  | Began u32 u32 bytes
  | Abandoned u32
  | Finished request
  | Registered request "nat list"
  | Put_Partial u32 "partial option"
  | Numbered
  | Assigned
  | Learned "string set" "string option"
  | Written uhid_event
  | Key_Made
  | Key_Gone
  | Key_Lost u64

definition take_response :: "nat \<Rightarrow> daemon \<Rightarrow> daemon" where
  "take_response i d = upd_link i (\<lambda>l. snd (try_recv l)) d"

definition set_pending :: "request \<Rightarrow> nat list \<Rightarrow> daemon \<Rightarrow> daemon" where
  "set_pending request ls d = d\<lparr>pendings := (pendings d)(rid request := ls)\<rparr>"

text \<open>The critical section of \<open>dispatch\<close> on a new request, and that of \<open>cancel\<close> with \<open>abandon\<close>.\<close>

definition begin_request :: "u32 \<Rightarrow> u32 \<Rightarrow> bytes \<Rightarrow> daemon \<Rightarrow> daemon" where
  "begin_request channel number data d =
     (let request = \<lparr>rchannel = channel, rnumber = number, rid = next_rid d\<rparr>;
          d1 = d\<lparr>next_rid := next_rid d + 1, pendings := (pendings d)(next_rid d := [])\<rparr>
      in if busy d1 \<noteq> None then d1
         else d1\<lparr>busy := Some request, spawned := spawned d1 @ [(request, data)]\<rparr>)"

definition abandon_request :: "u32 \<Rightarrow> daemon \<Rightarrow> daemon" where
  "abandon_request channel d =
     (case busy d of
        None \<Rightarrow> d
      | Some r \<Rightarrow> if rchannel r = channel then d\<lparr>busy := None\<rparr> else d)"

definition lose_key :: "u64 \<Rightarrow> daemon \<Rightarrow> daemon" where
  "lose_key g d = (if generation d = g then d\<lparr>uhid_file := False, generation := 0\<rparr> else d)"

fun env_step :: "env_event \<Rightarrow> daemon \<Rightarrow> daemon" where
  "env_step (Arrive i event) d = upd_link i (link_event event) d"
| "env_step (Dead i) d = upd_link i (\<lambda>l. l\<lparr>lalive := False\<rparr>) d"
| "env_step (Shut i) d = upd_link i (\<lambda>l. l\<lparr>lup := False\<rparr>) d"
| "env_step (Sent body i) d = send_to body i d"
| "env_step (Taken i) d = take_response i d"
| "env_step (Pushed i) d = d\<lparr>links := links d @ [i]\<rparr>"
| "env_step (Dropped i) d = d\<lparr>links := filter (\<lambda>j. j \<noteq> i) (links d)\<rparr>"
| "env_step (Published text) d = (if can_write_state d then d\<lparr>devices_file := text\<rparr> else d)"
| "env_step (Began channel number data) d = begin_request channel number data d"
| "env_step (Abandoned channel) d = abandon_request channel d"
| "env_step (Finished request) d = finish_request request d"
| "env_step (Registered request ls) d = set_pending request ls d"
| "env_step (Put_Partial channel p) d = put_partial channel p d"
| "env_step Numbered d = d\<lparr>next_request := next_request d + 1\<rparr>"
| "env_step Assigned d = d\<lparr>next_channel := next_channel d + 1\<rparr>"
| "env_step (Learned names device) d = d\<lparr>holders := names, lastdev := device\<rparr>"
| "env_step (Written event) d = write_uhid event d"
| "env_step Key_Made d = create_uhid d"
| "env_step Key_Gone d = destroy_uhid d"
| "env_step (Key_Lost g) d = lose_key g d"

definition run_env :: "env_event list \<Rightarrow> daemon \<Rightarrow> daemon" where
  "run_env events d = fold env_step events d"

text \<open>A tick has the events before the turn, whether the deadline has passed, whether a keep-alive is due,
  the events before each link's step (a look into its queue; a send, in the tick that starts
  \<open>fan_out\<close>; a cancellation, in the one that ends it), those after the links, and those after all.\<close>

record tick =
  before :: "env_event list"
  expired :: bool
  due :: bool
  during :: "nat \<Rightarrow> env_event list"
  ending :: "env_event list"
  leaving :: "env_event list"

section \<open>One request to many devices\<close>

abbreviation (input) OPERATION_DENIED :: u8 where "OPERATION_DENIED \<equiv> 0x27"

text \<open>The local state of \<open>fan_out\<close> and the daemon beside it.\<close>

record fan =
  waiting :: "nat list"
  wins :: "(nat \<times> bytes) list"
  errors :: "bytes list"
  finished :: bool
  heard :: bool
  world :: daemon

text \<open>The first loop of \<open>fan_out\<close>: the devices the message reached.\<close>

fun send_targets :: "(nat \<Rightarrow> env_event list) \<Rightarrow> bytes \<Rightarrow> nat list \<Rightarrow> daemon \<Rightarrow> nat list \<times> daemon" where
  "send_targets gaps body [] d = ([], d)"
| "send_targets gaps body (i # targets) d =
     (let d0 = run_env (gaps i) d;
          ok = fst (send body (heap d0 i));
          (pending, d1) = send_targets gaps body targets (send_to body i d0)
      in (if ok then i # pending else pending, d1))"

lemma send_targets_Cons [simp]:
  "fst (send_targets gaps body (i # targets) d)
     = (if fst (send body (heap (run_env (gaps i) d) i)) then [i] else [])
       @ fst (send_targets gaps body targets (send_to body i (run_env (gaps i) d)))"
  "snd (send_targets gaps body (i # targets) d)
     = snd (send_targets gaps body targets (send_to body i (run_env (gaps i) d)))"
  by (simp_all add: Let_def split: prod.splits)

declare send_targets.simps(2) [simp del]

text \<open>The body of \<open>for link in pending.clone()\<close>.\<close>

definition poll_link :: "request \<Rightarrow> bool \<Rightarrow> nat \<Rightarrow> fan \<Rightarrow> fan" where
  "poll_link request wait_all link f =
     (case fst (try_recv (heap (world f) link)) of
        None \<Rightarrow> f
      | Some (number, payload) \<Rightarrow>
          let f1 = f\<lparr>heard := True, world := take_response link (world f)\<rparr>;
              f2 = f1\<lparr>waiting := filter (\<lambda>candidate. candidate \<noteq> link) (waiting f1)\<rparr>
          in if number = 0 \<and> payload = [] then f2\<lparr>errors := errors f2 @ [[CTAP2_ERR_OTHER]]\<rparr>
             else if number \<noteq> rnumber request then f1
             else if payload = [] then f2\<lparr>errors := errors f2 @ [[CTAP2_ERR_OTHER]]\<rparr>
             else if hd payload = 0
               then f2\<lparr>wins := wins f2 @ [(link, payload)], finished := \<not> wait_all\<rparr>
             else f2\<lparr>finished := hd payload = OPERATION_DENIED \<and> \<not> wait_all,
                     errors := errors f2 @ [payload]\<rparr>)"

fun poll :: "request \<Rightarrow> bool \<Rightarrow> (nat \<Rightarrow> env_event list) \<Rightarrow> nat list \<Rightarrow> fan \<Rightarrow> fan" where
  "poll request wait_all gaps [] f = f"
| "poll request wait_all gaps (link # ls) f =
     (let f1 = poll_link request wait_all link (f\<lparr>world := run_env (gaps link) (world f)\<rparr>)
      in if finished f1 then f1 else poll request wait_all gaps ls f1)"

definition keep_alive :: "request \<Rightarrow> bool \<Rightarrow> fan \<Rightarrow> fan" where
  "keep_alive request beat f =
     (if \<not> heard f \<and> beat then f\<lparr>world := reply (rchannel request) KEEPALIVE [2] (world f)\<rparr> else f)"

text \<open>The loop, with the tick in which it ends and those that are left.\<close>

fun fan_loop :: "request \<Rightarrow> bool \<Rightarrow> tick list \<Rightarrow> fan \<Rightarrow> (fan \<times> tick \<times> tick list) option" where
  "fan_loop request wait_all [] f = None"
| "fan_loop request wait_all (t # ts) f =
     (let f1 = f\<lparr>world := run_env (before t) (world f)\<rparr> in
      if waiting f1 \<noteq> [] \<and> \<not> finished f1 \<and> \<not> expired t \<and> request_is_current request (world f1)
      then
        let f2 = poll request wait_all (during t) (waiting f1) (f1\<lparr>heard := False\<rparr>)
        in fan_loop request wait_all ts
             (keep_alive request (due t) (f2\<lparr>world := run_env (ending t) (world f2)\<rparr>))
      else Some (f1, t, ts))"

text \<open>The whole of \<open>fan_out\<close>; the first tick has the pauses before the sends and the one before the
  devices are registered as pending.\<close>

definition fan_start :: "request \<Rightarrow> nat list \<Rightarrow> bytes \<Rightarrow> tick \<Rightarrow> daemon \<Rightarrow> fan" where
  "fan_start request targets data pause d =
     (let (pending, d1) = send_targets (during pause) (request_message (rnumber request) data) targets d
      in \<lparr>waiting = pending, wins = [], errors = [], finished = False, heard = False,
          world = set_pending request pending (run_env (before pause) d1)\<rparr>)"

fun withdraw_each :: "(nat \<Rightarrow> env_event list) \<Rightarrow> request \<Rightarrow> nat list \<Rightarrow> daemon \<Rightarrow> daemon" where
  "withdraw_each gaps request [] d = d"
| "withdraw_each gaps request (i # ls) d =
     withdraw_each gaps request ls (send_to (cancel_message (rnumber request)) i (run_env (gaps i) d))"

definition fan_end :: "request \<Rightarrow> tick \<Rightarrow> fan \<Rightarrow> daemon" where
  "fan_end request t f =
     run_env (leaving t) (withdraw_each (during t) request (waiting f)
       (set_pending request [] (run_env (ending t) (world f))))"

fun fan_out :: "request \<Rightarrow> nat list \<Rightarrow> bytes \<Rightarrow> bool \<Rightarrow> tick list \<Rightarrow> daemon
    \<Rightarrow> ((nat \<times> bytes) list \<times> bytes list \<times> tick list \<times> daemon) option" where
  "fan_out request targets data wait_all [] d = None"
| "fan_out request targets data wait_all (pause # ts) d =
     (case fan_loop request wait_all ts (fan_start request targets data pause d) of
        None \<Rightarrow> None
      | Some (f, t, rest) \<Rightarrow> Some (wins f, errors f, rest, fan_end request t f))"

section \<open>What steps leave alone\<close>

text \<open>A link without its outgoing stream: what messages to it do not change.\<close>

definition quiet_link :: "link \<Rightarrow> link" where
  "quiet_link l = l\<lparr>lsent := []\<rparr>"

lemma quiet_linkD:
  assumes "quiet_link l = quiet_link l'"
  shows "lresponses l = lresponses l'" and "ldevice l = ldevice l'" and "lalive l = lalive l'"
    and "lpriority l = lpriority l'" and "lup l = lup l'" and "llabel l = llabel l'"
  using assms by (cases l; cases l'; simp add: quiet_link_def)+

lemma quiet_send [simp]: "quiet_link (snd (send body l)) = quiet_link l"
  by (simp add: send_def quiet_link_def)

lemma quiet_send_to [simp]: "quiet_link (heap (send_to body i d) j) = quiet_link (heap d j)"
  by (simp add: send_to_def upd_link_def)

lemma quiet_fold_send_to [simp]:
  "quiet_link (heap (fold (send_to body) ls d) j) = quiet_link (heap d j)"
  by (induction ls arbitrary: d) simp_all

lemma quiet_cancel [simp]: "quiet_link (heap (cancel c a d) j) = quiet_link (heap d j)"
  by (simp add: cancel_def withdraw_def Let_def split: option.splits)

lemma quiet_packet [simp]: "quiet_link (heap (packet pkt d) j) = quiet_link (heap d j)"
  by (cases rule: packet_cases [of pkt d]) auto

lemma write_uhid_fields [simp, daemon_frame]:
  "heap (write_uhid e d) = heap d" "busy (write_uhid e d) = busy d"
  "next_rid (write_uhid e d) = next_rid d" "partials (write_uhid e d) = partials d"
  by (simp_all add: write_uhid_def)

lemma quiet_on_uhid_event [simp]: "quiet_link (heap (on_uhid_event got event d) j) = quiet_link (heap d j)"
  by (simp add: on_uhid_event_def Let_def)

lemma sync_uhid_fields [daemon_frame]:
  "quiet_link (heap (sync_uhid d) j) = quiet_link (heap d j)"
  "busy (sync_uhid d) = busy d" "next_rid (sync_uhid d) = next_rid d"
  "partials (sync_uhid d) = partials d" "links (sync_uhid d) = links d"
  by (simp_all add: sync_uhid_def destroy_uhid_def create_uhid_def busy_cancel split: option.splits)

lemma publish_fields [simp, daemon_frame]:
  "heap (publish d) = heap d" "busy (publish d) = busy d" "next_rid (publish d) = next_rid d"
  "partials (publish d) = partials d" "links (publish d) = links d"
  by (simp_all add: publish_def)

text \<open>What a step of another thread does to the queue of a link.\<close>

lemma env_step_responses:
  "lresponses (heap (env_step e d) i) =
     (case e of
        Arrive j (Response n p) \<Rightarrow> lresponses (heap d i) @ (if i = j then [(n, p)] else [])
      | Taken j \<Rightarrow> (if i = j then tl (lresponses (heap d i)) else lresponses (heap d i))
      | _ \<Rightarrow> lresponses (heap d i))"
proof (cases e)
  case (Arrive j event)
  then show ?thesis by (cases event) (simp_all add: upd_link_def)
next
  case (Sent body j)
  then show ?thesis by (simp add: quiet_linkD(1) [OF quiet_send_to])
next
  case (Taken j)
  then show ?thesis
    by (simp add: take_response_def upd_link_def try_recv_def split: list.splits)
qed (auto simp: upd_link_def begin_request_def abandon_request_def set_pending_def finish_request_def
       put_partial_def create_uhid_def destroy_uhid_def lose_key_def Let_def split: option.splits)

section \<open>The operations of the other threads are made of these steps\<close>

definition steps :: "daemon \<Rightarrow> daemon \<Rightarrow> bool" where
  "steps d e \<longleftrightarrow> (\<exists>es. e = run_env es d)"

lemma steps_refl [simp]: "steps d d"
  unfolding steps_def by (rule exI [of _ "[]"]) (simp add: run_env_def)

lemma steps_one: "steps d (env_step e d)"
  unfolding steps_def by (rule exI [of _ "[e]"]) (simp add: run_env_def)

lemma steps_trans: "steps d e \<Longrightarrow> steps e f \<Longrightarrow> steps d f"
proof -
  assume "steps d e" "steps e f"
  then obtain es fs where "e = run_env es d" "f = run_env fs e" by (auto simp: steps_def)
  then have "f = run_env (es @ fs) d" by (simp add: run_env_def)
  then show ?thesis unfolding steps_def by blast
qed

lemma steps_fold: "(\<And>x d. steps d (f x d)) \<Longrightarrow> steps d (fold f xs d)"
proof (induction xs arbitrary: d)
  case (Cons x xs)
  then have "steps d (f x d)" "steps (f x d) (fold f xs (f x d))" by blast+
  then show ?case using steps_trans by simp
qed simp

lemmas step_by = steps_one [where e = "Written _", simplified] steps_one [where e = "Sent _ _", simplified]

lemma steps_report: "steps d (send_report p d)"
  unfolding send_report_def by (rule step_by)

lemma steps_reply: "steps d (reply c cmd x d)"
  unfolding reply_def by (rule steps_fold) (rule steps_report)

lemma steps_error: "steps d (hid_error c code d)"
  unfolding hid_error_def by (rule steps_reply)

lemma steps_withdraw: "steps d (withdraw q ls d)"
  unfolding withdraw_def by (rule steps_fold) (rule step_by)

lemma steps_cancel: "steps d (cancel c abandon d)"
proof (cases "busy d")
  case (Some q)
  let ?d = "if abandon \<and> Some (rchannel q) = c then d\<lparr>busy := None\<rparr> else d"
  have d: "steps d ?d"
    using steps_one [of d "Abandoned (rchannel q)"] Some by (simp add: abandon_request_def)
  have w: "steps d (withdraw q (pendings ?d (rid q)) ?d)"
    by (rule steps_trans [OF d steps_withdraw])
  have e: "cancel c abandon d = (if c = None \<or> c = Some (rchannel q) then withdraw q (pendings ?d (rid q)) ?d else ?d)"
    using Some by (simp add: cancel_def Let_def split: option.splits)
  show ?thesis unfolding e using d w by (simp only: split: if_split) blast
qed (simp add: cancel_def)

lemma steps_put: "steps d (put_partial c p d)"
  using steps_one [of d "Put_Partial c p"] by simp

lemma steps_assign: "steps d (d\<lparr>next_channel := snd (assign_channel (next_channel d))\<rparr>)"
proof -
  have "steps d (d\<lparr>next_channel := snd (assign_channel c)\<rparr>)" if "next_channel d = c" for c d
    using that
  proof (induction c arbitrary: d rule: assign_channel.induct)
    case (1 c)
    have one: "steps d (d\<lparr>next_channel := c + 1\<rparr>)"
      using steps_one [of d Assigned] 1(2) by simp
    show ?case
    proof (cases "c \<noteq> 0 \<and> c \<noteq> BROADCAST")
      case True
      then show ?thesis using one by (subst assign_channel.simps) simp
    next
      case False
      have "steps (d\<lparr>next_channel := c + 1\<rparr>)
          (d\<lparr>next_channel := c + 1, next_channel := snd (assign_channel (c + 1))\<rparr>)"
        by (rule "1.IH" [OF False]) simp
      then have "steps d (d\<lparr>next_channel := snd (assign_channel (c + 1))\<rparr>)"
        using steps_trans [OF one] by simp
      then show ?thesis using False by (subst assign_channel.simps) auto
    qed
  qed
  then show ?thesis by blast
qed

lemma steps_dispatch: "steps d (dispatch c cmd x d)"
proof -
  have init: "steps d (reply c INIT x' (d\<lparr>next_channel := snd (assign_channel (next_channel d))\<rparr>))" for c x'
    using steps_trans [OF steps_assign steps_reply] .
  let ?n = "d\<lparr>next_request := next_request d + 1\<rparr>"
  let ?b = "begin_request c (next_request d) x ?n"
  have "steps d ?n" using steps_one [of d Numbered] by simp
  moreover have "steps ?n ?b" using steps_one [of ?n "Began c (next_request d) x"] by simp
  ultimately have b: "steps d ?b" by (rule steps_trans)
  have e: "steps d (hid_error c ERR_CHANNEL_BUSY ?b)" using steps_trans [OF b steps_error] .
  show ?thesis
  proof (cases "cmd = INIT")
    case True
    then show ?thesis
      by (cases "length x = 8"; cases "c = BROADCAST")
        (simp_all add: dispatch_def Let_def split_def init steps_reply steps_error)
  next
    case no_init: False
    show ?thesis
    proof (cases "c \<noteq> 0 \<and> c \<noteq> BROADCAST \<and> cmd = CBOR \<and> x \<noteq> [] \<and> live_links d \<noteq> []")
      case True
      then have "dispatch c cmd x d = (if busy d \<noteq> None then hid_error c ERR_CHANNEL_BUSY ?b else ?b)"
        by (auto simp: dispatch_def begin_request_def Let_def)
      then show ?thesis using b e by simp
    next
      case False
      then show ?thesis using no_init by (auto simp: dispatch_def steps_reply steps_error)
    qed
  qed
qed

lemma steps_complete: "steps d (complete c d)"
  using steps_trans [OF steps_put steps_dispatch] by (simp add: complete_def split: option.split)

lemma steps_packet: "steps d (packet pkt d)"
proof -
  have "steps d (complete c (put_partial c p d))" for c p
    by (rule steps_trans [OF steps_put steps_complete])
  moreover have "steps d (hid_error c x (put_partial c p d))" for c p x
    by (rule steps_trans [OF steps_put steps_error])
  moreover have "steps d (complete c (put_partial c p (cancel (Some c) True (put_partial c None d))))" for c p
    by (meson steps_trans steps_put steps_cancel steps_complete)
  ultimately show ?thesis
    using steps_cancel [of d] steps_error [of d]
    by (simp add: packet_def Let_def split: option.split)
qed

lemma steps_on_uhid_event: "steps d (on_uhid_event got event d)"
  using steps_packet steps_cancel step_by(1) by (simp add: on_uhid_event_def Let_def)

lemma steps_sync_uhid: "steps d (sync_uhid d)"
proof -
  have "steps (cancel None False d) (destroy_uhid (cancel None False d))"
    using steps_one [of _ Key_Gone] by simp
  then show ?thesis
    using steps_trans [OF steps_cancel] steps_one [of d Key_Made] by (simp add: sync_uhid_def)
qed

lemma steps_publish: "steps d (publish d)"
  using steps_one [of d "Published (publish_text d)"] by (simp add: publish_def)

lemma steps_connection:
  "steps d (upd_link i close d)" "steps d (add cloned i d)" "steps d (remove i d)" "steps d (uhid_lost g d)"
proof -
  have c: "upd_link i close d = (if lalive (heap d i)
      then env_step (Arrive i (Response 0 [])) (env_step (Shut i) (env_step (Dead i) d)) else d)"
    by (simp add: upd_link_def close_def)
  show "steps d (upd_link i close d)"
    unfolding c using steps_trans [OF steps_trans [OF steps_one steps_one] steps_one] steps_refl
    by (simp only: split: if_split) simp
  note table = steps_one [of d "Pushed i"] steps_one [of d "Dropped i"] steps_one [of d "Key_Lost g"]
  have s: "steps e (sync_uhid (publish e))" for e
    by (rule steps_trans [OF steps_publish steps_sync_uhid])
  show "steps d (add cloned i d)" "steps d (remove i d)" "steps d (uhid_lost g d)"
    using table steps_trans [OF _ s] steps_trans [OF _ steps_sync_uhid]
    by (auto simp: add_def remove_def uhid_lost_def lose_key_def Let_def)
qed

section \<open>Invariants of the loop\<close>

definition tick_allowed :: "(env_event \<Rightarrow> bool) \<Rightarrow> tick \<Rightarrow> bool" where
  "tick_allowed allowed t \<longleftrightarrow> (\<forall>e\<in>set (before t). allowed e) \<and> (\<forall>i. \<forall>e\<in>set (during t i). allowed e)
     \<and> (\<forall>e\<in>set (ending t). allowed e) \<and> (\<forall>e\<in>set (leaving t). allowed e)"

lemma tick_allowed_True [simp]: "tick_allowed (\<lambda>_. True) t"
  by (simp add: tick_allowed_def)

text \<open>Every round asks distinct devices, so a device that is polled is still waiting.\<close>

lemma waiting_poll_link:
  "waiting (poll_link request wait_all i f) = waiting f
   \<or> waiting (poll_link request wait_all i f) = filter (\<lambda>c. c \<noteq> i) (waiting f)"
  by (auto simp: poll_link_def Let_def split: option.splits)

lemma distinct_poll_link: "distinct (waiting f) \<Longrightarrow> distinct (waiting (poll_link request wait_all i f))"
  using waiting_poll_link [of request wait_all i f] by auto

lemma poll_link_keeps_others:
  "set ls \<subseteq> set (waiting f) \<Longrightarrow> i \<notin> set ls \<Longrightarrow> set ls \<subseteq> set (waiting (poll_link request wait_all i f))"
  using waiting_poll_link [of request wait_all i f] by auto

text \<open>
  The contract of an invariant of \<open>fan_out\<close>: the steps of other threads that are allowed keep it,
  and so do looking into the queue of a waiting device, forgetting whether anything was heard and
  a keep-alive.  Then the whole loop keeps it.
\<close>

locale fan_invariant =
  fixes Q :: "fan \<Rightarrow> bool"
    and allowed :: "env_event \<Rightarrow> bool"
    and r :: request
    and wait_all :: bool
  assumes env: "allowed e \<Longrightarrow> Q f \<Longrightarrow> Q (f\<lparr>world := env_step e (world f)\<rparr>)"
    and polled: "Q f \<Longrightarrow> \<not> finished f \<Longrightarrow> i \<in> set (waiting f) \<Longrightarrow> distinct (waiting f)
      \<Longrightarrow> Q (poll_link r wait_all i f)"
    and quiet: "Q f \<Longrightarrow> Q (f\<lparr>heard := b\<rparr>)"
    and beat: "Q f \<Longrightarrow> Q (f\<lparr>world := reply (rchannel r) KEEPALIVE [2] (world f)\<rparr>)"
begin

lemma run_env_keeps:
  "\<forall>e\<in>set es. allowed e \<Longrightarrow> Q f \<Longrightarrow> Q (f\<lparr>world := run_env es (world f)\<rparr>)"
proof (induction es arbitrary: f)
  case (Cons e es)
  then have "Q (f\<lparr>world := env_step e (world f)\<rparr>)"
    by (simp add: env)
  with Cons.IH [of "f\<lparr>world := env_step e (world f)\<rparr>"] Cons.prems show ?case
    by (simp add: run_env_def)
qed (simp add: run_env_def)

lemma poll_keeps:
  "\<forall>i. \<forall>e\<in>set (gaps i). allowed e \<Longrightarrow> Q f \<Longrightarrow> \<not> finished f \<Longrightarrow> distinct ls
    \<Longrightarrow> set ls \<subseteq> set (waiting f) \<Longrightarrow> distinct (waiting f)
    \<Longrightarrow> Q (poll r wait_all gaps ls f) \<and> distinct (waiting (poll r wait_all gaps ls f))"
proof (induction ls arbitrary: f)
  case (Cons i ls)
  let ?g = "f\<lparr>world := run_env (gaps i) (world f)\<rparr>"
  let ?h = "poll_link r wait_all i ?g"
  have "Q ?g"
    using Cons.prems by (intro run_env_keeps) auto
  then have "Q ?h" "distinct (waiting ?h)" "set ls \<subseteq> set (waiting ?h)"
    using Cons.prems by (simp_all add: polled distinct_poll_link poll_link_keeps_others)
  with Cons show ?case by (simp add: Let_def)
qed simp

lemma loop_keeps:
  "\<forall>t\<in>set ts. tick_allowed allowed t \<Longrightarrow> Q f \<Longrightarrow> distinct (waiting f)
    \<Longrightarrow> fan_loop r wait_all ts f = Some (g, t, rest) \<Longrightarrow> Q g \<and> distinct (waiting g)"
proof (induction ts arbitrary: f)
  case (Cons u ts)
  let ?f = "f\<lparr>world := run_env (before u) (world f)\<rparr>"
  let ?p = "poll r wait_all (during u) (waiting ?f) (?f\<lparr>heard := False\<rparr>)"
  let ?e = "?p\<lparr>world := run_env (ending u) (world ?p)\<rparr>"
  have f: "Q ?f"
    using Cons.prems by (intro run_env_keeps) (auto simp: tick_allowed_def)
  show ?case
  proof (cases "waiting ?f \<noteq> [] \<and> \<not> finished ?f \<and> \<not> expired u \<and> request_is_current r (world ?f)")
    case True
    then have p: "Q ?p \<and> distinct (waiting ?p)"
      using Cons.prems f quiet [OF f] by (intro poll_keeps) (auto simp: tick_allowed_def)
    then have "Q ?e" using Cons.prems(1) by (intro run_env_keeps) (auto simp: tick_allowed_def)
    then have k: "Q (keep_alive r (due u) ?e)" "distinct (waiting (keep_alive r (due u) ?e))"
      using p beat [of ?e] by (simp_all add: keep_alive_def)
    have "fan_loop r wait_all ts (keep_alive r (due u) ?e) = Some (g, t, rest)"
      using True Cons.prems(4) by (simp add: Let_def)
    with Cons.IH [OF _ k] Cons.prems(1) show ?thesis by simp
  next
    case False
    with f Cons.prems show ?thesis by (auto simp: Let_def)
  qed
qed simp

end

text \<open>Invariants of the daemon alone: they hold through a whole \<open>fan_out\<close>.\<close>

locale world_invariant =
  fixes P :: "daemon \<Rightarrow> bool"
    and allowed :: "env_event \<Rightarrow> bool"
    and r :: request
  assumes env_world: "allowed e \<Longrightarrow> P d \<Longrightarrow> P (env_step e d)"
    and taken_world: "P d \<Longrightarrow> P (take_response i d)"
    and sent_world: "P d \<Longrightarrow> P (send_to body i d)"
    and replied_world: "P d \<Longrightarrow> P (reply (rchannel r) KEEPALIVE [2] d)"
    and pending_world: "P d \<Longrightarrow> P (set_pending r ls d)"
begin

lemma poll_link_world: "P (world f) \<Longrightarrow> P (world (poll_link r wait_all i f))"
  by (simp add: poll_link_def Let_def taken_world split: option.splits)

end

sublocale world_invariant \<subseteq> fan_invariant "\<lambda>f. P (world f)" allowed r wait_all for wait_all
  by unfold_locales (simp_all add: env_world replied_world poll_link_world)

context world_invariant begin

lemma run_world: "\<forall>e\<in>set es. allowed e \<Longrightarrow> P d \<Longrightarrow> P (run_env es d)"
  unfolding run_env_def by (induction es arbitrary: d) (auto simp: env_world)

lemma send_targets_world:
  "\<forall>i. \<forall>e\<in>set (gaps i). allowed e \<Longrightarrow> P d \<Longrightarrow> P (snd (send_targets gaps body targets d))"
  by (induction targets arbitrary: d) (simp_all add: sent_world run_world)

lemma withdraw_world:
  "\<forall>i. \<forall>e\<in>set (gaps i). allowed e \<Longrightarrow> P d \<Longrightarrow> P (withdraw_each gaps q ls d)"
  by (induction ls arbitrary: d) (simp_all add: sent_world run_world)

end

lemma send_targets_set: "set (fst (send_targets gaps body targets d)) \<subseteq> set targets"
  by (induction targets arbitrary: d) auto

lemma send_targets_distinct: "distinct targets \<Longrightarrow> distinct (fst (send_targets gaps body targets d))"
proof (induction targets arbitrary: d)
  case (Cons i targets)
  then show ?case
    using send_targets_set [of gaps body targets "send_to body i (run_env (gaps i) d)"] by auto
qed simp

lemma fan_start_simps [simp]:
  "waiting (fan_start r targets data pause d)
    = fst (send_targets (during pause) (request_message (rnumber r) data) targets d)"
  "wins (fan_start r targets data pause d) = []" "errors (fan_start r targets data pause d) = []"
  "finished (fan_start r targets data pause d) = False"
  "world (fan_start r targets data pause d)
    = set_pending r (fst (send_targets (during pause) (request_message (rnumber r) data) targets d))
        (run_env (before pause) (snd (send_targets (during pause) (request_message (rnumber r) data) targets d)))"
  by (simp_all add: fan_start_def split_def Let_def)

lemma waiting_fan_start:
  "distinct targets \<Longrightarrow> distinct (waiting (fan_start r targets data pause d))
    \<and> set (waiting (fan_start r targets data pause d)) \<subseteq> set targets"
  by (simp add: send_targets_distinct send_targets_set)

lemma fan_loop_rest: "fan_loop r wait_all ts f = Some (g, t, rest) \<Longrightarrow> set (t # rest) \<subseteq> set ts"
  by (induction ts arbitrary: f) (auto simp: Let_def split: if_splits dest!: meta_spec)

lemma fan_out_rest: "fan_out r targets data wait_all ts d = Some (ws, es, rest, d') \<Longrightarrow> set rest \<subseteq> set ts"
  by (cases ts) (auto split: option.splits prod.splits dest!: fan_loop_rest)

text \<open>How \<open>fan_out\<close> ends, in terms of the state of its loop.\<close>

lemma fan_outE:
  assumes "fan_out r targets data wait_all ts d = Some (ws, es, rest, d')"
  obtains pause ts' f t where "ts = pause # ts'"
    "fan_loop r wait_all ts' (fan_start r targets data pause d) = Some (f, t, rest)"
    "ws = wins f" "es = errors f" "d' = fan_end r t f"
  using assms by (cases ts) (auto split: option.splits prod.splits)

context world_invariant begin

lemma fan_start_world:
  "tick_allowed allowed pause \<Longrightarrow> P d \<Longrightarrow> P (world (fan_start r targets data pause d))"
  by (simp add: tick_allowed_def run_world pending_world send_targets_world)

lemma fan_end_world: "tick_allowed allowed t \<Longrightarrow> P (world f) \<Longrightarrow> P (fan_end r t f)"
  by (simp add: fan_end_def tick_allowed_def run_world pending_world withdraw_world)

lemma fan_out_world:
  assumes "fan_out r targets data wait_all ts d = Some (ws, es, rest, d')"
    and "\<forall>t\<in>set ts. tick_allowed allowed t" and "distinct targets" and "P d"
  shows "P d'"
  using assms(1)
proof (cases rule: fan_outE)
  case (1 pause ts' f t)
  have "t \<in> set ts'" using fan_loop_rest [OF 1(2)] by simp
  moreover have "P (world f)"
    using loop_keeps [OF _ _ _ 1(2)] fan_start_world waiting_fan_start [OF assms(3)] assms(2,4) 1(1) by auto
  ultimately show ?thesis
    using assms(2) 1 by (simp add: fan_end_world)
qed

end

section \<open>Accounting\<close>

text \<open>Every device the request reached is waiting, or has won, or has failed, and the loop is
  finished as soon as the outcome is settled.\<close>

definition fan_ok :: "bool \<Rightarrow> nat list \<Rightarrow> fan \<Rightarrow> bool" where
  "fan_ok wait_all asked f \<longleftrightarrow>
     length (wins f) + length (errors f) + length (waiting f) = length asked
     \<and> set (waiting f) \<subseteq> set asked
     \<and> fst ` set (wins f) \<subseteq> set asked - set (waiting f) \<and> distinct (map fst (wins f))
     \<and> (\<forall>w\<in>set (wins f). snd w \<noteq> [] \<and> hd (snd w) = 0)
     \<and> (\<forall>e\<in>set (errors f). e \<noteq> [] \<and> hd e \<noteq> 0)
     \<and> (finished f \<longleftrightarrow> \<not> wait_all \<and> (wins f \<noteq> [] \<or> (\<exists>e\<in>set (errors f). hd e = OPERATION_DENIED)))
     \<and> (\<not> wait_all \<longrightarrow> length (wins f) \<le> 1
          \<and> (wins f = [] \<or> (\<forall>e\<in>set (errors f). hd e \<noteq> OPERATION_DENIED)))"

lemma fan_ok_world [simp]: "fan_ok wait_all asked (f\<lparr>world := d\<rparr>) = fan_ok wait_all asked f"
  by (simp add: fan_ok_def)

lemma fan_ok_heard [simp]: "fan_ok wait_all asked (f\<lparr>heard := b\<rparr>) = fan_ok wait_all asked f"
  by (simp add: fan_ok_def)

text \<open>The ways a poll can turn out.\<close>

lemma poll_link_cases:
  obtains (silent) "poll_link r wait_all i f = f"
  | (foreign) "poll_link r wait_all i f = f\<lparr>heard := True, world := take_response i (world f)\<rparr>"
  | (won) p ms where "lresponses (heap (world f) i) = (rnumber r, p) # ms" "p \<noteq> []" "hd p = 0"
      "poll_link r wait_all i f = f\<lparr>heard := True, world := take_response i (world f),
         waiting := filter (\<lambda>c. c \<noteq> i) (waiting f), wins := wins f @ [(i, p)], finished := \<not> wait_all\<rparr>"
  | (lost) "poll_link r wait_all i f = f\<lparr>heard := True, world := take_response i (world f),
         waiting := filter (\<lambda>c. c \<noteq> i) (waiting f), errors := errors f @ [[CTAP2_ERR_OTHER]]\<rparr>"
  | (failed) p ms where "lresponses (heap (world f) i) = (rnumber r, p) # ms" "p \<noteq> []" "hd p \<noteq> 0"
      "poll_link r wait_all i f = f\<lparr>heard := True, world := take_response i (world f),
         waiting := filter (\<lambda>c. c \<noteq> i) (waiting f), errors := errors f @ [p],
         finished := hd p = OPERATION_DENIED \<and> \<not> wait_all\<rparr>"
proof (cases "lresponses (heap (world f) i)")
  case Nil
  then show thesis by (intro silent) (simp add: poll_link_def try_recv_def)
next
  case (Cons m ms)
  obtain n p where m: "m = (n, p)" by fastforce
  note step = Cons [unfolded m]
  consider "n = 0 \<and> p = []" | "\<not> (n = 0 \<and> p = [])" "n \<noteq> rnumber r"
    | "n = rnumber r" "n \<noteq> 0" "p = []" | "n = rnumber r" "p \<noteq> []" "hd p = 0"
    | "n = rnumber r" "p \<noteq> []" "hd p \<noteq> 0"
    by blast
  then show thesis
  proof cases
    case 1
    with step show thesis by (intro lost) (simp add: poll_link_def try_recv_def)
  next
    case 2
    with step show thesis by (intro foreign) (auto simp: poll_link_def try_recv_def Let_def)
  next
    case 3
    with step show thesis by (intro lost) (simp add: poll_link_def try_recv_def)
  next
    case 4
    with step show thesis by (intro won [of p ms]) (simp_all add: poll_link_def try_recv_def)
  next
    case 5
    with step show thesis by (intro failed [of p ms]) (simp_all add: poll_link_def try_recv_def)
  qed
qed

lemma length_filter_removed:
  "distinct xs \<Longrightarrow> i \<in> set xs \<Longrightarrow> Suc (length (filter (\<lambda>c. c \<noteq> i) xs)) = length xs"
proof (induction xs)
  case (Cons x xs)
  then show ?case
    by (cases "x = i") (auto simp: filter_id_conv intro!: arg_cong [of _ _ length])
qed simp

lemma poll_link_fan_ok:
  assumes ok: "fan_ok wait_all asked f" and "\<not> finished f" and i: "i \<in> set (waiting f)"
    and d: "distinct (waiting f)"
  shows "fan_ok wait_all asked (poll_link r wait_all i f)"
proof -
  have len: "Suc (length (filter (\<lambda>c. c \<noteq> i) (waiting f))) = length (waiting f)"
    using d i by (rule length_filter_removed)
  have inA: "i \<in> set asked" and new: "i \<notin> fst ` set (wins f)"
    using ok i by (auto simp: fan_ok_def)
  have fin: "finished f = False" and open_: "wait_all \<or> wins f = [] \<and> (\<forall>e\<in>set (errors f). hd e \<noteq> OPERATION_DENIED)"
    using ok assms(2) unfolding fan_ok_def by blast+
  note ok = ok [unfolded fan_ok_def fin]
  show ?thesis
  proof (cases rule: poll_link_cases [of r wait_all i f])
    case silent
    with assms(1) show ?thesis by simp
  next
    case foreign
    with ok fin show ?thesis by (simp add: fan_ok_def)
  next
    case (won p ms)
    from open_ show ?thesis
    proof
      assume wait_all
      with won ok len inA new show ?thesis by (auto simp: fan_ok_def)
    next
      assume "wins f = [] \<and> (\<forall>e\<in>set (errors f). hd e \<noteq> OPERATION_DENIED)"
      with won ok len inA show ?thesis by (auto simp: fan_ok_def)
    qed
  next
    case lost
    from open_ show ?thesis
    proof
      assume wait_all
      with lost ok len fin show ?thesis by (auto simp: fan_ok_def)
    next
      assume "wins f = [] \<and> (\<forall>e\<in>set (errors f). hd e \<noteq> OPERATION_DENIED)"
      with lost ok len fin show ?thesis by (auto simp: fan_ok_def)
    qed
  next
    case (failed p ms)
    from open_ show ?thesis
    proof
      assume wait_all
      with failed ok len show ?thesis by (auto simp: fan_ok_def)
    next
      assume "wins f = [] \<and> (\<forall>e\<in>set (errors f). hd e \<noteq> OPERATION_DENIED)"
      with failed ok len show ?thesis by (auto simp: fan_ok_def)
    qed
  qed
qed

interpretation accounts: fan_invariant "fan_ok wait_all asked" "\<lambda>_. True" r wait_all
  for wait_all asked r
  by unfold_locales (simp_all add: poll_link_fan_ok)

section \<open>Where answers come from\<close>

text \<open>\<open>told i number payload\<close>: the device behind link \<open>i\<close> sent this answer.\<close>

definition queues_from :: "(nat \<Rightarrow> u32 \<Rightarrow> bytes \<Rightarrow> bool) \<Rightarrow> daemon \<Rightarrow> bool" where
  "queues_from told d \<longleftrightarrow>
     (\<forall>i. \<forall>m\<in>set (lresponses (heap d i)). m = (0, []) \<or> told i (fst m) (snd m))"

fun event_from :: "(nat \<Rightarrow> u32 \<Rightarrow> bytes \<Rightarrow> bool) \<Rightarrow> env_event \<Rightarrow> bool" where
  "event_from told (Arrive i (Response number payload)) = (number = 0 \<and> payload = [] \<or> told i number payload)"
| "event_from told e = True"

lemma queues_from_cong:
  "\<forall>i. quiet_link (heap e i) = quiet_link (heap d i) \<Longrightarrow> queues_from told e = queues_from told d"
  by (simp add: queues_from_def quiet_linkD(1) [of "heap e _" "heap d _"])

lemma queues_from_take: "queues_from told d \<Longrightarrow> queues_from told (take_response i d)"
  by (auto simp: queues_from_def take_response_def upd_link_def try_recv_def split: list.splits)

lemma in_tl: "x \<in> set (tl xs) \<Longrightarrow> x \<in> set xs"
  by (cases xs) auto

lemma queues_from_env:
  assumes "event_from told e" and "queues_from told d"
  shows "queues_from told (env_step e d)"
  unfolding queues_from_def
proof (intro allI ballI)
  fix i m
  assume "m \<in> set (lresponses (heap (env_step e d) i))"
  then have "m \<in> set (lresponses (heap d i)) \<or> m = (0, []) \<or> told i (fst m) (snd m)"
    using assms(1) by (auto simp: env_step_responses dest: in_tl
        split: env_event.splits link_event.splits if_splits)
  then show "m = (0, []) \<or> told i (fst m) (snd m)"
    using assms(2) unfolding queues_from_def by blast
qed

interpretation queues: world_invariant "queues_from told" "event_from told" r for told r
proof
  show "queues_from told (env_step e d)" if "event_from told e" "queues_from told d" for e d
    using that by (rule queues_from_env)
  show "queues_from told (take_response i d)" if "queues_from told d" for d i
    using that by (rule queues_from_take)
qed (simp_all add: queues_from_cong set_pending_def queues_from_def quiet_linkD(1) [OF quiet_send_to])

definition answers_from :: "(nat \<Rightarrow> u32 \<Rightarrow> bytes \<Rightarrow> bool) \<Rightarrow> nat list \<Rightarrow> request \<Rightarrow> fan \<Rightarrow> bool" where
  "answers_from told asked r f \<longleftrightarrow>
     queues_from told (world f) \<and> set (waiting f) \<subseteq> set asked
     \<and> (\<forall>w\<in>set (wins f). fst w \<in> set asked \<and> told (fst w) (rnumber r) (snd w))
     \<and> (\<forall>e\<in>set (errors f). e = [CTAP2_ERR_OTHER] \<or> (\<exists>i\<in>set asked. told i (rnumber r) e))"

lemma queued_told:
  "queues_from told d \<Longrightarrow> lresponses (heap d i) = (n, p) # ms \<Longrightarrow> p \<noteq> [] \<Longrightarrow> told i n p"
  by (auto simp: queues_from_def dest!: spec [of _ i])

lemma poll_link_answers_from:
  assumes "answers_from told asked r f" and "i \<in> set (waiting f)"
  shows "answers_from told asked r (poll_link r wait_all i f)"
proof -
  have i: "i \<in> set asked" and q: "queues_from told (world f)"
    using assms by (auto simp: answers_from_def)
  show ?thesis
  proof (cases rule: poll_link_cases [of r wait_all i f])
    case (won p ms)
    with queued_told [OF q won(1,2)] i assms show ?thesis
      by (auto simp: answers_from_def queues_from_take)
  next
    case (failed p ms)
    with queued_told [OF q failed(1,2)] i assms show ?thesis
      by (auto simp: answers_from_def queues_from_take)
  qed (use assms in \<open>auto simp: answers_from_def queues_from_take\<close>)
qed

interpretation sources: fan_invariant "answers_from told asked r" "event_from told" r wait_all
  for told asked r wait_all
proof
  show "answers_from told asked r (f\<lparr>world := env_step e (world f)\<rparr>)"
    if "event_from told e" "answers_from told asked r f" for e f
    using that by (simp add: answers_from_def queues_from_env)
  show "answers_from told asked r (poll_link r wait_all i f)"
    if "answers_from told asked r f" "i \<in> set (waiting f)" for f i
    using that by (rule poll_link_answers_from)
qed (simp_all add: answers_from_def queues.replied_world)

section \<open>A request that lost the slot\<close>

definition gone :: "request \<Rightarrow> daemon \<Rightarrow> bool" where
  "gone r d \<longleftrightarrow> rid r < next_rid d \<and> \<not> request_is_current r d"

lemma gone_cong: "busy e = busy d \<Longrightarrow> next_rid e = next_rid d \<Longrightarrow> gone r e = gone r d"
  by (simp add: gone_def request_is_current_def)

lemma gone_env_step: "gone r d \<Longrightarrow> gone r (env_step e d)"
  by (cases e)
    (auto simp: gone_def request_is_current_def begin_request_def abandon_request_def finish_request_def
      take_response_def upd_link_def send_to_def set_pending_def put_partial_def write_uhid_def
      create_uhid_def destroy_uhid_def lose_key_def Let_def split: option.splits)

interpretation gone: world_invariant "gone q" "\<lambda>_. True" r for q r
proof
  show "gone q (env_step e d)" if "gone q d" for e d
    using that by (rule gone_env_step)
qed (simp_all add: gone_def request_is_current_def take_response_def send_to_def set_pending_def)

section \<open>The end of the loop\<close>

lemma fan_loop_returns:
  "\<exists>t\<in>set ts. expired t \<Longrightarrow>
    \<exists>f' t rest. fan_loop r wait_all ts f = Some (f', t, rest)
      \<and> length (filter expired ts) \<le> Suc (length (filter expired rest))"
proof (induction ts arbitrary: f)
  case (Cons t ts)
  show ?case
  proof (cases "expired t")
    case False
    with Cons show ?thesis by (auto simp: Let_def)
  qed (auto simp: Let_def)
qed simp

lemma fan_out_returns_aux:
  assumes "2 \<le> length (filter expired ts)"
  shows "\<exists>ws es rest d'. fan_out r targets data wait_all ts d = Some (ws, es, rest, d')
    \<and> length (filter expired ts) \<le> length (filter expired rest) + 2"
proof (cases ts)
  case (Cons pause ts')
  with assms have "filter expired ts' \<noteq> []"
    by (auto split: if_splits)
  then have "\<exists>t\<in>set ts'. expired t"
    by (auto simp: filter_empty_conv)
  from fan_loop_returns [OF this, of r wait_all "fan_start r targets data pause d"] Cons show ?thesis
    by auto
qed (use assms in simp)

lemma fan_out_ok:
  assumes "fan_out r targets data wait_all ts d = Some (ws, es, rest, d')" and "distinct targets"
  obtains pause :: tick and ts' f t where "ts = pause # ts'"
    "fan_loop r wait_all ts' (fan_start r targets data pause d) = Some (f, t, rest)" "ws = wins f" "es = errors f"
    "d' = fan_end r t f" "distinct (waiting f)"
    "fan_ok wait_all (fst (send_targets (during pause) (request_message (rnumber r) data) targets d)) f"
  using assms(1)
proof (cases rule: fan_outE)
  case (1 pause ts' f t)
  have "fan_ok wait_all (fst (send_targets (during pause) (request_message (rnumber r) data) targets d))
      (fan_start r targets data pause d)"
    by (simp add: fan_ok_def)
  from accounts.loop_keeps [OF _ this _ 1(2)] 1 assms(2) that show thesis
    by (auto simp: send_targets_distinct)
qed

section \<open>What is sent to a link\<close>

text \<open>A stream that is shut down stays so, and what was sent stays sent.\<close>

lemma env_step_link:
  "lup (heap (env_step e d) i) \<Longrightarrow> lup (heap d i)"
  "\<exists>new. lsent (heap (env_step e d) i) = lsent (heap d i) @ new \<and> ((\<forall>b. e \<noteq> Sent b i) \<longrightarrow> new = [])"
proof -
  have "(lup (heap (env_step e d) i) \<longrightarrow> lup (heap d i))
      \<and> (\<exists>new. lsent (heap (env_step e d) i) = lsent (heap d i) @ new \<and> ((\<forall>b. e \<noteq> Sent b i) \<longrightarrow> new = []))"
  proof (cases e)
    case (Arrive j event)
    then show ?thesis by (cases event) (simp_all add: upd_link_def)
  qed (auto simp: upd_link_def send_to_def send_def take_response_def try_recv_def begin_request_def
      abandon_request_def finish_request_def set_pending_def put_partial_def create_uhid_def destroy_uhid_def
      lose_key_def Let_def split: option.splits list.splits)
  then show "lup (heap (env_step e d) i) \<Longrightarrow> lup (heap d i)"
    "\<exists>new. lsent (heap (env_step e d) i) = lsent (heap d i) @ new \<and> ((\<forall>b. e \<noteq> Sent b i) \<longrightarrow> new = [])"
    by blast+
qed

lemma taken_link: "lup (heap (take_response i d) j) = lup (heap d j)" "lsent (heap (take_response i d) j) = lsent (heap d j)"
  by (simp_all add: take_response_def upd_link_def try_recv_def split: list.splits)

lemma sent_link:
  "lup (heap (send_to body i d) j) = lup (heap d j)"
  "lsent (heap (send_to body i d) j) = lsent (heap d j) @ (if j = i \<and> lup (heap d i) then [frame body] else [])"
  by (simp_all add: send_to_def upd_link_def send_def)

lemma set_pending_heap [simp]: "heap (set_pending r ls d) = heap d"
  by (simp add: set_pending_def)

interpretation down: world_invariant "\<lambda>d. \<not> lup (heap d i)" "\<lambda>_. True" r for i r
  by unfold_locales (auto simp: taken_link sent_link dest: env_step_link(1))

interpretation grows: world_invariant "\<lambda>d. prefix L (lsent (heap d i))" "\<lambda>_. True" r for L i r
proof
  show "prefix L (lsent (heap (env_step e d) i))" if "prefix L (lsent (heap d i))" for e d
    using that env_step_link(2) [of e d i] by (metis prefix_order.trans prefixI)
qed (auto simp: taken_link sent_link)

abbreviation (input) not_to :: "nat \<Rightarrow> env_event \<Rightarrow> bool" where
  "not_to i e \<equiv> (\<forall>b. e \<noteq> Sent b i)"

interpretation unsent: fan_invariant "\<lambda>f. lsent (heap (world f) i) = L" "not_to i" r wait_all for i L r wait_all
proof
  show "lsent (heap (world (f\<lparr>world := env_step e (world f)\<rparr>)) i) = L"
    if "not_to i e" "lsent (heap (world f) i) = L" for e f
    using that env_step_link(2) [of e "world f" i] by auto
  show "lsent (heap (world (poll_link r wait_all j f)) i) = L"
    if "lsent (heap (world f) i) = L" for f j
    using that by (cases rule: poll_link_cases [of r wait_all j f]) (simp_all add: taken_link)
qed simp_all

lemma run_env_unsent: "\<forall>e\<in>set es. not_to i e \<Longrightarrow> lsent (heap (run_env es d) i) = lsent (heap d i)"
proof (induction es arbitrary: d)
  case (Cons e es)
  then have "lsent (heap (env_step e d) i) = lsent (heap d i)"
    using env_step_link(2) [of e d i] by auto
  then show ?case using Cons by (simp add: run_env_def)
qed (simp add: run_env_def)

lemma send_targets_sent:
  "i \<in> set (fst (send_targets gaps body targets d)) \<Longrightarrow>
    \<exists>pre. prefix (pre @ [frame body]) (lsent (heap (snd (send_targets gaps body targets d)) i))"
proof (induction targets arbitrary: d)
  case (Cons j targets)
  let ?d = "run_env (gaps j) d" let ?e = "send_to body j ?d"
  show ?case
  proof (cases "i \<in> set (fst (send_targets gaps body targets ?e))")
    case False
    then have "i = j" "lup (heap ?d j)" using Cons.prems by (auto simp: send_def split: if_splits)
    then have "prefix (lsent (heap ?d i) @ [frame body]) (lsent (heap ?e i))" by (simp add: sent_link)
    from grows.send_targets_world [OF _ this, of gaps body targets] show ?thesis by (auto intro: exI)
  qed (use Cons.IH in simp)
qed simp

lemma send_targets_exact:
  assumes "\<forall>j. \<forall>e\<in>set (gaps j). not_to i e" and "distinct targets"
  shows "lsent (heap (snd (send_targets gaps body targets d)) i)
      = lsent (heap d i) @ (if i \<in> set (fst (send_targets gaps body targets d)) then [frame body] else [])"
  using assms(2)
proof (induction targets arbitrary: d)
  case (Cons j targets)
  let ?d = "run_env (gaps j) d" let ?e = "send_to body j ?d"
  have g: "lsent (heap ?d i) = lsent (heap d i)" using assms(1) by (simp add: run_env_unsent)
  have "i = j \<Longrightarrow> i \<notin> set (fst (send_targets gaps body targets ?e))"
    using Cons.prems send_targets_set by fastforce
  then show ?case
    using Cons g by (auto simp: sent_link send_def)
qed simp

lemma send_targets_up:
  "i \<in> set targets \<Longrightarrow> lup (heap (snd (send_targets gaps body targets d)) i) \<Longrightarrow> i \<in> set (fst (send_targets gaps body targets d))"
proof (induction targets arbitrary: d)
  case (Cons j targets)
  let ?d = "run_env (gaps j) d" let ?e = "send_to body j ?d"
  show ?case
  proof (cases "i = j")
    case True
    have "lup (heap ?e i)"
      using Cons.prems(2) down.send_targets_world [of gaps ?e i body targets] by auto
    then show ?thesis using True by (simp add: sent_link send_def)
  qed (use Cons in simp)
qed simp

lemma withdraw_each_sent:
  "i \<in> set ls \<Longrightarrow> lup (heap (withdraw_each gaps q ls d) i) \<Longrightarrow> prefix L (lsent (heap d i)) \<Longrightarrow>
    \<exists>mid. prefix (L @ mid @ [frame (cancel_message (rnumber q))]) (lsent (heap (withdraw_each gaps q ls d) i))"
proof (induction ls arbitrary: d)
  case (Cons j ls)
  let ?d = "run_env (gaps j) d" let ?e = "send_to (cancel_message (rnumber q)) j ?d"
  have p: "prefix L (lsent (heap ?d i))" using grows.run_world Cons.prems(3) by simp
  show ?case
  proof (cases "i = j")
    case True
    have "lup (heap ?e i)" using Cons.prems(2) down.withdraw_world [of gaps ?e i q ls] by auto
    then have "lup (heap ?d j)" using True by (simp add: sent_link)
    moreover obtain mid where "lsent (heap ?d i) = L @ mid" using p by (auto elim: prefixE)
    ultimately have "prefix (L @ mid @ [frame (cancel_message (rnumber q))]) (lsent (heap ?e i))"
      using True by (simp add: sent_link)
    from grows.withdraw_world [OF _ this, of gaps q ls] show ?thesis by (auto intro: exI)
  next
    case False
    have "prefix L (lsent (heap ?e i))" using p by (simp add: sent_link False)
    then show ?thesis using Cons.IH [of ?e] Cons.prems False by simp
  qed
qed simp

lemma withdraw_each_exact:
  assumes "\<forall>j. \<forall>e\<in>set (gaps j). not_to i e" and "distinct ls" and "lup (heap (withdraw_each gaps q ls d) i)"
  shows "lsent (heap (withdraw_each gaps q ls d) i)
      = lsent (heap d i) @ (if i \<in> set ls then [frame (cancel_message (rnumber q))] else [])"
  using assms(2,3)
proof (induction ls arbitrary: d)
  case (Cons j ls)
  let ?d = "run_env (gaps j) d" let ?e = "send_to (cancel_message (rnumber q)) j ?d"
  have g: "lsent (heap ?d i) = lsent (heap d i)" using assms(1) by (simp add: run_env_unsent)
  have "lup (heap ?e i)" using Cons.prems(2) down.withdraw_world [of gaps ?e i q ls] by auto
  then show ?case using Cons g by (auto simp: sent_link)
qed simp

lemma pendings_run: "pendings (send_to body i d) = pendings d"
  by (simp add: send_to_def)

text \<open>Two phones, each with an answer on its way; used by the concrete runs below.\<close>

definition two_phones :: daemon where
  "two_phones = daemon_new 5 (\<lambda>i. link_new ''usb'' 0 ''phone'' (if i = 0 then ''usb:1'' else ''usb:2''))
     \<lparr>links := [0, 1], next_rid := 1, next_request := 2, uhid_file := True,
      busy := Some \<lparr>rchannel = 9, rnumber = 1, rid = 0\<rparr>\<rparr>"

definition idle_tick :: tick where
  "idle_tick = \<lparr>before = [], expired = False, due = True, during = \<lambda>_. [], ending = [], leaving = []\<rparr>"

definition last_tick :: tick where
  "last_tick = \<lparr>before = [], expired = True, due = True, during = \<lambda>_. [], ending = [], leaving = []\<rparr>"

definition answer_tick :: "nat \<Rightarrow> bytes \<Rightarrow> tick" where
  "answer_tick i payload = \<lparr>before = [Arrive i (Response 1 payload)], expired = False, due = False,
     during = \<lambda>_. [], ending = [], leaving = []\<rparr>"

abbreviation (input) first_request :: request where
  "first_request \<equiv> \<lparr>rchannel = 9, rnumber = 1, rid = 0\<rparr>"

lemma ticks_expire: "2 \<le> length (filter expired [idle_tick, answer_tick i payload, last_tick, last_tick])"
  by (simp add: idle_tick_def answer_tick_def last_tick_def)

section \<open>Properties\<close>

text \<open>A request thread cannot hang: whatever the devices and the other threads do, the loop over
  the devices ends at the first turn after the deadline.\<close>

theorem fan_out_returns:
  assumes "t \<in> set ts" and "expired t"
  shows "\<exists>ws es rest d'. fan_out r targets data wait_all (pause # ts) d = Some (ws, es, rest, d')"
proof -
  obtain f t' rest where "fan_loop r wait_all ts (fan_start r targets data pause d) = Some (f, t', rest)"
    using fan_loop_returns [of ts r wait_all "fan_start r targets data pause d"] assms by blast
  then show ?thesis by simp
qed

theorem fan_out_returns_witness:
  "\<exists>ws es rest d'. fan_out first_request [0, 1] [2] False [idle_tick, idle_tick, last_tick] two_phones
     = Some (ws, es, rest, d')"
  by (rule fan_out_returns [of last_tick]) (simp_all add: last_tick_def)



text \<open>C1: no answer is made up or mixed up: each winning answer was sent by the device it is credited
  to, in reply to this request's number, and each error was sent by one of the devices asked, in
  reply to this number, unless it is the daemon's own CTAP2_ERR_OTHER; whatever arrives on the
  queues, in whatever order, before or during the request.\<close>

theorem fan_out_answers_real:
  assumes "fan_out r targets data wait_all ts d = Some (ws, es, rest, d')"
    and "distinct targets" and "queues_from told d"
    and "\<forall>t\<in>set ts. tick_allowed (event_from told) t"
  shows "(\<forall>w\<in>set ws. fst w \<in> set targets \<and> told (fst w) (rnumber r) (snd w))
    \<and> (\<forall>e\<in>set es. e = [CTAP2_ERR_OTHER] \<or> (\<exists>i\<in>set targets. told i (rnumber r) e))"
  using assms(1)
proof (cases rule: fan_outE)
  case (1 pause ts' f t)
  have "queues_from told (world (fan_start r targets data pause d))"
    using assms(3,4) 1(1) by (intro queues.fan_start_world) auto
  then have "answers_from told targets r (fan_start r targets data pause d)"
    by (simp add: answers_from_def send_targets_set)
  then have "answers_from told targets r f"
    using sources.loop_keeps [OF _ _ _ 1(2)] 1(1) assms(2,4)
    by (auto simp: send_targets_distinct)
  with 1 show ?thesis by (simp add: answers_from_def)
qed

theorem fan_out_answers_real_witness:
  "\<exists>ws es rest d'. fan_out first_request [0, 1] [2] False
      [idle_tick, answer_tick 1 [0, 7], last_tick, last_tick] two_phones = Some (ws, es, rest, d')
    \<and> (\<forall>w\<in>set ws. w = (1, [0, 7]))"
proof -
  let ?told = "\<lambda>i n p. i = 1 \<and> n = (1 :: u32) \<and> p = [0, 7 :: u8]"
  obtain ws es rest d' where run: "fan_out first_request [0, 1] [2] False
      [idle_tick, answer_tick 1 [0, 7], last_tick, last_tick] two_phones = Some (ws, es, rest, d')"
    using fan_out_returns_aux [OF ticks_expire] by blast
  have "queues_from ?told two_phones"
    by (simp add: queues_from_def two_phones_def daemon_new_def link_new_def)
  from fan_out_answers_real [OF run _ this] run show ?thesis
    by (auto simp: tick_allowed_def idle_tick_def answer_tick_def last_tick_def)
qed

text \<open>A request that has lost the slot never has it again: no event of any thread, in any number
  and order, makes it current, so its thread can never answer in another request's place.\<close>

theorem never_current_again:
  assumes "rid r < next_rid d" and "\<not> request_is_current r d"
  shows "\<not> request_is_current r (run_env es d)"
  using gone.run_world [of es r d] assms by (simp add: gone_def)

theorem never_current_again_witness:
  "\<not> request_is_current \<lparr>rchannel = 9, rnumber = 1, rid = 0\<rparr>
     (run_env [Began 9 2 [4], Abandoned 9, Finished \<lparr>rchannel = 9, rnumber = 2, rid = 1\<rparr>]
       (daemon_new 5 (\<lambda>_. undefined)\<lparr>next_rid := 1\<rparr>))"
  by (rule never_current_again) (simp_all add: daemon_new_def request_is_current_def)

end
