(* ===== verification/Handler.thy ===== *)
theory Handler
  imports Fan_Out
begin

text \<open>
  The thread of a CBOR request (src/src/daemon.rs: \<open>handle_cbor\<close>, \<open>finish_request\<close>, the rounds of
  devices it asks).  \<open>chosen_device()\<close> reads a file of the user: what it returned is the argument
  \<open>chosen\<close>.  The schedule is that of \<open>fan_out\<close>, used up round by round; what other threads do between the
  atomic steps of the thread outside \<open>fan_out\<close> is in \<open>handler_gaps\<close>.
\<close>

section \<open>Which devices are asked\<close>

abbreviation (input) GET_INFO :: u8 where "GET_INFO \<equiv> 0x04"
abbreviation (input) GET_NEXT_ASSERTION :: u8 where "GET_NEXT_ASSERTION \<equiv> 0x08"
abbreviation (input) NO_CREDENTIALS :: u8 where "NO_CREDENTIALS \<equiv> 0x2e"

definition find_device :: "(nat \<Rightarrow> string) \<Rightarrow> nat list \<Rightarrow> string \<Rightarrow> nat option" where
  "find_device dev devices device = List.find (\<lambda>i. dev i = device) devices"

definition option_list :: "'a option \<Rightarrow> 'a list" where
  "option_list x = (case x of None \<Rightarrow> [] | Some y \<Rightarrow> [y])"

text \<open>\<open>rounds\<close>; \<open>dev\<close> gives the device of a link, \<open>known\<close> is the set \<open>holders\<close>.\<close>

definition rounds :: "(nat \<Rightarrow> string) \<Rightarrow> nat list \<Rightarrow> string option \<Rightarrow> u8 \<Rightarrow> bool \<Rightarrow> string set
    \<Rightarrow> string option \<Rightarrow> nat list list" where
  "rounds dev devices chosen command probe known last_winner =
     (case chosen of
        Some device \<Rightarrow> [option_list (find_device dev devices device)]
      | None \<Rightarrow>
          if command = GET_INFO then [take 1 devices]
          else if command = GET_NEXT_ASSERTION then
            [option_list (Option.bind last_winner (find_device dev devices))]
          else if command = GET_ASSERTION \<and> \<not> probe \<and> (\<exists>i\<in>set devices. dev i \<in> known) then
            [filter (\<lambda>i. dev i \<in> known) devices, filter (\<lambda>i. dev i \<notin> known) devices]
          else [devices])"

section \<open>The answer\<close>

definition should_stop :: "bytes list \<Rightarrow> bool" where
  "should_stop failures \<longleftrightarrow> failures \<noteq> [] \<and> (\<exists>e\<in>set failures. e = [] \<or> hd e \<noteq> NO_CREDENTIALS)"

definition final_error :: "bytes list \<Rightarrow> bytes" where
  "final_error errs =
     (case List.find (\<lambda>e. e = [] \<or> hd e \<noteq> NO_CREDENTIALS) errs of
        Some e \<Rightarrow> e
      | None \<Rightarrow> (case errs of e # _ \<Rightarrow> e | [] \<Rightarrow> [CTAP2_ERR_OTHER]))"

text \<open>The gaps of \<open>handle_cbor\<close>: before it reads who holds a credential, before it looks whether the request is
  current, before each report of the answer, and before it gives the slot back.\<close>

record handler_gaps =
  reading :: "env_event list"
  looking :: "env_event list"
  writing :: "nat \<Rightarrow> env_event list"
  freeing :: "env_event list"

fun write_reports :: "(nat \<Rightarrow> env_event list) \<Rightarrow> nat \<Rightarrow> bytes list \<Rightarrow> daemon \<Rightarrow> daemon" where
  "write_reports gaps n [] d = d"
| "write_reports gaps n (report # reports) d =
     write_reports gaps (Suc n) reports (send_report report (run_env (gaps n) d))"

text \<open>Both ends of \<open>handle_cbor\<close>: \<open>if self.request_is_current { reply }; finish_request\<close>; the check, each
  report and the end are steps of their own.\<close>

definition offer_answer :: "request \<Rightarrow> bytes \<Rightarrow> handler_gaps \<Rightarrow> daemon \<Rightarrow> daemon" where
  "offer_answer request payload g d =
     (let d1 = run_env (looking g) d
      in if request_is_current request d1
         then write_reports (writing g) 0 (reply_packets (rchannel request) CBOR payload) d1 else d1)"

definition conclude :: "request \<Rightarrow> bytes \<Rightarrow> handler_gaps \<Rightarrow> daemon \<Rightarrow> daemon" where
  "conclude request payload g d = finish_request request (run_env (freeing g) (offer_answer request payload g d))"

definition remember :: "u8 \<Rightarrow> bool \<Rightarrow> nat \<Rightarrow> (nat \<times> bytes) list \<Rightarrow> daemon \<Rightarrow> daemon" where
  "remember command probe winner ws d =
     (if command = GET_ASSERTION
      then d\<lparr>lastdev := Some (ldevice (heap d winner)),
             holders := (if probe then (\<lambda>(i, _). ldevice (heap d i)) ` set ws else holders d)\<rparr>
      else d)"

text \<open>The loop over the rounds: what the host is to be told, and the state in which it is.\<close>

fun ask_rounds :: "request \<Rightarrow> bytes \<Rightarrow> bool \<Rightarrow> nat list list \<Rightarrow> bytes list \<Rightarrow> tick list \<Rightarrow> daemon
    \<Rightarrow> (bytes \<times> daemon) option" where
  "ask_rounds request data probe [] errs ts d = Some (final_error errs, d)"
| "ask_rounds request data probe (targets # rs) errs ts d =
     (if targets = [] then ask_rounds request data probe rs errs ts d
      else case fan_out request targets data probe ts d of
        None \<Rightarrow> None
      | Some (ws, failures, rest, d1) \<Rightarrow>
          (case ws of
             (winner, payload) # _ \<Rightarrow> Some (payload, remember (hd data) probe winner ws d1)
           | [] \<Rightarrow>
               if should_stop failures then Some (final_error (errs @ failures), d1)
               else ask_rounds request data probe rs (errs @ failures) rest d1))"

definition handle_cbor :: "string option \<Rightarrow> handler_gaps \<Rightarrow> request \<Rightarrow> bytes \<Rightarrow> tick list \<Rightarrow> daemon \<Rightarrow> daemon option" where
  "handle_cbor chosen g request data ts d =
     (let devices = by_device d; probe = silent data; d0 = run_env (reading g) d in
      map_option (\<lambda>(payload, d1). conclude request payload g d1)
        (ask_rounds request data probe
          (rounds (\<lambda>i. ldevice (heap d i)) devices chosen (hd data) probe (holders d0) (lastdev d0))
          [] ts d0))"

section \<open>The slot of the request in flight\<close>

text \<open>
  What the end of a request relies on: at most one request is current, and finishing takes the slot
  from the current request only.
\<close>

locale request_slot =
  fixes current :: "request \<Rightarrow> 's \<Rightarrow> bool"
    and finish :: "request \<Rightarrow> 's \<Rightarrow> 's"
  assumes current_unique: "current q s \<Longrightarrow> current r s \<Longrightarrow> rid q = rid r"
    and finish_frees: "\<not> current r (finish r s)"
    and finish_other: "\<not> current r s \<Longrightarrow> finish r s = s"
    and finish_keeps: "rid q \<noteq> rid r \<Longrightarrow> current q (finish r s) = current q s"
begin

lemma finish_foreign: "current q s \<Longrightarrow> rid q \<noteq> rid r \<Longrightarrow> finish r s = s"
  using current_unique by (intro finish_other) blast

lemma finish_twice: "finish r (finish r s) = finish r s"
  by (intro finish_other finish_frees)

lemma finish_takes_own: "finish r s \<noteq> s \<Longrightarrow> current r s"
  using finish_other by blast

end

interpretation slot: request_slot request_is_current finish_request
  by unfold_locales (auto simp: request_is_current_def finish_request_def split: option.splits)

lemma conclude_frees: "\<not> request_is_current r (conclude r payload g d)"
  by (simp add: conclude_def slot.finish_frees)

definition gaps_allowed :: "(env_event \<Rightarrow> bool) \<Rightarrow> handler_gaps \<Rightarrow> bool" where
  "gaps_allowed allowed g \<longleftrightarrow> (\<forall>e\<in>set (reading g). allowed e) \<and> (\<forall>e\<in>set (looking g). allowed e)
     \<and> (\<forall>n. \<forall>e\<in>set (writing g n). allowed e) \<and> (\<forall>e\<in>set (freeing g). allowed e)"

lemma gaps_allowed_True [simp]: "gaps_allowed (\<lambda>_. True) g"
  by (simp add: gaps_allowed_def)

lemma gaps_allowed_mono: "gaps_allowed P g \<Longrightarrow> (\<And>e. P e \<Longrightarrow> Q e) \<Longrightarrow> gaps_allowed Q g"
  unfolding gaps_allowed_def by blast

lemma tick_allowed_mono: "tick_allowed P t \<Longrightarrow> (\<And>e. P e \<Longrightarrow> Q e) \<Longrightarrow> tick_allowed Q t"
  unfolding tick_allowed_def by blast

section \<open>The devices of a request\<close>

lemma by_device_live: "set (by_device d) \<subseteq> set (live_links d)"
  using retain_first_set [of "\<lambda>i. ldevice (heap d i)" "{}"] by (fastforce simp: by_device_def)

lemma by_device_distinct: "distinct (map (\<lambda>i. ldevice (heap d i)) (by_device d))"
  by (simp add: by_device_def retain_first_distinct)

lemma find_device_Some: "find_device dev devices device = Some i \<Longrightarrow> i \<in> set devices \<and> dev i = device"
  using find_Some_in by (fastforce simp: find_device_def)

lemma set_option_list [simp]: "set (option_list x) = set_option x"
  by (cases x) (simp_all add: option_list_def)

lemma distinct_option_list [simp]: "distinct (option_list x)"
  by (cases x) (simp_all add: option_list_def)

lemma rounds_subset: "targets \<in> set (rounds dev devices chosen command probe known w) \<Longrightarrow> set targets \<subseteq> set devices"
  by (auto simp: rounds_def dest: find_device_Some in_set_takeD split: option.splits if_splits)

lemma rounds_distinct:
  "distinct devices \<Longrightarrow> targets \<in> set (rounds dev devices chosen command probe known w) \<Longrightarrow> distinct targets"
  by (auto simp: rounds_def split: option.splits if_splits)

lemma length_rounds: "length (rounds dev devices chosen command probe known w) \<le> 2"
  by (simp add: rounds_def split: option.splits)

lemma distinct_by_device: "distinct (by_device d)"
  using by_device_distinct by (simp add: distinct_map)

section \<open>The loop over the rounds\<close>

lemma ask_rounds_returns:
  "2 * length rs \<le> length (filter expired ts) \<Longrightarrow> \<exists>payload d'. ask_rounds r data probe rs errs ts d = Some (payload, d')"
proof (induction rs arbitrary: errs ts d)
  case (Cons targets rs)
  show ?case
  proof (cases "targets = []")
    case True
    with Cons show ?thesis by simp
  next
    case False
    have "2 \<le> length (filter expired ts)"
      using Cons.prems by simp
    then obtain ws es rest d1 where f: "fan_out r targets data probe ts d = Some (ws, es, rest, d1)"
      "length (filter expired ts) \<le> length (filter expired rest) + 2"
      using fan_out_returns_aux by blast
    with Cons.prems have "2 * length rs \<le> length (filter expired rest)" by simp
    from Cons.IH [OF this] False f(1) show ?thesis
      by (auto split: list.splits)
  qed
qed simp

text \<open>A round of \<open>ask_rounds\<close> that asks someone.\<close>

lemma ask_rounds_Cons:
  assumes "ask_rounds r data probe (targets # rs) errs ts d = Some (payload, d')" and "targets \<noteq> []"
  obtains (won) i ws es rest d1 where
      "fan_out r targets data probe ts d = Some ((i, payload) # ws, es, rest, d1)"
      "d' = remember (hd data) probe i ((i, payload) # ws) d1"
  | (stopped) es rest where "fan_out r targets data probe ts d = Some ([], es, rest, d')"
      "should_stop es" "payload = final_error (errs @ es)"
  | (next_round) es rest d1 where "fan_out r targets data probe ts d = Some ([], es, rest, d1)"
      "\<not> should_stop es" "ask_rounds r data probe rs (errs @ es) rest d1 = Some (payload, d')"
  using assms by (auto split: option.splits list.splits if_splits)

lemma final_error_in: "final_error errs \<in> insert [CTAP2_ERR_OTHER] (set errs)"
  by (auto simp: final_error_def dest: find_Some_in split: option.splits list.splits)

context world_invariant begin

lemma ask_rounds_world:
  assumes learn: "\<And>d k x. P d \<Longrightarrow> P (d\<lparr>lastdev := x, holders := k\<rparr>)"
  shows "ask_rounds r data probe rs errs ts d = Some (payload, d') \<Longrightarrow>
    \<forall>t\<in>set ts. tick_allowed allowed t \<Longrightarrow> \<forall>targets\<in>set rs. distinct targets \<Longrightarrow> P d \<Longrightarrow> P d'"
proof (induction rs arbitrary: errs ts d)
  case (Cons targets rs)
  show ?case
  proof (cases "targets = []")
    case False
    from Cons.prems(1) False show ?thesis
    proof (cases rule: ask_rounds_Cons)
      case (won i ws es rest d1)
      with Cons.prems have "P d1" by (auto dest: fan_out_world)
      with won learn show ?thesis by (auto simp: remember_def)
    next
      case (stopped es rest)
      with Cons.prems show ?thesis by (auto dest: fan_out_world)
    next
      case (next_round es rest d1)
      with Cons.prems have "P d1" by (auto dest: fan_out_world)
      with Cons.IH [OF next_round(3)] Cons.prems fan_out_rest [OF next_round(1)] show ?thesis by auto
    qed
  qed (use Cons in auto)
qed auto

end

text \<open>What can be told to the host: a success some asked device sent for this request, or an error
  one of them sent, or the daemon's own.\<close>

definition answer_real :: "(nat \<Rightarrow> u32 \<Rightarrow> bytes \<Rightarrow> bool) \<Rightarrow> nat set \<Rightarrow> request \<Rightarrow> bytes \<Rightarrow> bool" where
  "answer_real told asked r payload \<longleftrightarrow>
     payload = [CTAP2_ERR_OTHER] \<or> payload \<noteq> [] \<and> (\<exists>i\<in>asked. told i (rnumber r) payload)"

lemma fan_out_real:
  assumes "fan_out r targets data wait_all ts d = Some (ws, es, rest, d')"
    and "distinct targets" and "queues_from told d"
    and "\<forall>t\<in>set ts. tick_allowed (event_from told) t"
  shows "\<forall>w\<in>set ws. answer_real told (set targets) r (snd w)"
    and "\<forall>e\<in>set es. answer_real told (set targets) r e" and "queues_from told d'"
proof -
  obtain pause ts' f t where f: "ts = pause # ts'"
    "fan_loop r wait_all ts' (fan_start r targets data pause d) = Some (f, t, rest)"
    "ws = wins f" "es = errors f"
    "fan_ok wait_all (fst (send_targets (during pause) (request_message (rnumber r) data) targets d)) f"
    using assms(1,2) by (rule fan_out_ok)
  have "answers_from told targets r (fan_start r targets data pause d)"
    using queues.fan_start_world [of told pause d r targets data] assms(3,4) f(1)
    by (simp add: answers_from_def send_targets_set)
  then have "answers_from told targets r f"
    using sources.loop_keeps [OF _ _ _ f(2)] f(1) assms(2,4)
    by (auto simp: send_targets_distinct)
  then show "\<forall>w\<in>set ws. answer_real told (set targets) r (snd w)"
    and "\<forall>e\<in>set es. answer_real told (set targets) r e"
    using f by (auto simp: answer_real_def answers_from_def fan_ok_def)
  show "queues_from told d'"
    using queues.fan_out_world [OF assms(1) assms(4) assms(2,3)] .
qed

lemma answer_real_mono: "answer_real told A r p \<Longrightarrow> A \<subseteq> B \<Longrightarrow> answer_real told B r p"
  by (auto simp: answer_real_def)

lemma ask_rounds_real:
  "ask_rounds r data probe rs errs ts d = Some (payload, d') \<Longrightarrow>
    \<forall>t\<in>set ts. tick_allowed (event_from told) t \<Longrightarrow>
    \<forall>targets\<in>set rs. distinct targets \<and> set targets \<subseteq> A \<Longrightarrow> queues_from told d \<Longrightarrow>
    \<forall>e\<in>set errs. answer_real told A r e \<Longrightarrow> answer_real told A r payload"
proof (induction rs arbitrary: errs ts d)
  case Nil
  then show ?case using final_error_in [of errs] by (auto simp: answer_real_def)
next
  case (Cons targets rs)
  show ?case
  proof (cases "targets = []")
    case False
    have sub: "distinct targets" "set targets \<subseteq> A" using Cons.prems by auto
    note real = fan_out_real [OF _ sub(1) Cons.prems(4,2)]
    from Cons.prems(1) False show ?thesis
    proof (cases rule: ask_rounds_Cons)
      case (won i ws es rest d1)
      with real(1) [OF won(1)] sub show ?thesis by (auto intro: answer_real_mono)
    next
      case (stopped es rest)
      have "\<forall>e\<in>set (errs @ es). answer_real told A r e"
        using real(2) [OF stopped(1)] sub Cons.prems(5) by (auto intro: answer_real_mono)
      with stopped(3) final_error_in [of "errs @ es"] show ?thesis
        by (auto simp: answer_real_def)
    next
      case (next_round es rest d1)
      have "\<forall>e\<in>set (errs @ es). answer_real told A r e"
        using real(2) [OF next_round(1)] sub Cons.prems(5) by (auto intro: answer_real_mono)
      with Cons.IH [OF next_round(3)] real(3) [OF next_round(1)] Cons.prems fan_out_rest [OF next_round(1)]
      show ?thesis by auto
    qed
  qed (use Cons in auto)
qed

section \<open>What the thread writes\<close>

text \<open>What steps of other threads write to the kernel device; the steps that leave the key in place and
  those that do not take the slot from a request.\<close>

fun others_write :: "(uhid_event \<Rightarrow> bool) \<Rightarrow> env_event \<Rightarrow> bool" where
  "others_write B (Written event) = B event"
| "others_write B Key_Made = B Create2"
| "others_write B Key_Gone = B Destroy"
| "others_write B _ = True"

fun keeps_key :: "env_event \<Rightarrow> bool" where
  "keeps_key Key_Gone = False"
| "keeps_key (Key_Lost g) = False"
| "keeps_key _ = True"

fun keeps_slot :: "request \<Rightarrow> env_event \<Rightarrow> bool" where
  "keeps_slot r (Abandoned c) = (c \<noteq> rchannel r)"
| "keeps_slot r (Finished q) = (rid q \<noteq> rid r)"
| "keeps_slot r _ = True"

text \<open>What was written since \<open>d0\<close> is an interleaving of other threads' events, all of kind \<open>B\<close>, with events of
  this thread: all of \<open>ks\<close> if the key stayed (\<open>kept\<close>), and some of them, in order, if not.\<close>

definition wrote :: "(uhid_event \<Rightarrow> bool) \<Rightarrow> bool \<Rightarrow> uhid_event list \<Rightarrow> daemon \<Rightarrow> daemon \<Rightarrow> bool" where
  "wrote B kept ks d0 d \<longleftrightarrow> (\<exists>w own others. out d = out d0 @ w \<and> w \<in> shuffles own others
     \<and> (\<forall>e\<in>set others. B e) \<and> subseq own ks \<and> (kept \<longrightarrow> uhid_file d \<and> own = ks))"

lemma shuffles_snoc:
  "w \<in> shuffles xs ys \<Longrightarrow> w @ [z] \<in> shuffles (xs @ [z]) ys \<and> w @ [z] \<in> shuffles xs (ys @ [z])"
proof (induction w arbitrary: xs ys)
  case (Cons a w)
  then show ?case
    using Cons.IH [of "tl xs" ys] Cons.IH [of xs "tl ys"]
    by (auto simp: Cons_in_shuffles_iff simp del: shuffles.simps)
qed simp

lemma wrote_start: "(kept \<longrightarrow> uhid_file d) \<Longrightarrow> wrote B kept [] d d"
  unfolding wrote_def by (rule exI [of _ "[]"], rule exI [of _ "[]"], rule exI [of _ "[]"]) simp

lemma wrote_same:
  "wrote B kept ks d0 d \<Longrightarrow> out e = out d \<Longrightarrow> (kept \<longrightarrow> uhid_file d \<longrightarrow> uhid_file e) \<Longrightarrow> wrote B kept ks d0 e"
  by (auto simp: wrote_def)

lemma wrote_other:
  assumes "wrote B kept ks d0 d" and "out e = out d @ [x]" and "B x" and "kept \<longrightarrow> uhid_file d \<longrightarrow> uhid_file e"
  shows "wrote B kept ks d0 e"
proof -
  obtain w own others where w: "out d = out d0 @ w" "w \<in> shuffles own others" "\<forall>e\<in>set others. B e"
    "subseq own ks" "kept \<longrightarrow> uhid_file d \<and> own = ks"
    using assms(1) unfolding wrote_def by blast
  have s: "w @ [x] \<in> shuffles own (others @ [x])" by (simp add: shuffles_snoc w(2))
  have "out e = out d0 @ (w @ [x])" "\<forall>e\<in>set (others @ [x]). B e" "kept \<longrightarrow> uhid_file e \<and> own = ks"
    using w assms(2-4) by simp_all
  with s w(4) show ?thesis
    unfolding wrote_def by blast
qed

lemma wrote_own:
  assumes "wrote B kept ks d0 d" and "length p \<le> 64"
  shows "wrote B kept (ks @ [Input2 p]) d0 (send_report p d)"
proof -
  obtain w own others where w: "out d = out d0 @ w" "w \<in> shuffles own others" "\<forall>e\<in>set others. B e"
    "subseq own ks" "kept \<longrightarrow> uhid_file d \<and> own = ks"
    using assms(1) unfolding wrote_def by blast
  let ?e = "send_report p d" let ?x = "Input2 p"
  show ?thesis
  proof (cases "uhid_file d")
    case True
    have "w @ [?x] \<in> shuffles (own @ [?x]) others" by (simp add: shuffles_snoc w(2))
    moreover have "out ?e = out d0 @ (w @ [?x])" "subseq (own @ [?x]) (ks @ [?x])"
      "kept \<longrightarrow> uhid_file ?e \<and> own @ [?x] = ks @ [?x]"
      using True w assms(2) by (simp_all add: send_report_def write_uhid_def)
    ultimately show ?thesis unfolding wrote_def using w(3) by blast
  next
    case False
    then have "out ?e = out d0 @ w" "subseq own (ks @ [?x])" "kept \<longrightarrow> uhid_file ?e \<and> own = ks @ [?x]"
      using w by (simp_all add: send_report_def write_uhid_def subseq_rev_drop_many)
    then show ?thesis unfolding wrote_def using w(2,3) by blast
  qed
qed

lemma wrote_reply:
  "wrote B kept ks d0 d \<Longrightarrow> wrote B kept (ks @ map Input2 (reply_packets c cmd x)) d0 (reply c cmd x d)"
proof -
  have "wrote B kept ks d0 d \<Longrightarrow> \<forall>p\<in>set ps. length p \<le> 64 \<Longrightarrow>
      wrote B kept (ks @ map Input2 ps) d0 (fold send_report ps d)" for ks ps
  proof (induction ps arbitrary: ks d)
    case (Cons p ps)
    then show ?case using wrote_own [of B kept ks d0 d p] Cons.IH [of "ks @ [Input2 p]"] by simp
  qed simp
  then show "wrote B kept ks d0 d \<Longrightarrow> wrote B kept (ks @ map Input2 (reply_packets c cmd x)) d0 (reply c cmd x d)"
    using length_reply_packets unfolding reply_def by blast
qed

lemma wrote_env_step:
  assumes "others_write B e" and "kept \<longrightarrow> keeps_key e" and "wrote B kept ks d0 d"
  shows "wrote B kept ks d0 (env_step e d)"
proof (cases "out (env_step e d) = out d")
  case True
  show ?thesis
    using assms(2) by (intro wrote_same [OF assms(3) True]) (cases e; auto simp: upd_link_def send_to_def
      take_response_def set_pending_def begin_request_def abandon_request_def finish_request_def put_partial_def
      write_uhid_def create_uhid_def Let_def split: option.splits)
next
  case False
  have "\<exists>x. out (env_step e d) = out d @ [x] \<and> B x \<and> (kept \<longrightarrow> uhid_file d \<longrightarrow> uhid_file (env_step e d))"
    using False assms(1,2) by (cases e) (auto simp: upd_link_def send_to_def take_response_def set_pending_def
      begin_request_def abandon_request_def finish_request_def put_partial_def write_uhid_def create_uhid_def
      destroy_uhid_def lose_key_def Let_def split: option.splits if_splits)
  then show ?thesis using wrote_other [OF assms(3)] by blast
qed

definition keepalives :: "request \<Rightarrow> nat \<Rightarrow> uhid_event list" where
  "keepalives r n = concat (replicate n (map Input2 (reply_packets (rchannel r) KEEPALIVE [2])))"

definition waits :: "(uhid_event \<Rightarrow> bool) \<Rightarrow> bool \<Rightarrow> request \<Rightarrow> daemon \<Rightarrow> daemon \<Rightarrow> bool" where
  "waits B kept r d0 d \<longleftrightarrow> (\<exists>n. wrote B kept (keepalives r n) d0 d)"

lemma keepalives_snoc: "keepalives r n @ map Input2 (reply_packets (rchannel r) KEEPALIVE [2]) = keepalives r (Suc n)"
  by (simp add: keepalives_def replicate_append_same [symmetric])

lemma waits_start: "(kept \<longrightarrow> uhid_file d) \<Longrightarrow> waits B kept r d d"
  unfolding waits_def by (rule exI [of _ 0]) (simp add: keepalives_def wrote_start)

lemma waits_same:
  "waits B kept r d0 d \<Longrightarrow> out e = out d \<Longrightarrow> (kept \<longrightarrow> uhid_file d \<longrightarrow> uhid_file e) \<Longrightarrow> waits B kept r d0 e"
  unfolding waits_def using wrote_same by blast

interpretation patience: world_invariant "waits B kept r d0" "\<lambda>e. others_write B e \<and> (kept \<longrightarrow> keeps_key e)" r
  for B kept r d0
proof
  show "waits B kept r d0 (env_step e d)"
    if "others_write B e \<and> (kept \<longrightarrow> keeps_key e)" "waits B kept r d0 d" for e d
    using that wrote_env_step unfolding waits_def by blast
  show "waits B kept r d0 (reply (rchannel r) KEEPALIVE [2] d)" if "waits B kept r d0 d" for d
  proof -
    have "\<exists>n. wrote B kept (keepalives r n) d0 d" using that unfolding waits_def .
    then obtain n where "wrote B kept (keepalives r n) d0 d" ..
    from wrote_reply [OF this, of "rchannel r" KEEPALIVE "[2]"] show ?thesis
      unfolding keepalives_snoc waits_def by blast
  qed
qed (erule waits_same; simp add: upd_link_def send_to_def take_response_def set_pending_def)+

interpretation held: world_invariant "\<lambda>d. busy d = Some r" "keeps_slot r" q for r q
proof
  show "busy (env_step e d) = Some r" if "keeps_slot r e" "busy d = Some r" for e d
    using that
    by (cases e) (auto simp: request_is_current_def upd_link_def send_to_def take_response_def set_pending_def
        begin_request_def abandon_request_def finish_request_def put_partial_def write_uhid_def create_uhid_def
        destroy_uhid_def lose_key_def Let_def split: option.splits)
qed (simp_all add: upd_link_def send_to_def take_response_def set_pending_def)

lemma run_env_Nil [simp]: "run_env [] d = d"
  by (simp add: run_env_def)

lemma run_env_wrote:
  "\<forall>e\<in>set es. others_write B e \<and> (kept \<longrightarrow> keeps_key e) \<Longrightarrow> wrote B kept ks d0 d \<Longrightarrow> wrote B kept ks d0 (run_env es d)"
  unfolding run_env_def by (induction es arbitrary: d) (auto intro: wrote_env_step)

lemma write_reports_wrote:
  assumes "\<forall>n. \<forall>e\<in>set (gaps n). others_write B e \<and> (kept \<longrightarrow> keeps_key e)"
  shows "wrote B kept ks d0 d \<Longrightarrow> \<forall>p\<in>set ps. length p \<le> 64 \<Longrightarrow>
    wrote B kept (ks @ map Input2 ps) d0 (write_reports gaps n ps d)"
proof (induction ps arbitrary: n ks d)
  case (Cons p ps)
  have "wrote B kept ks d0 (run_env (gaps n) d)"
    using run_env_wrote assms Cons.prems(1) by blast
  from wrote_own [OF this, of p] Cons.prems(2) Cons.IH [of "ks @ [Input2 p]" _ "Suc n"] show ?case by simp
qed simp

section \<open>One round\<close>

lemma send_targets_lsent:
  "distinct targets \<Longrightarrow> fst (send_targets (\<lambda>_. []) body targets d) = filter (\<lambda>i. lup (heap d i)) targets
    \<and> (\<forall>i. lsent (heap (snd (send_targets (\<lambda>_. []) body targets d)) i)
        = lsent (heap d i) @ (if i \<in> set targets \<and> lup (heap d i) then [frame body] else []))
    \<and> (\<forall>i. quiet_link (heap (snd (send_targets (\<lambda>_. []) body targets d)) i) = quiet_link (heap d i))
    \<and> busy (snd (send_targets (\<lambda>_. []) body targets d)) = busy d"
proof (induction targets arbitrary: d)
  case (Cons j targets)
  have up: "lup (heap (send_to body j d) i) = lup (heap d i)" for i
    by (rule quiet_linkD(5) [OF quiet_send_to])
  have "filter (\<lambda>i. lup (heap (send_to body j d) i)) targets = filter (\<lambda>i. lup (heap d i)) targets"
    by (simp add: up)
  moreover have "busy (send_to body j d) = busy d"
    by (simp add: send_to_def)
  ultimately show ?case
    using Cons by (auto simp: up) (auto simp: send_to_def upd_link_def send_def split: if_splits)
qed simp

lemma withdraw_each_lsent:
  "distinct ls \<Longrightarrow> lsent (heap (withdraw_each (\<lambda>_. []) q ls d) i) =
     lsent (heap d i) @ (if i \<in> set ls \<and> lup (heap d i) then [frame (cancel_message (rnumber q))] else [])"
  by (induction ls arbitrary: d) (auto simp: sent_link)

definition calm_tick :: "tick \<Rightarrow> bool" where
  "calm_tick t \<longleftrightarrow> before t = [] \<and> during t = (\<lambda>_. []) \<and> ending t = [] \<and> leaving t = []"

lemma fan_out_gone:
  assumes "\<not> request_is_current r d" and "calm_tick pause" and "calm_tick t" and "distinct targets"
  shows "\<exists>d'. fan_out r targets data wait_all (pause # t # ts) d = Some ([], [], ts, d')
    \<and> (\<forall>i\<in>set targets. lup (heap d i) \<longrightarrow> lsent (heap d' i)
        = lsent (heap d i) @ [frame (request_message (rnumber r) data), frame (cancel_message (rnumber r))])"
proof -
  let ?f = "fan_start r targets data pause d" let ?s = "send_targets (\<lambda>_. []) (request_message (rnumber r) data) targets d"
  note sent = send_targets_lsent [OF assms(4), of "request_message (rnumber r) data" d]
  note calm = assms(2,3) [unfolded calm_tick_def]
  have "\<not> request_is_current r (world ?f)"
    using assms(1) calm sent by (simp add: request_is_current_def set_pending_def)
  then have "fan_loop r wait_all (t # ts) ?f = Some (?f, t, ts)"
    using calm by simp
  then have "fan_out r targets data wait_all (pause # t # ts) d = Some ([], [], ts, fan_end r t ?f)"
    by (simp del: fan_loop.simps)
  moreover have "lsent (heap (fan_end r t ?f) i)
      = lsent (heap d i) @ [frame (request_message (rnumber r) data), frame (cancel_message (rnumber r))]"
    if "i \<in> set targets" "lup (heap d i)" for i
  proof -
    have "lup (heap (snd ?s) i)"
      using sent that(2) quiet_linkD(5) by blast
    moreover have "distinct (filter (\<lambda>i. lup (heap d i)) targets)"
      using assms(4) by simp
    ultimately show ?thesis
      using that sent calm by (simp add: fan_end_def withdraw_each_lsent)
  qed
  ultimately show ?thesis by blast
qed

abbreviation (input) handler_rounds :: "string option \<Rightarrow> handler_gaps \<Rightarrow> bytes \<Rightarrow> daemon \<Rightarrow> nat list list" where
  "handler_rounds chosen g data d \<equiv> rounds (\<lambda>i. ldevice (heap d i)) (by_device d) chosen (hd data) (silent data)
     (holders (run_env (reading g) d)) (lastdev (run_env (reading g) d))"

lemma handle_cborE:
  assumes "handle_cbor chosen g r data ts d = Some d'"
  obtains payload d1 where "d' = conclude r payload g d1"
    "ask_rounds r data (silent data) (handler_rounds chosen g data d) [] ts (run_env (reading g) d) = Some (payload, d1)"
  using assms by (auto simp: handle_cbor_def Let_def)

lemma handle_rounds_ok:
  "\<forall>targets\<in>set (rounds dev (by_device d) chosen command probe known w).
     distinct targets \<and> set targets \<subseteq> set (by_device d)"
  using rounds_distinct [OF distinct_by_device] rounds_subset by blast

interpretation numbered: world_invariant "\<lambda>d. n < next_rid d" "\<lambda>_. True" r for n r
proof
  show "n < next_rid (env_step e d)" if "n < next_rid d" for e d
    using that
    by (cases e) (auto simp: upd_link_def send_to_def take_response_def set_pending_def begin_request_def
        abandon_request_def finish_request_def put_partial_def write_uhid_def create_uhid_def
        destroy_uhid_def lose_key_def Let_def split: option.splits)
qed (simp_all add: upd_link_def send_to_def take_response_def set_pending_def)

text \<open>A request that is not current at some point of its thread is not current when it looks.\<close>

lemma gone_later:
  assumes ask: "ask_rounds r data (silent data) (handler_rounds chosen g data d) [] ts (run_env (reading g) d) = Some (payload, d1)"
    and "rid r < next_rid d"
  shows "\<not> request_is_current r d \<or> \<not> request_is_current r (run_env (reading g) d) \<or> \<not> request_is_current r d1
      \<Longrightarrow> \<not> request_is_current r (run_env (looking g) d1)"
    and "rid r < next_rid (run_env (looking g) d1)"
proof -
  let ?d0 = "run_env (reading g) d" and ?e = "run_env (looking g) d1"
  have n: "rid r < next_rid ?d0" using assms(2) by (simp add: numbered.run_world)
  then have n1: "rid r < next_rid d1"
    using numbered.ask_rounds_world [OF _ ask] handle_rounds_ok by auto
  then show "rid r < next_rid ?e" by (simp add: numbered.run_world)
  have 0: "gone r ?d0" if "gone r d"
    using that by (simp add: gone.run_world)
  have 1: "gone r d1" if "gone r ?d0"
    using that gone.ask_rounds_world [OF _ ask, of r] handle_rounds_ok by (auto simp: gone_def request_is_current_def)
  have 2: "gone r ?e" if "gone r d1"
    using that by (simp add: gone.run_world)
  show "\<not> request_is_current r d \<or> \<not> request_is_current r ?d0 \<or> \<not> request_is_current r d1
      \<Longrightarrow> \<not> request_is_current r ?e"
    using 0 1 2 n n1 assms(2) unfolding gone_def by blast
qed

lemma handler_returns_aux:
  assumes "4 \<le> length (filter expired ts)"
  shows "\<exists>d'. handle_cbor chosen g r data ts d = Some d'"
proof -
  have "length (handler_rounds chosen g data d) \<le> 2"
    by (rule length_rounds)
  then have "2 * length (handler_rounds chosen g data d) \<le> length (filter expired ts)"
    using assms by linarith
  from ask_rounds_returns [OF this] show ?thesis
    by (auto simp: handle_cbor_def Let_def)
qed

lemma fan_out_winners:
  assumes "fan_out r targets data wait_all ts d = Some (ws, es, rest, d')" and "distinct targets"
  shows "fst ` set ws \<subseteq> set targets"
  using assms
proof (rule fan_out_ok)
  fix pause :: tick and f
  let ?asked = "fst (send_targets (during pause) (request_message (rnumber r) data) targets d)"
  assume "ws = wins f" "fan_ok wait_all ?asked f"
  then have "fst ` set ws \<subseteq> set ?asked"
    unfolding fan_ok_def by blast
  then show ?thesis
    using send_targets_set by fast
qed

section \<open>Properties\<close>

definition no_gaps :: handler_gaps where
  "no_gaps = \<lparr>reading = [], looking = [], writing = (\<lambda>_. []), freeing = []\<rparr>"

lemma no_gaps_allowed [simp]: "gaps_allowed P no_gaps"
  by (simp add: gaps_allowed_def no_gaps_def)

text \<open>C9: every request ends and gives the slot back: whatever the devices do, the handler returns
  once the deadline has passed, and the request is then no longer current.\<close>

theorem handler_returns:
  assumes "4 \<le> length (filter expired ts)"
  shows "\<exists>d'. handle_cbor chosen g r data ts d = Some d' \<and> \<not> request_is_current r d'"
proof -
  obtain d' where run: "handle_cbor chosen g r data ts d = Some d'"
    using handler_returns_aux [OF assms] by blast
  then show ?thesis
    by (rule handle_cborE) (simp add: run conclude_frees)
qed

theorem handler_returns_witness:
  "\<exists>d'. handle_cbor None no_gaps first_request [4] [idle_tick, last_tick, last_tick, last_tick, last_tick] two_phones
    = Some d' \<and> \<not> request_is_current first_request d'"
  by (rule handler_returns) (simp add: last_tick_def)





text \<open>The check and the answer are not one step: an INIT on the request's channel that is handled between
  them, and even a new request that takes the slot then, does not stop the old answer.\<close>

theorem stale_answer_written:
  assumes "busy d = Some r" and "uhid_file d" and "looking g = []"
    and "writing g = (\<lambda>n. if n = 0 then [Abandoned (rchannel r), Began (rchannel r) number data] else [])"
  shows "\<exists>new. busy (offer_answer r payload g d) = Some new \<and> rid new = next_rid d
    \<and> out (offer_answer r payload g d) = out d @ map Input2 (reply_packets (rchannel r) CBOR payload)"
proof -
  let ?d = "run_env [Abandoned (rchannel r), Began (rchannel r) number data] d"
  have later: "write_reports (writing g) (Suc n) ps e = fold send_report ps e" for n ps e
    by (induction ps arbitrary: n e) (simp_all add: assms(4))
  have d: "uhid_file ?d" "out ?d = out d" "\<exists>new. busy ?d = Some new \<and> rid new = next_rid d"
    using assms(1,2) by (simp_all add: run_env_def abandon_request_def begin_request_def Let_def)
  have "write_reports (writing g) 0 (reply_packets (rchannel r) CBOR payload) d = reply (rchannel r) CBOR payload ?d"
    by (simp add: reply_def reply_packets_def later) (simp add: assms(4))
  moreover have "request_is_current r d" by (simp add: request_is_current_def assms(1))
  ultimately have "offer_answer r payload g d = reply (rchannel r) CBOR payload ?d"
    by (simp add: offer_answer_def assms(3))
  then show ?thesis using d by (simp add: reply_eq)
qed

theorem stale_answer_written_witness:
  "\<exists>new. busy (offer_answer first_request [0, 7] (no_gaps\<lparr>writing := (\<lambda>n. if n = 0 then [Abandoned 9, Began 9 2 [4]] else [])\<rparr>)
      two_phones) = Some new \<and> rid new = 1"
proof -
  let ?g = "no_gaps\<lparr>writing := (\<lambda>n. if n = 0 then [Abandoned 9, Began 9 2 [4]] else [])\<rparr>"
  have "busy two_phones = Some first_request" "uhid_file two_phones" "looking ?g = []" "next_rid two_phones = 1"
    "writing ?g = (\<lambda>n. if n = 0 then [Abandoned (rchannel first_request), Began (rchannel first_request) 2 [4]] else [])"
    by (simp_all add: two_phones_def no_gaps_def daemon_new_def cong: if_cong)
  then show ?thesis
    using stale_answer_written [of two_phones first_request ?g 2 "[4]" "[0, 7]"] by metis
qed

text \<open>C24: the user's refusal is final: when a device that was asked answers with
  CTAP2_ERR_OPERATION_DENIED, no success is taken, no further device is asked, and the host is told
  an error that is not "no credentials".\<close>

theorem denial_ends_request:
  assumes "fan_out r targets data False ts d = Some (ws, es, rest, d1)"
    and "distinct targets" and "targets \<noteq> []" and "e \<in> set es" and "hd e = OPERATION_DENIED"
    and "\<forall>e\<in>set errs. e \<noteq> [] \<and> hd e \<noteq> 0"
  shows "ws = [] \<and> (\<exists>payload. ask_rounds r data False (targets # later) errs ts d = Some (payload, d1)
    \<and> payload \<noteq> [] \<and> hd payload \<noteq> 0 \<and> hd payload \<noteq> NO_CREDENTIALS)"
  using assms(1,2)
proof (rule fan_out_ok)
  fix pause :: tick and f
  assume f: "ws = wins f" "es = errors f"
    and ok: "fan_ok False (fst (send_targets (during pause) (request_message (rnumber r) data) targets d)) f"
  have ws: "ws = []" and es: "\<forall>e\<in>set es. e \<noteq> [] \<and> hd e \<noteq> 0"
    using ok f assms(4,5) by (auto simp: fan_ok_def)
  have e: "e \<noteq> []" "hd e \<noteq> NO_CREDENTIALS"
    using es assms(4,5) by auto
  then have stop: "should_stop es"
    using assms(4) by (auto simp: should_stop_def)
  have "List.find (\<lambda>e. e = [] \<or> hd e \<noteq> NO_CREDENTIALS) (errs @ es) \<noteq> None"
    using e assms(4) find_None_all [of _ "errs @ es" e] by auto
  then obtain x where x: "List.find (\<lambda>e. e = [] \<or> hd e \<noteq> NO_CREDENTIALS) (errs @ es) = Some x"
    by blast
  with find_Some_in [OF x] es assms(6) have "final_error (errs @ es) = x" "x \<noteq> []" "hd x \<noteq> 0" "hd x \<noteq> NO_CREDENTIALS"
    by (auto simp: final_error_def)
  then show ?thesis
    using assms(1,3) ws stop by simp
qed

theorem denial_ends_request_witness:
  "\<exists>d1 payload. ask_rounds first_request [2] False [[0, 1], [2]] [] [idle_tick, answer_tick 1 [0x27], last_tick]
      two_phones = Some (payload, d1) \<and> payload \<noteq> [] \<and> hd payload \<noteq> 0 \<and> hd payload \<noteq> NO_CREDENTIALS"
proof -
  let ?ts = "[idle_tick, answer_tick 1 [0x27], last_tick]"
  have "map_option (\<lambda>(ws, es, rest, d). (ws, es)) (fan_out first_request [0, 1] [2] False ?ts two_phones)
      = Some ([], [[0x27]])"
    by code_simp
  then obtain rest d1 where run:
    "fan_out first_request [0, 1] [2] False ?ts two_phones = Some ([], [[0x27]], rest, d1)"
    by (auto simp: map_option_case split: option.splits prod.splits)
  have "\<exists>payload. ask_rounds first_request [2] False [[0, 1], [2]] [] ?ts two_phones = Some (payload, d1)
      \<and> payload \<noteq> [] \<and> hd payload \<noteq> 0 \<and> hd payload \<noteq> NO_CREDENTIALS"
    using denial_ends_request [OF run, of "[0x27]" "[]" "[[2]]"] by (simp del: ask_rounds.simps)
  then show ?thesis by blast
qed

text \<open>Every device is asked once, or by rule not at all: with a chosen device only that one, for
  GetInfo only the first, for GetNextAssertion only the device of the last winner, and otherwise
  each connected device is in exactly one round; known holders of a credential come first.\<close>

theorem rounds_cover:
  assumes "distinct devices"
  shows "let rs = rounds dev devices chosen command probe known w in
    distinct (concat rs) \<and> set (concat rs) \<subseteq> set devices
    \<and> (\<forall>x. chosen = Some x \<longrightarrow> (\<forall>i\<in>set (concat rs). dev i = x)
        \<and> ((\<exists>i\<in>set devices. dev i = x) \<longrightarrow> length (concat rs) = 1))
    \<and> (chosen = None \<and> command = GET_INFO \<longrightarrow> concat rs = take 1 devices)
    \<and> (chosen = None \<and> command = GET_NEXT_ASSERTION \<longrightarrow>
        (\<forall>i\<in>set (concat rs). w = Some (dev i))
        \<and> (w \<in> Some ` dev ` set devices \<longrightarrow> length (concat rs) = 1))
    \<and> (chosen = None \<and> command \<noteq> GET_INFO \<and> command \<noteq> GET_NEXT_ASSERTION \<longrightarrow>
        set (concat rs) = set devices
        \<and> (\<forall>i j. i \<in> set devices \<and> dev i \<in> known \<and> j \<in> set devices \<and> dev j \<notin> known
             \<and> command = GET_ASSERTION \<and> \<not> probe \<longrightarrow> i \<in> set (hd rs) \<and> j \<notin> set (hd rs)))"
proof -
  have found: "length (option_list (find_device dev devices x)) = 1" if "i \<in> set devices" "dev i = x" for i x
    using that by (auto simp: find_device_def option_list_def find_None_iff split: option.splits)
  have in_first: "set (option_list (find_device dev devices x)) \<subseteq> {i \<in> set devices. dev i = x}" for x
    by (auto dest: find_device_Some)
  have next_in: "set (option_list (Option.bind w (find_device dev devices))) \<subseteq> {i \<in> set devices. w = Some (dev i)}"
    by (cases w) (auto dest: find_device_Some)
  have next_found: "length (option_list (Option.bind w (find_device dev devices))) = 1"
    if "w \<in> Some ` dev ` set devices"
    using that found by auto
  let ?rs = "rounds dev devices chosen command probe known w"
  consider (chosen) x where "chosen = Some x"
    | (info) "chosen = None" "command = GET_INFO"
    | (following) "chosen = None" "command = GET_NEXT_ASSERTION"
    | (holders) "chosen = None" "command = GET_ASSERTION" "\<not> probe" "\<exists>i\<in>set devices. dev i \<in> known"
    | (all) "chosen = None" "command \<noteq> GET_INFO" "command \<noteq> GET_NEXT_ASSERTION"
        "\<not> (command = GET_ASSERTION \<and> \<not> probe \<and> (\<exists>i\<in>set devices. dev i \<in> known))"
    by (cases chosen) blast+
  then show ?thesis
  proof cases
    case (chosen x)
    then have "?rs = [option_list (find_device dev devices x)]"
      by (simp add: rounds_def)
    with chosen in_first [of x] found [of _ x] show ?thesis by (auto simp: Let_def)
  next
    case info
    then have "?rs = [take 1 devices]"
      by (simp add: rounds_def)
    with info assms show ?thesis by (auto simp: Let_def dest: in_set_takeD)
  next
    case following
    then have "?rs = [option_list (Option.bind w (find_device dev devices))]"
      by (simp add: rounds_def)
    with following next_in next_found show ?thesis by (auto simp: Let_def)
  next
    case holders
    then have rs: "?rs = [filter (\<lambda>i. dev i \<in> known) devices, filter (\<lambda>i. dev i \<notin> known) devices]"
      by (simp add: rounds_def)
    show ?thesis
      unfolding rs Let_def using holders(1,2) assms by auto
  next
    case all
    then have rs: "?rs = [devices]"
      by (simp add: rounds_def)
    have no: "command \<noteq> GET_ASSERTION \<or> probe \<or> dev i \<notin> known" if "i \<in> set devices" for i
      using all(4) that by blast
    show ?thesis
      unfolding rs Let_def
    proof (intro conjI impI allI)
      fix i j
      assume "i \<in> set devices \<and> dev i \<in> known \<and> j \<in> set devices \<and> dev j \<notin> known
          \<and> command = GET_ASSERTION \<and> \<not> probe"
      then have False using no [of i] by blast
      then show "i \<in> set (hd [devices])" "j \<notin> set (hd [devices])" by simp_all
    qed (use all(1-3) assms in simp_all)
  qed
qed

theorem rounds_cover_witness:
  "concat (rounds (\<lambda>i. if i = 0 then ''a'' else ''b'') [0, 1 :: nat] None GET_ASSERTION False {''b''} None) = [1, 0]
    \<and> distinct (concat (rounds (\<lambda>i. if i = 0 then ''a'' else ''b'') [0, 1] None GET_ASSERTION False {''b''} None))"
proof
  show "distinct (concat (rounds (\<lambda>i. if i = 0 then ''a'' else ''b'') [0, 1 :: nat] None GET_ASSERTION False {''b''} None))"
    by (rule conjunct1 [OF rounds_cover [unfolded Let_def]]) simp
qed (simp add: rounds_def)



text \<open>A request that is already given up, or that is given up between two rounds, is still sent
  to every device of the round and withdrawn again at once: the loop over the rounds does not look
  at the slot before it sends.\<close>

theorem asks_although_gone:
  assumes "\<not> request_is_current r d" and "calm_tick pause" and "calm_tick t" and "distinct targets"
  shows "\<exists>d'. fan_out r targets data wait_all (pause # t # ts) d = Some ([], [], ts, d')
    \<and> (\<forall>i\<in>set targets. lup (heap d i) \<longrightarrow> lsent (heap d' i)
        = lsent (heap d i) @ [frame (request_message (rnumber r) data), frame (cancel_message (rnumber r))])"
  using assms by (rule fan_out_gone)

theorem asks_although_gone_witness:
  "\<exists>d'. fan_out first_request [0, 1] [2] False [idle_tick, idle_tick] (two_phones\<lparr>busy := None\<rparr>) = Some ([], [], [], d')
    \<and> lsent (heap d' 1) = [frame (request_message 1 [2]), frame (cancel_message 1)]"
  using asks_although_gone [of first_request "two_phones\<lparr>busy := None\<rparr>" idle_tick idle_tick "[0, 1]" "[2]" False "[]"]
  by (simp add: request_is_current_def idle_tick_def calm_tick_def) (auto simp: two_phones_def daemon_new_def link_new_def)

text \<open>A cancellation that comes while the request is still being sent to the devices is lost: no
  device is registered as pending yet, so nothing is withdrawn and the request goes on.\<close>

theorem early_cancel_lost:
  assumes "busy d = Some r" and "pendings d (rid r) = []"
  shows "packet (pad64 (first_packet (rchannel r) CANCEL_CMD [])) d = d"
proof -
  have "packet (pad64 (first_packet (rchannel r) CANCEL_CMD [])) d = cancel (Some (rchannel r)) False d"
    by (simp add: packet_def pad64_def first_packet_def codec nth_append Let_def)
  with assms show ?thesis
    by (simp add: cancel_def withdraw_def)
qed

theorem early_cancel_lost_witness:
  "packet (pad64 (first_packet 9 CANCEL_CMD [])) two_phones = two_phones"
  using early_cancel_lost [of two_phones first_request] by (simp add: two_phones_def daemon_new_def)

end
