(* ===== verification/Connections.thy ===== *)
theory Connections
  imports Handler
begin

text \<open>
  What the rest of the system sees of the connections: the file of connected devices and how the
  command line reads it and chooses a device (src/src/daemon.rs: \<open>publish\<close>, \<open>chosen_device\<close>;
  src/src/cli.rs: \<open>connected_devices\<close>, \<open>select_connection\<close>, \<open>root_use\<close>), the virtual key that
  exists while a device is connected, and the keep-alive pass.
\<close>

section \<open>The command line's side\<close>

definition device_line :: "string \<Rightarrow> (string \<times> string) option" where
  "device_line line =
     (let (device, label) = (case split_once TAB line of Some p \<Rightarrow> p | None \<Rightarrow> (line, line))
      in if device \<noteq> [] then Some (device, label) else None)"

definition connected_devices :: "string \<Rightarrow> (string \<times> string) list" where
  "connected_devices text = List.map_filter device_line (str_lines text)"

datatype select_error = SeveralDevices | NoDeviceChosen

text \<open>\<open>select_connection\<close>; \<open>answers\<close> are the lines typed, up to the end of the input.\<close>

fun ask_number :: "(string \<times> string) list \<Rightarrow> string list
    \<Rightarrow> select_error + (string \<times> string) option" where
  "ask_number devices [] = Inl NoDeviceChosen"
| "ask_number devices (answer # answers) =
     (case parse_unsigned (2 ^ 64 - 1) (trim answer) of
        None \<Rightarrow> ask_number devices answers
      | Some index \<Rightarrow>
          if index - 1 < length devices then Inr (Some (devices ! (index - 1)))
          else ask_number devices answers)"

definition select_connection :: "bool \<Rightarrow> (string \<times> string) list \<Rightarrow> string list
    \<Rightarrow> select_error + (string \<times> string) option" where
  "select_connection terminal devices answers =
     (if length devices \<le> 1 then Inr (case devices of [] \<Rightarrow> None | x # _ \<Rightarrow> Some x)
      else if \<not> terminal then Inl SeveralDevices
      else ask_number devices answers)"

text \<open>The file \<open>root_use\<close> writes, and \<open>chosen_device\<close>, which reads it; \<open>alive\<close> says which processes
  exist.\<close>

definition root_use_text :: "string \<Rightarrow> string \<Rightarrow> string" where
  "root_use_text device pid = device @ CHR '' '' # pid @ [NL]"

definition chosen_device :: "(nat \<Rightarrow> bool) \<Rightarrow> string \<Rightarrow> string option" where
  "chosen_device alive text =
     (case split_whitespace text of
        device # pid # _ \<Rightarrow>
          (case parse_unsigned (2 ^ 32 - 1) pid of
             None \<Rightarrow> None
           | Some p \<Rightarrow> if alive p then Some device else None)
      | _ \<Rightarrow> None)"

text \<open>A pass of \<open>update_loop\<close>: whether the daemon ends, so that its new version is started; \<open>exe\<close> is what the
  kernel says of its program.\<close>

definition update_pass :: "string option \<Rightarrow> daemon \<Rightarrow> bool" where
  "update_pass exe d =
     (case exe of None \<Rightarrow> False | Some path \<Rightarrow> strip_suffix '' (deleted)'' path \<noteq> None \<and> busy d = None)"

lemma update_spares_requests: "update_pass exe d \<Longrightarrow> \<not> request_is_current request d"
  by (auto simp: update_pass_def request_is_current_def split: option.splits)

section \<open>The devices of the live links\<close>

lemma live_links_set: "set (live_links d) = {i \<in> set (links d). lalive (heap d i)}"
  by (simp add: live_links_def)

lemma by_device_sorted: "sorted (map (\<lambda>i. lpriority (heap d i)) (by_device d))"
  by (simp add: by_device_def retain_first_sorted)

lemma by_device_devices:
  "(\<lambda>i. ldevice (heap d i)) ` set (by_device d) = (\<lambda>i. ldevice (heap d i)) ` set (live_links d)"
  using retain_first_keys [of "\<lambda>i. ldevice (heap d i)" "{}" "sort_key (\<lambda>i. lpriority (heap d i)) (live_links d)"]
  by (simp add: by_device_def)

lemma by_device_least:
  "i \<in> set (by_device d) \<Longrightarrow> j \<in> set (live_links d) \<Longrightarrow> ldevice (heap d j) = ldevice (heap d i)
    \<Longrightarrow> lpriority (heap d i) \<le> lpriority (heap d j)"
  unfolding by_device_def
  by (rule retain_first_least [where f = "\<lambda>i. lpriority (heap d i)" and key = "\<lambda>i. ldevice (heap d i)"
        and xs = "sort_key (\<lambda>i. lpriority (heap d i)) (live_links d)" and seen = "{}"]) simp_all

lemma publish_text_by_device:
  "publish_text d = unlines (map (\<lambda>i. ldevice (heap d i) @ TAB # llabel (heap d i)) (by_device d))"
  by (simp add: publish_text_def by_device_def unlines_def comp_def)

text \<open>What \<open>link_new\<close> makes of a label never breaks the file.\<close>

definition clean_label :: "string \<Rightarrow> bool" where
  "clean_label label \<longleftrightarrow> (\<exists>raw. label = join_with '' '' (split_whitespace raw))"

lemma clean_label_chars: "clean_label label \<Longrightarrow> c \<in> set label \<Longrightarrow> c = CHR '' '' \<or> \<not> ascii_space c"
  using set_join_with [of "'' ''"] split_whitespace_pieces
  by (fastforce simp: clean_label_def)

lemma clean_label_link_new: "clean_label (llabel (link_new name priority label device))"
  by (auto simp: link_new_def clean_label_def)

lemma clean_label_plain: "clean_label label \<Longrightarrow> c \<in> set label \<Longrightarrow> c \<noteq> NL \<and> c \<noteq> CR"
  using clean_label_chars [of label c] by (auto simp: ascii_space_def)

definition device_id_ok :: "string \<Rightarrow> bool" where
  "device_id_ok device \<longleftrightarrow> device \<noteq> [] \<and> TAB \<notin> set device \<and> NL \<notin> set device"

lemma connected_devices_unlines:
  assumes "\<forall>p\<in>set ps. device_id_ok (fst p) \<and> clean_label (snd p)"
  shows "connected_devices (unlines (map (\<lambda>p. fst p @ TAB # snd p) ps)) = ps"
proof -
  have "plain_line (fst p @ TAB # snd p)" if "p \<in> set ps" for p
  proof -
    have "last (fst p @ TAB # snd p) \<noteq> CR"
      using that assms clean_label_plain [of "snd p" "last (snd p)"] by (cases "snd p = []") auto
    moreover have "NL \<notin> set (snd p)"
      using that assms clean_label_plain [of "snd p" NL] by blast
    ultimately show ?thesis
      using that assms by (auto simp: plain_line_def device_id_ok_def)
  qed
  then have "str_lines (unlines (map (\<lambda>p. fst p @ TAB # snd p) ps)) = map (\<lambda>p. fst p @ TAB # snd p) ps"
    by (intro lines_unlines) auto
  moreover have "List.map_filter device_line (map (\<lambda>p. fst p @ TAB # snd p) ps) = ps"
    using assms by (induction ps) (auto simp: map_filter_simps device_line_def text_rt device_id_ok_def)
  ultimately show ?thesis
    by (simp add: connected_devices_def)
qed

lemma connected_devices_published:
  assumes "\<forall>i\<in>set (live_links d). device_id_ok (ldevice (heap d i)) \<and> clean_label (llabel (heap d i))"
  shows "connected_devices (publish_text d)
    = map (\<lambda>i. (ldevice (heap d i), llabel (heap d i))) (by_device d)"
proof -
  have "connected_devices (unlines (map (\<lambda>p. fst p @ TAB # snd p)
      (map (\<lambda>i. (ldevice (heap d i), llabel (heap d i))) (by_device d))))
    = map (\<lambda>i. (ldevice (heap d i), llabel (heap d i))) (by_device d)"
    using assms by_device_live [of d] by (intro connected_devices_unlines) auto
  then show ?thesis
    by (simp add: publish_text_by_device comp_def)
qed

section \<open>Operations on the table, cut at their locks\<close>

text \<open>
  Where a thread is in \<open>add\<close>, \<open>remove\<close> or the end of \<open>read_uhid\<close> once it has changed the table, or the state of the
  key: \<open>publish\<close> collects the devices under the lock of the table and replaces the file later; \<open>sync_uhid\<close> looks at
  the table, cancels the request (reading the slot, its pending devices, and sending to each) and
  destroys the key, or creates it.  \<open>next_step\<close> is one of these steps.
\<close>

datatype phase =
    Resting
  | Publishing
  | Storing string
  | Syncing
  | Cancelling
  | Looking_Up request
  | Withdrawing request "nat list"
  | Destroying
  | Creating

fun next_step :: "phase \<Rightarrow> daemon \<Rightarrow> phase \<times> daemon" where
  "next_step Resting d = (Resting, d)"
| "next_step Publishing d = (Storing (publish_text d), d)"
| "next_step (Storing text) d = (Syncing, if can_write_state d then d\<lparr>devices_file := text\<rparr> else d)"
| "next_step Syncing d = (if live_links d = [] then Cancelling else Creating, d)"
| "next_step Cancelling d = (case busy d of None \<Rightarrow> Destroying | Some request \<Rightarrow> Looking_Up request, d)"
| "next_step (Looking_Up request) d = (Withdrawing request (pendings d (rid request)), d)"
| "next_step (Withdrawing request []) d = (Destroying, d)"
| "next_step (Withdrawing request (i # ls)) d =
     (Withdrawing request ls, send_to (cancel_message (rnumber request)) i d)"
| "next_step Destroying d = (Resting, destroy_uhid d)"
| "next_step Creating d = (Resting, create_uhid d)"

text \<open>What threads that are in none of these operations do, a step at a time.\<close>

fun outside_table :: "env_event \<Rightarrow> bool" where
  "outside_table (Pushed i) = False"
| "outside_table (Dropped i) = False"
| "outside_table (Published text) = False"
| "outside_table Key_Made = False"
| "outside_table Key_Gone = False"
| "outside_table (Key_Lost g) = False"
| "outside_table e = True"

text \<open>
  Runs with one such operation at a time: a new link is pushed by \<open>add\<close>, the reader of a link closes it and
  takes it out, the reader of the kernel device loses its file; the operation goes on step by step,
  and between its steps all other threads do what they like: they make links, close them, answer,
  send, and handle packets.  The state directory is writable and /dev/uhid can be opened.
\<close>

inductive table_run :: "phase \<Rightarrow> daemon \<Rightarrow> bool" where
  start: "table_run Resting (daemon_new pid store)"
| pushed: "table_run Resting d \<Longrightarrow> i \<notin> set (links d) \<Longrightarrow> table_run Publishing (d\<lparr>links := links d @ [i]\<rparr>)"
| dropped: "table_run Resting d \<Longrightarrow> i \<in> set (links d) \<Longrightarrow> \<not> lalive (heap d i)
    \<Longrightarrow> table_run Publishing (d\<lparr>links := filter (\<lambda>j. j \<noteq> i) (links d)\<rparr>)"
| key_lost: "table_run Resting d \<Longrightarrow> generation d = g \<Longrightarrow> table_run Syncing (lose_key g d)"
| made: "table_run phase d \<Longrightarrow> i \<notin> set (links d) \<Longrightarrow> table_run phase (upd_link i (\<lambda>_. l) d)"
| other: "table_run phase d \<Longrightarrow> outside_table e \<Longrightarrow> table_run phase (env_step e d)"
| own: "table_run phase d \<Longrightarrow> table_run (fst (next_step phase d)) (snd (next_step phase d))"

text \<open>Undisturbed, the steps are \<open>sync_uhid\<close> and \<open>publish\<close>, and so \<open>add\<close> and \<open>remove\<close>.\<close>

lemma withdrawing_run:
  "table_run (Withdrawing r ls) d \<Longrightarrow> table_run Destroying (withdraw r ls d)"
proof (induction ls arbitrary: d)
  case Nil
  then show ?case using own [OF Nil] by (simp add: withdraw_def)
next
  case (Cons i ls)
  have "table_run (Withdrawing r ls) (send_to (cancel_message (rnumber r)) i d)"
    using own [OF Cons.prems] by simp
  from Cons.IH [OF this] show ?case by (simp add: withdraw_def)
qed

lemma syncing_run:
  assumes "table_run Syncing d"
  shows "table_run Resting (sync_uhid d)"
proof (cases "live_links d = []")
  case True
  have c: "table_run Cancelling d" using own [OF assms] True by simp
  have "table_run Destroying (cancel None False d)"
  proof (cases "busy d")
    case None
    then show ?thesis using own [OF c] by (simp add: cancel_def)
  next
    case (Some r)
    then have "table_run (Looking_Up r) d" using own [OF c] by simp
    from own [OF this] have "table_run (Withdrawing r (pendings d (rid r))) d" by simp
    from withdrawing_run [OF this] show ?thesis using Some by (simp add: cancel_def Let_def)
  qed
  from own [OF this] show ?thesis using True by (simp add: sync_uhid_def)
next
  case False
  have "table_run Creating d" using own [OF assms] False by simp
  from own [OF this] show ?thesis using False by (simp add: sync_uhid_def)
qed

lemma publishing_run:
  assumes "table_run Publishing d"
  shows "table_run Resting (sync_uhid (publish d))"
proof -
  have "table_run (Storing (publish_text d)) d" using own [OF assms] by simp
  from own [OF this] have "table_run Syncing (publish d)" by (simp add: publish_def)
  then show ?thesis by (rule syncing_run)
qed

lemma add_run: "table_run Resting d \<Longrightarrow> i \<notin> set (links d) \<Longrightarrow> table_run Resting (add True i d)"
  unfolding add_def if_True by (rule publishing_run [OF pushed])

lemma remove_run:
  assumes "table_run Resting d" and "\<not> lalive (heap d i)"
  shows "table_run Resting (remove i d)"
proof (cases "i \<in> set (links d)")
  case True
  then have "length (filter (\<lambda>j. j \<noteq> i) (links d)) \<noteq> length (links d)"
    by (metis (mono_tags, lifting) filter_id_conv length_filter_less nat_neq_iff)
  then show ?thesis
    using publishing_run [OF dropped [OF assms(1) True assms(2)]] by (simp add: remove_def Let_def)
next
  case False
  then have "filter (\<lambda>j. j \<noteq> i) (links d) = links d" by (auto simp: filter_id_conv)
  then show ?thesis using assms(1) by (simp add: remove_def Let_def)
qed

lemma close_run: "table_run phase d \<Longrightarrow> table_run phase (upd_link i close d)"
proof -
  assume r: "table_run phase d"
  let ?e = "env_step (Arrive i (Response 0 [])) (env_step (Shut i) (env_step (Dead i) d))"
  have "table_run phase ?e" by (intro other r) simp_all
  moreover have "upd_link i close d = (if lalive (heap d i) then ?e else d)"
    by (simp add: upd_link_def close_def)
  ultimately show ?thesis using r by simp
qed

section \<open>The invariant of these runs\<close>

text \<open>What steps outside of these operations keep.\<close>

definition same_view :: "daemon \<Rightarrow> daemon \<Rightarrow> bool" where
  "same_view d e \<longleftrightarrow> links e = links d \<and> uhid_file e = uhid_file d \<and> devices_file e = devices_file d
     \<and> can_open_uhid e = can_open_uhid d \<and> can_write_state e = can_write_state d
     \<and> (\<forall>j\<in>set (links d). (lalive (heap e j) \<longrightarrow> lalive (heap d j)) \<and> ldevice (heap e j) = ldevice (heap d j)
          \<and> llabel (heap e j) = llabel (heap d j) \<and> lpriority (heap e j) = lpriority (heap d j))"

lemma same_view_env_step: "outside_table e \<Longrightarrow> same_view d (env_step e d)"
proof (cases e)
  case (Arrive i event)
  then show ?thesis by (cases event) (simp_all add: same_view_def upd_link_def)
qed (auto simp: same_view_def upd_link_def send_to_def send_def take_response_def try_recv_def set_pending_def
      begin_request_def abandon_request_def finish_request_def put_partial_def write_uhid_def Let_def
      split: option.splits list.splits)

lemma same_view_send: "same_view d (send_to body i d)"
  by (auto simp: same_view_def upd_link_def send_to_def send_def)

lemma live_links_all: "\<forall>i\<in>set (links d). lalive (heap d i) \<Longrightarrow> live_links d = links d"
  by (simp add: live_links_def)

lemma live_links_some: "live_links d \<noteq> [] \<longleftrightarrow> (\<exists>i\<in>set (links d). lalive (heap d i))"
  by (simp add: live_links_def filter_empty_conv)

lemma insort_key_agree: "\<forall>y\<in>set (x # ys). f y = g y \<Longrightarrow> insort_key f x ys = insort_key g x ys"
  by (induction ys) auto

lemma sort_key_agree: "\<forall>y\<in>set ys. f y = g y \<Longrightarrow> sort_key f ys = sort_key g ys"
proof (induction ys)
  case (Cons x ys)
  then have "insort_key f x (sort_key g ys) = insort_key g x (sort_key g ys)" by (intro insort_key_agree) simp
  with Cons show ?case by simp
qed simp

text \<open>While all links are live, such steps leave the text of the devices.\<close>

lemma same_view_text:
  assumes "same_view d e" and "\<forall>j\<in>set (links d). lalive (heap e j)"
  shows "publish_text e = publish_text d"
proof -
  have v: "links e = links d"
    "\<forall>j\<in>set (links d). lalive (heap d j) \<and> ldevice (heap e j) = ldevice (heap d j)
      \<and> llabel (heap e j) = llabel (heap d j) \<and> lpriority (heap e j) = lpriority (heap d j)"
    using assms unfolding same_view_def by blast+
  have l: "live_links e = links d" "live_links d = links d"
    using assms(2) v by (simp_all add: live_links_def)
  have s: "sort_key (\<lambda>j. lpriority (heap e j)) (links d) = sort_key (\<lambda>j. lpriority (heap d j)) (links d)"
    using v(2) by (intro sort_key_agree) simp
  have r: "retain_first (\<lambda>j. ldevice (heap e j)) seen xs = retain_first (\<lambda>j. ldevice (heap d j)) seen xs"
    if "set xs \<subseteq> set (links d)" for seen xs
    using that v(2) by (induction xs arbitrary: seen) auto
  let ?ls = "retain_first (\<lambda>j. ldevice (heap d j)) {} (sort_key (\<lambda>j. lpriority (heap d j)) (links d))"
  have "set ?ls \<subseteq> set (links d)"
    using retain_first_set [of "\<lambda>j. ldevice (heap d j)" "{}" "sort_key (\<lambda>j. lpriority (heap d j)) (links d)"] by simp
  then have m: "j \<in> set ?ls \<Longrightarrow> ldevice (heap e j) = ldevice (heap d j) \<and> llabel (heap e j) = llabel (heap d j)" for j
    using v(2) by blast
  have "retain_first (\<lambda>j. ldevice (heap e j)) {} (sort_key (\<lambda>j. lpriority (heap d j)) (links d)) = ?ls"
    by (rule r) simp
  then show ?thesis
    unfolding publish_text_def l s using m by (simp cong: map_cong)
qed

text \<open>The invariant: what the file says is checked only while all links are live.\<close>

abbreviation (input) all_live :: "daemon \<Rightarrow> bool" where
  "all_live d \<equiv> (\<forall>i\<in>set (links d). lalive (heap d i))"

fun phase_ok :: "phase \<Rightarrow> daemon \<Rightarrow> bool" where
  "phase_ok Resting d = ((live_links d \<noteq> [] \<longrightarrow> uhid_file d) \<and> (uhid_file d \<longrightarrow> links d \<noteq> [])
     \<and> (all_live d \<longrightarrow> devices_file d = publish_text d))"
| "phase_ok Publishing d = True"
| "phase_ok (Storing text) d = (all_live d \<longrightarrow> text = publish_text d)"
| "phase_ok Syncing d = (all_live d \<longrightarrow> devices_file d = publish_text d)"
| "phase_ok Creating d = (links d \<noteq> [] \<and> (all_live d \<longrightarrow> devices_file d = publish_text d))"
| "phase_ok _ d = (live_links d = [] \<and> (all_live d \<longrightarrow> devices_file d = publish_text d))"

definition table_ok :: "phase \<Rightarrow> daemon \<Rightarrow> bool" where
  "table_ok phase d \<longleftrightarrow> can_open_uhid d \<and> can_write_state d \<and> distinct (links d) \<and> phase_ok phase d"

lemma table_ok_view:
  assumes "same_view d e" and "table_ok phase d"
  shows "table_ok phase e"
proof -
  have l: "links e = links d" and f: "uhid_file e = uhid_file d" "devices_file e = devices_file d"
      "can_open_uhid e = can_open_uhid d" "can_write_state e = can_write_state d"
    and a: "all_live e \<longrightarrow> all_live d" and n: "live_links e \<noteq> [] \<longrightarrow> live_links d \<noteq> []"
    using assms(1) unfolding same_view_def live_links_some by (blast, blast, blast, blast, blast, metis, metis)
  have t: "all_live e \<longrightarrow> publish_text e = publish_text d"
    using same_view_text [OF assms(1)] l by simp
  show ?thesis
    using assms(2) a n t unfolding table_ok_def l f by (cases phase) (auto simp: l f)
qed

text \<open>What is outside the table does not show.\<close>

lemma same_view_made: "i \<notin> set (links d) \<Longrightarrow> same_view d (upd_link i f d)"
  by (auto simp: same_view_def upd_link_def)

lemma key_fields:
  "links (destroy_uhid d) = links d" "heap (destroy_uhid d) = heap d" "devices_file (destroy_uhid d) = devices_file d"
  "can_open_uhid (destroy_uhid d) = can_open_uhid d" "can_write_state (destroy_uhid d) = can_write_state d"
  "\<not> uhid_file (destroy_uhid d)"
  "links (create_uhid d) = links d" "heap (create_uhid d) = heap d" "devices_file (create_uhid d) = devices_file d"
  "can_open_uhid (create_uhid d) = can_open_uhid d" "can_write_state (create_uhid d) = can_write_state d"
  "can_open_uhid d \<Longrightarrow> uhid_file (create_uhid d)"
  by (simp_all add: destroy_uhid_def create_uhid_def)

lemma text_cong: "heap e = heap d \<Longrightarrow> links e = links d \<Longrightarrow> publish_text e = publish_text d"
  by (simp add: publish_text_def live_links_def)

lemma live_cong: "heap e = heap d \<Longrightarrow> links e = links d \<Longrightarrow> live_links e = live_links d"
  by (simp add: live_links_def)

lemma table_ok_own:
  assumes "table_ok phase d"
  shows "table_ok (fst (next_step phase d)) (snd (next_step phase d))"
proof (cases "(phase, d)" rule: next_step.cases)
  case (8 r i ls d')
  then show ?thesis using table_ok_view [OF same_view_send, of phase d] assms by (simp add: table_ok_def)
next
  case (9 d')
  then show ?thesis
    using assms by (auto simp: table_ok_def key_fields text_cong [of "destroy_uhid d'" d'] live_cong [of "destroy_uhid d'" d'])
next
  case (10 d')
  then show ?thesis
    using assms by (auto simp: table_ok_def key_fields text_cong [of "create_uhid d'" d'] live_cong [of "create_uhid d'" d'])
qed (use assms in \<open>auto simp: table_ok_def live_links_def publish_text_def split: option.splits\<close>)

lemma table_run_ok: "table_run phase d \<Longrightarrow> table_ok phase d"
proof (induction rule: table_run.induct)
  case (start pid store)
  show ?case by (simp add: table_ok_def daemon_new_def live_links_def publish_text_def)
next
  case (key_lost d g)
  have "heap (lose_key g d) = heap d" "links (lose_key g d) = links d"
    by (simp_all add: lose_key_def)
  then show ?case
    using key_lost text_cong [of "lose_key g d" d] by (simp add: table_ok_def) (simp add: lose_key_def)
next
  case (made phase d i l)
  then show ?case by (intro table_ok_view [OF same_view_made])
next
  case (other phase d e)
  then show ?case by (intro table_ok_view [OF same_view_env_step])
next
  case (own phase d)
  then show ?case by (intro table_ok_own)
qed (simp_all add: table_ok_def)

section \<open>Two operations at once\<close>

text \<open>The steps of two threads, in the order given: \<open>True\<close> is a step of the first.\<close>

fun interleave :: "bool list \<Rightarrow> phase \<times> phase \<times> daemon \<Rightarrow> phase \<times> phase \<times> daemon" where
  "interleave [] s = s"
| "interleave (True # order) (p, q, d) = (let (p', d') = next_step p d in interleave order (p', q, d'))"
| "interleave (False # order) (p, q, d) = (let (q', d') = next_step q d in interleave order (p, q', d'))"

section \<open>A keep-alive pass\<close>

lemma ping_fst: "fst (ping answered l) = (lup l \<and> answered)"
  by (simp add: ping_def send_def Let_def)

lemma lalive_ping: "lalive (snd (ping answered l)) = lalive l"
  by (simp add: ping_def send_def Let_def)

definition keepalive_step :: "(nat \<Rightarrow> bool) \<Rightarrow> nat \<Rightarrow> daemon \<Rightarrow> daemon" where
  "keepalive_step answered i d =
     upd_link i (\<lambda>_. if fst (ping (answered i) (heap d i)) then snd (ping (answered i) (heap d i))
       else close (snd (ping (answered i) (heap d i)))) d"

lemma keepalive_pass_steps: "keepalive_pass answered d = fold (keepalive_step answered) (live_links d) d"
  unfolding keepalive_pass_def
  by (intro fold_cong refl ext) (simp add: keepalive_step_def split_def Let_def)

lemma heap_keepalive_step:
  "heap (keepalive_step answered i d) j = (if j = i then
     (if fst (ping (answered i) (heap d i)) then snd (ping (answered i) (heap d i))
      else close (snd (ping (answered i) (heap d i)))) else heap d j)"
  by (simp add: keepalive_step_def upd_link_def)

lemma lalive_close: "\<not> lalive (close l)"
  by (simp add: close_def)

lemma keepalive_fold:
  "distinct is \<Longrightarrow> lalive (heap (fold (keepalive_step answered) is d) j) =
     (if j \<in> set is then lup (heap d j) \<and> answered j \<and> lalive (heap d j) else lalive (heap d j))"
proof (induction "is" arbitrary: d)
  case (Cons i "is")
  then show ?case
    by (auto simp: heap_keepalive_step ping_fst lalive_ping lalive_close)
qed simp

section \<open>Properties\<close>

text \<open>The daemon asks every connected device over exactly one connection: no two links it asks
  belong to one device, every device with a live link is there, and each is asked over its best
  live link (USB before Wi-Fi before Bluetooth), the devices in that order too.\<close>

theorem by_device_best:
  shows "distinct (map (\<lambda>i. ldevice (heap d i)) (by_device d))
    \<and> sorted (map (\<lambda>i. lpriority (heap d i)) (by_device d))
    \<and> set (by_device d) \<subseteq> {i \<in> set (links d). lalive (heap d i)}
    \<and> (\<forall>j\<in>set (links d). lalive (heap d j) \<longrightarrow>
        (\<exists>i\<in>set (by_device d). ldevice (heap d i) = ldevice (heap d j)
          \<and> lpriority (heap d i) \<le> lpriority (heap d j)))"
proof (intro conjI ballI impI)
  show "distinct (map (\<lambda>i. ldevice (heap d i)) (by_device d))" by (rule by_device_distinct)
  show "sorted (map (\<lambda>i. lpriority (heap d i)) (by_device d))" by (rule by_device_sorted)
  show "set (by_device d) \<subseteq> {i \<in> set (links d). lalive (heap d i)}"
    using by_device_live live_links_set by blast
  fix j
  assume "j \<in> set (links d)" "lalive (heap d j)"
  then have j: "j \<in> set (live_links d)" by (simp add: live_links_set)
  then obtain i where i: "i \<in> set (by_device d)" "ldevice (heap d i) = ldevice (heap d j)"
    using by_device_devices [of d] by (metis (mono_tags, lifting) imageE imageI)
  with by_device_least [OF i(1) j] show "\<exists>i\<in>set (by_device d). ldevice (heap d i) = ldevice (heap d j)
      \<and> lpriority (heap d i) \<le> lpriority (heap d j)"
    by metis
qed

theorem by_device_best_witness:
  "\<exists>i\<in>set (by_device two_phones). ldevice (heap two_phones i) = ''usb:2''"
proof -
  have "1 \<in> set (links two_phones)" "lalive (heap two_phones 1)" "ldevice (heap two_phones 1) = ''usb:2''"
    by (simp_all add: two_phones_def daemon_new_def link_new_def)
  with by_device_best [of two_phones] show ?thesis by metis
qed



text \<open>Two operations that overlap can leave a connected device without a key: the reader of the last
  link takes it out and finds no live link; a new link is added, and its thread finds the key still
  there; then the first thread destroys it.  Both operations are over, and nothing repairs it until
  the next connection comes or goes.\<close>

theorem overlap_loses_key:
  assumes "links d = [j]" and "\<not> lalive (heap d j)" and "uhid_file d" and "busy d = None"
    and "lalive (heap d i)" and "can_write_state d"
  defines "d1 \<equiv> d\<lparr>links := filter (\<lambda>k. k \<noteq> j) (links d)\<rparr>"
  shows "\<exists>d2 d'. interleave [True, True, True, True] (Publishing, Resting, d1) = (Destroying, Resting, d2)
    \<and> interleave [False, False, False, False, True] (Destroying, Publishing, d2\<lparr>links := links d2 @ [i]\<rparr>)
        = (Resting, Resting, d')
    \<and> live_links d' = [i] \<and> \<not> uhid_file d'"
  using assms by (simp add: live_links_def destroy_uhid_def create_uhid_def)

theorem overlap_loses_key_witness:
  "\<exists>d2 d'. interleave [True, True, True, True]
      (Publishing, Resting, upd_link 0 close two_phones\<lparr>links := [], busy := None\<rparr>) = (Destroying, Resting, d2)
    \<and> interleave [False, False, False, False, True] (Destroying, Publishing, d2\<lparr>links := links d2 @ [1]\<rparr>)
        = (Resting, Resting, d')
    \<and> live_links d' = [1] \<and> \<not> uhid_file d'"
  using overlap_loses_key [of "upd_link 0 close two_phones\<lparr>links := [0], busy := None\<rparr>" 0 1]
  by (simp add: two_phones_def daemon_new_def upd_link_def close_def link_new_def)

text \<open>What the daemon publishes is what the command line reads: the devices and labels of the best
  live links, in order, whatever the devices put into their labels.\<close>

theorem published_devices_read_back:
  assumes "\<forall>i\<in>set (live_links d). device_id_ok (ldevice (heap d i)) \<and> clean_label (llabel (heap d i))"
    and "can_write_state d"
  shows "connected_devices (devices_file (publish d))
    = map (\<lambda>i. (ldevice (heap d i), llabel (heap d i))) (by_device d)"
  using connected_devices_published [OF assms(1)] assms(2) by (simp add: publish_def)

theorem published_devices_read_back_witness:
  "connected_devices (devices_file (publish two_phones)) = [(''usb:1'', ''phone''), (''usb:2'', ''phone'')]"
proof -
  have "device_id_ok (ldevice (heap two_phones i)) \<and> clean_label (llabel (heap two_phones i))" for i
    by (simp add: two_phones_def daemon_new_def device_id_ok_def clean_label_link_new) (simp add: link_new_def)
  moreover have "can_write_state two_phones"
    by (simp add: two_phones_def daemon_new_def)
  moreover have "map (\<lambda>i. (ldevice (heap two_phones i), llabel (heap two_phones i))) (by_device two_phones)
      = [(''usb:1'', ''phone''), (''usb:2'', ''phone'')]"
    by code_simp
  ultimately show ?thesis
    using published_devices_read_back [of two_phones] by simp
qed

text \<open>Registration reaches the device the user chose and no other: while the process that wrote the
  choice exists, a request is offered to exactly one link, of the chosen device.\<close>

theorem chosen_device_asked:
  assumes "i \<in> set (by_device d)" and "ldevice (heap d i) = device"
    and "device \<noteq> []" and "\<forall>c\<in>set device. word_char c"
    and "pid \<noteq> []" and "\<forall>c\<in>set pid. word_char c"
    and "parse_unsigned (2 ^ 32 - 1) pid = Some p" and "alive p"
  shows "concat (rounds (\<lambda>i. ldevice (heap d i)) (by_device d) (chosen_device alive (root_use_text device pid))
      command probe known w) = [i]"
proof -
  have "split_whitespace (root_use_text device pid) = device # split_whitespace (pid @ [NL])"
    using assms(3,4) by (simp add: root_use_text_def text_rt ascii_space_def)
  also have "split_whitespace (pid @ [NL]) = pid # split_whitespace []"
    using assms(5,6) split_whitespace_word [of pid NL "[]"] by (simp add: ascii_space_def)
  finally have chosen: "chosen_device alive (root_use_text device pid) = Some device"
    using assms(7,8) by (simp add: chosen_device_def)
  obtain j where j: "find_device (\<lambda>i. ldevice (heap d i)) (by_device d) device = Some j"
    using assms(1,2) by (cases "find_device (\<lambda>i. ldevice (heap d i)) (by_device d) device")
      (auto simp: find_device_def find_None_iff)
  then have "j \<in> set (by_device d)" "ldevice (heap d j) = device"
    using find_device_Some by fast+
  then have "j = i"
    using assms(1,2) by_device_distinct [of d] by (auto simp: distinct_map inj_on_def)
  with j show ?thesis
    by (simp add: chosen rounds_def option_list_def)
qed

theorem chosen_device_asked_witness:
  "concat (rounds (\<lambda>i. ldevice (heap two_phones i)) (by_device two_phones)
     (chosen_device (\<lambda>p. p = 77) (root_use_text ''usb:2'' ''77'')) 2 False {} None) = [1]"
  by (rule chosen_device_asked [where p = 77])
    (code_simp | simp add: word_char_def ascii_space_def parse_unsigned_def is_digit_def decimal_value_def digit_value_def)+

text \<open>A keep-alive pass closes exactly the connected devices that do not take the ping or do not
  answer it in time; every other connection is left as it was.\<close>

theorem keepalive_closes_silent:
  assumes "distinct (links d)"
  shows "lalive (heap (keepalive_pass answered d) i) =
    (if i \<in> set (links d) then lalive (heap d i) \<and> lup (heap d i) \<and> answered i else lalive (heap d i))"
  using keepalive_fold [of "live_links d" answered d i] assms
  by (auto simp: keepalive_pass_steps live_links_def)

theorem keepalive_closes_silent_witness:
  "\<not> lalive (heap (keepalive_pass (\<lambda>i. i = 0) two_phones) 1) \<and> lalive (heap (keepalive_pass (\<lambda>i. i = 0) two_phones) 0)"
  using keepalive_closes_silent [of two_phones "\<lambda>i. i = 0"] by (simp add: two_phones_def daemon_new_def link_new_def)

end
