(* ===== verification/Pam_Stack.thy ===== *)
theory Pam_Stack
  imports Rust_Text
begin

text \<open>
  The lines the program puts into the PAM stacks (src/src/cli.rs: \<open>pam_line\<close>, \<open>pam_add\<close>,
  \<open>pam_remove\<close>, \<open>is_auth\<close>, \<open>is_guard\<close>, \<open>is_ours\<close>, \<open>unix_takes_password\<close>).  The files are
  /etc/pam.d/SERVICE, /usr/lib/pam.d/SERVICE and the mark that the first is a copy of the second.
\<close>

section \<open>Constants\<close>

definition KEYS :: string where "KEYS = ''/etc/passkey/u2f_keys''"

definition MARK :: string where
  "MARK = ''# passkey: fingerprint from your Android device (undo with: passkey uninstall)''"

definition PARALLEL :: "string list" where
  "PARALLEL = [''sudo'', ''sudo-i'', ''su'', ''login'', ''polkit-1'']"

definition ON_EMPTY :: "string list" where
  "ON_EMPTY = [''kde'', ''plasmalogin'', ''sddm'', ''gdm-password'', ''lightdm'']"

section \<open>Lines\<close>

definition unix_line :: "string \<Rightarrow> bool" where
  "unix_line line \<longleftrightarrow> \<not> starts_with ''#'' (trim_start line) \<and> contains ''pam_unix.so'' line
     \<and> (contains ''try_first_pass'' line \<or> contains ''use_first_pass'' line)"

text \<open>\<open>unix_takes_password\<close> on the texts of the three common stacks that can be read.\<close>

definition unix_takes_password :: "string list \<Rightarrow> bool" where
  "unix_takes_password texts = list_ex (\<lambda>t. list_ex unix_line (str_lines t)) texts"

text \<open>\<open>pam_line\<close>; \<open>installed\<close>: the module's file is there.\<close>

definition pam_line :: "string \<Rightarrow> bool \<Rightarrow> bool \<Rightarrow> string \<Rightarrow> string" where
  "pam_line host installed takes_password service =
     (let mode = (if service \<in> set ON_EMPTY then ''on-empty'' else ''parallel'');
          org = ''pam://'' @ host;
          u2f = ''authfile='' @ KEYS @ '' origin='' @ org @ '' appid='' @ org
                @ '' userverification=1 nouserok''
      in if installed \<and> takes_password
         then ''-auth      sufficient   pam_passkey.so mode='' @ mode @ '' '' @ u2f
         else ''-auth      sufficient   pam_u2f.so '' @ u2f
              @ '' cue [cue_prompt=Confirm with your fingerprint on your device, or reject there to type your password]'')"

definition is_auth :: "string \<Rightarrow> bool" where
  "is_auth line =
     (let l = (case strip_prefix ''-'' (trim_start line) of Some r \<Rightarrow> r | None \<Rightarrow> trim_start line)
      in l = ''auth'' \<or> starts_with ''auth '' l \<or> starts_with (''auth'' @ [TAB]) l)"

definition is_guard :: "string \<Rightarrow> bool" where
  "is_guard line \<longleftrightarrow>
     list_ex (\<lambda>name. contains name line)
       [''pam_nologin.so'', ''pam_securetty.so'', ''pam_shells.so'', ''pam_rootok.so'']
     \<or> (contains ''pam_faillock.so'' line \<and> contains ''preauth'' line)"

definition is_ours :: "string \<Rightarrow> bool" where
  "is_ours line \<longleftrightarrow> line = MARK
     \<or> ((contains ''pam_passkey.so'' line \<or> contains ''pam_u2f.so'' line)
        \<and> contains (''authfile='' @ KEYS) line)"

section \<open>Adding\<close>

text \<open>The loop of \<open>pam_add\<close>: the lines put out so far and whether ours is among them.\<close>

fun add_lines :: "string \<Rightarrow> string list \<Rightarrow> string list \<Rightarrow> bool \<Rightarrow> string list \<times> bool" where
  "add_lines wanted [] acc inserted = (acc, inserted)"
| "add_lines wanted (line # ls) acc inserted =
     (if line = MARK then add_lines wanted ls (acc @ [line]) inserted
      else if is_ours line then
        (if \<not> inserted then add_lines wanted ls (acc @ [wanted]) True
         else add_lines wanted ls acc inserted)
      else if \<not> inserted \<and> is_auth line \<and> \<not> is_guard line then
        (let out1 = (if acc \<noteq> [] \<and> last acc = MARK then butlast acc else acc)
         in add_lines wanted ls (out1 @ [MARK, wanted, line]) True)
      else add_lines wanted ls (acc @ [line]) inserted)"

record pam_files =
  etc :: "string \<rightharpoonup> string"
  vendor :: "string \<rightharpoonup> string"
  copied :: "string set"

text \<open>Whether it succeeds, and the files after it; \<open>written\<close> and \<open>marked\<close> are the successes of the
  two writes.\<close>

definition pam_add :: "bool \<Rightarrow> bool \<Rightarrow> string \<Rightarrow> string \<Rightarrow> pam_files \<Rightarrow> bool \<times> pam_files" where
  "pam_add written marked wanted service fs =
     (let source = (case etc fs service of
             Some t \<Rightarrow> Some (t, False)
           | None \<Rightarrow> (case vendor fs service of Some t \<Rightarrow> Some (t, True) | None \<Rightarrow> None))
      in case source of
           None \<Rightarrow> (True, fs)
         | Some (input, is_copy) \<Rightarrow>
             if wanted \<in> set (str_lines input) then (True, fs)
             else
               let (acc, inserted) = add_lines wanted (str_lines input) [] False in
               if \<not> inserted then (True, fs)
               else if \<not> written then (False, fs)
               else
                 let fs1 = fs\<lparr>etc := (etc fs)(service \<mapsto> join_with [NL] acc @ [NL])\<rparr> in
                 if \<not> is_copy then (True, fs1)
                 else if \<not> marked then (False, fs1)
                 else (True, fs1\<lparr>copied := insert service (copied fs1)\<rparr>))"

section \<open>Removing\<close>

definition pam_remove :: "bool \<Rightarrow> string \<Rightarrow> pam_files \<Rightarrow> bool \<times> pam_files" where
  "pam_remove written service fs =
     (case etc fs service of
        None \<Rightarrow> (True, fs)
      | Some input \<Rightarrow>
          if \<not> list_ex is_ours (str_lines input) then (True, fs)
          else
            let restored = join_with [NL] (filter (\<lambda>line. \<not> is_ours line) (str_lines input)) @ [NL];
                unmark = (\<lambda>f. f\<lparr>copied := copied f - {service}\<rparr>)
            in if service \<in> copied fs \<and> vendor fs service = Some restored
               then (if written then (True, unmark (fs\<lparr>etc := (etc fs)(service := None)\<rparr>)) else (False, fs))
               else (if written then (True, unmark (fs\<lparr>etc := (etc fs)(service \<mapsto> restored)\<rparr>))
                     else (False, fs)))"

text \<open>
  The loops of \<open>configure\<close> and \<open>uninstall\<close> over the services; they stop at the first failure.
  \<open>written s\<close> and \<open>marked s\<close>: the writes for the service succeed.
\<close>

definition services :: "string list" where
  "services = PARALLEL @ ON_EMPTY"

primrec add_each ::
    "(string \<Rightarrow> bool) \<Rightarrow> (string \<Rightarrow> bool) \<Rightarrow> (string \<Rightarrow> string) \<Rightarrow> string list \<Rightarrow> pam_files \<Rightarrow> bool \<times> pam_files" where
  "add_each written marked line [] fs = (True, fs)"
| "add_each written marked line (s # ss) fs =
     (let (ok, fs1) = pam_add (written s) (marked s) (line s) s fs
      in if ok then add_each written marked line ss fs1 else (False, fs1))"

primrec remove_each :: "(string \<Rightarrow> bool) \<Rightarrow> string list \<Rightarrow> pam_files \<Rightarrow> bool \<times> pam_files" where
  "remove_each written [] fs = (True, fs)"
| "remove_each written (s # ss) fs =
     (let (ok, fs1) = pam_remove (written s) s fs
      in if ok then remove_each written ss fs1 else (False, fs1))"

section \<open>The contract of an edit that can be undone\<close>

text \<open>An edit adds lines of its own and keeps all others in their order; the undo keeps exactly the
  others.\<close>

locale line_edit =
  fixes ours :: "'l \<Rightarrow> bool"
    and edit :: "'l list \<Rightarrow> 'l list"
    and undo :: "'l list \<Rightarrow> 'l list"
  assumes edit_foreign: "filter (\<lambda>l. \<not> ours l) (edit ls) = filter (\<lambda>l. \<not> ours l) ls"
    and undo_keeps: "undo ls = filter (\<lambda>l. \<not> ours l) ls"
begin

lemma undo_edit: "undo (edit ls) = undo ls"
  by (simp add: undo_keeps edit_foreign)

lemma undo_edit_clean: "\<forall>l\<in>set ls. \<not> ours l \<Longrightarrow> undo (edit ls) = ls"
  by (simp add: undo_keeps edit_foreign filter_id_conv)

lemma undo_clean: "\<forall>l\<in>set (undo ls). \<not> ours l"
  by (simp add: undo_keeps)

lemma undo_edits: "undo ((edit ^^ n) ls) = undo ls"
  by (induction n) (simp_all add: undo_edit)

end

lemma is_ours_MARK [simp]: "is_ours MARK"
  by (simp add: is_ours_def)

lemma pam_line_ours: "is_ours (pam_line host installed takes service)"
proof -
  have a: "contains (''authfile='' @ KEYS) (x @ (''authfile='' @ KEYS) @ y)" for x y
    by (rule contains_infix)
  have b: "contains ''pam_passkey.so'' (''-auth      sufficient   '' @ ''pam_passkey.so'' @ x)"
    "contains ''pam_u2f.so'' (''-auth      sufficient   '' @ ''pam_u2f.so'' @ x)" for x
    by (rule contains_infix)+
  show ?thesis
  proof (cases "installed \<and> takes")
    case True
    then have l: "pam_line host installed takes service = ''-auth      sufficient   '' @ ''pam_passkey.so''
        @ '' mode='' @ (if service \<in> set ON_EMPTY then ''on-empty'' else ''parallel'') @ '' ''
        @ ''authfile='' @ KEYS @ '' origin='' @ (''pam://'' @ host) @ '' appid='' @ (''pam://'' @ host)
        @ '' userverification=1 nouserok''"
      by (simp add: pam_line_def Let_def)
    have "contains ''pam_passkey.so'' (pam_line host installed takes service)"
      unfolding l by (rule b)
    moreover have "contains (''authfile='' @ KEYS) (pam_line host installed takes service)"
      unfolding l using a [of "''-auth      sufficient   '' @ ''pam_passkey.so'' @ '' mode=''
          @ (if service \<in> set ON_EMPTY then ''on-empty'' else ''parallel'') @ '' ''"] by simp
    ultimately show ?thesis by (simp add: is_ours_def)
  next
    case False
    then have l: "pam_line host installed takes service = ''-auth      sufficient   '' @ ''pam_u2f.so'' @ '' ''
        @ ''authfile='' @ KEYS @ '' origin='' @ (''pam://'' @ host) @ '' appid='' @ (''pam://'' @ host)
        @ '' userverification=1 nouserok''
        @ '' cue [cue_prompt=Confirm with your fingerprint on your device, or reject there to type your password]''"
      by (auto simp: pam_line_def Let_def)
    have "contains ''pam_u2f.so'' (pam_line host installed takes service)"
      unfolding l by (rule b)
    moreover have "contains (''authfile='' @ KEYS) (pam_line host installed takes service)"
      unfolding l using a [of "''-auth      sufficient   '' @ ''pam_u2f.so'' @ '' ''"] by simp
    ultimately show ?thesis by (simp add: is_ours_def)
  qed
qed

section \<open>The loop over the lines\<close>

lemma filter_butlast_MARK:
  "acc \<noteq> [] \<Longrightarrow> last acc = MARK \<Longrightarrow>
    filter (\<lambda>l. \<not> is_ours l) (butlast acc) = filter (\<lambda>l. \<not> is_ours l) acc"
  by (induction acc rule: rev_induct) simp_all

lemma add_lines_foreign:
  assumes "is_ours wanted"
  shows "filter (\<lambda>l. \<not> is_ours l) (fst (add_lines wanted ls acc inserted))
    = filter (\<lambda>l. \<not> is_ours l) acc @ filter (\<lambda>l. \<not> is_ours l) ls"
  using assms
  by (induction wanted ls acc inserted rule: add_lines.induct)
     (auto simp: Let_def filter_butlast_MARK)

interpretation stack: line_edit is_ours
    "\<lambda>ls. fst (add_lines (pam_line host installed takes service) ls [] False)"
    "filter (\<lambda>l. \<not> is_ours l)"
  for host installed takes service
  by unfold_locales (simp_all add: add_lines_foreign pam_line_ours)

text \<open>The lines of ours that PAM reads, that is, all but the comment.\<close>

definition active :: "string list \<Rightarrow> string list" where
  "active ls = filter (\<lambda>l. is_ours l \<and> l \<noteq> MARK) ls"

lemma active_butlast_MARK:
  "acc \<noteq> [] \<Longrightarrow> last acc = MARK \<Longrightarrow> active (butlast acc) = active acc"
  unfolding active_def by (induction acc rule: rev_induct) simp_all

lemma active_simps [simp]:
  "active [] = []" "active (a @ b) = active a @ active b"
  "active (l # ls) = (if is_ours l \<and> l \<noteq> MARK then [l] else []) @ active ls"
  by (simp_all add: active_def)

lemma add_lines_active:
  assumes "is_ours wanted" and "wanted \<noteq> MARK"
  shows "active acc = (if inserted then [wanted] else []) \<Longrightarrow>
    active (fst (add_lines wanted ls acc inserted))
      = (if snd (add_lines wanted ls acc inserted) then [wanted] else [])"
  using assms
  by (induction wanted ls acc inserted rule: add_lines.induct)
     (auto simp: Let_def active_butlast_MARK)

lemma add_lines_inserted:
  "\<forall>l\<in>set ls. \<not> is_ours l \<Longrightarrow> add_lines wanted ls acc True = (acc @ ls, True)"
  by (induction ls arbitrary: acc) auto

definition stop_line :: "string \<Rightarrow> bool" where
  "stop_line l \<longleftrightarrow> is_auth l \<and> \<not> is_guard l"

lemma add_lines_clean:
  "\<forall>l\<in>set ls. \<not> is_ours l \<Longrightarrow> \<forall>l\<in>set acc. \<not> is_ours l \<Longrightarrow>
    add_lines wanted ls acc False =
      (if \<exists>l\<in>set ls. stop_line l
       then (acc @ takeWhile (\<lambda>l. \<not> stop_line l) ls @ [MARK, wanted] @ dropWhile (\<lambda>l. \<not> stop_line l) ls, True)
       else (acc @ ls, False))"
proof (induction ls arbitrary: acc)
  case (Cons line ls)
  have l: "line \<noteq> MARK" "\<not> is_ours line"
    using Cons.prems(1) by auto
  show ?case
  proof (cases "stop_line line")
    case True
    have "\<not> (acc \<noteq> [] \<and> last acc = MARK)"
      using Cons.prems(2) last_in_set by fastforce
    then have "add_lines wanted (line # ls) acc False = add_lines wanted ls (acc @ [MARK, wanted, line]) True"
      using True l by (auto simp: stop_line_def)
    with True Cons.prems(1) show ?thesis
      by (simp del: add_lines.simps add: add_lines_inserted)
  next
    case False
    then have "add_lines wanted (line # ls) acc False = add_lines wanted ls (acc @ [line]) False"
      using l by (auto simp: stop_line_def)
    moreover have "\<forall>x\<in>set (acc @ [line]). \<not> is_ours x" "\<forall>x\<in>set ls. \<not> is_ours x"
      using Cons.prems by auto
    ultimately show ?thesis
      using False Cons.IH [of "acc @ [line]"] by (simp del: add_lines.simps)
  qed
qed simp

lemma add_lines_wanted:
  "(inserted \<Longrightarrow> wanted \<in> set acc) \<Longrightarrow> wanted \<noteq> MARK \<Longrightarrow> snd (add_lines wanted ls acc inserted) \<Longrightarrow>
    wanted \<in> set (fst (add_lines wanted ls acc inserted))"
  by (induction wanted ls acc inserted rule: add_lines.induct) (auto simp: Let_def split: if_splits)

lemma set_add_lines:
  "set (fst (add_lines wanted ls acc inserted)) \<subseteq> set acc \<union> set ls \<union> {MARK, wanted}"
  by (induction wanted ls acc inserted rule: add_lines.induct)
     (auto simp: Let_def dest!: in_set_butlastD)

lemma add_lines_some:
  "snd (add_lines wanted ls acc inserted) \<Longrightarrow> (inserted \<Longrightarrow> acc \<noteq> []) \<Longrightarrow>
    fst (add_lines wanted ls acc inserted) \<noteq> []"
  by (induction wanted ls acc inserted rule: add_lines.induct) (auto simp: Let_def split: if_splits)

lemma add_lines_nonempty:
  "snd (add_lines wanted ls [] False) \<Longrightarrow> fst (add_lines wanted ls [] False) \<noteq> []"
  by (rule add_lines_some) simp_all

section \<open>Files\<close>

definition plain_text :: "string \<Rightarrow> bool" where
  "plain_text t \<longleftrightarrow> (\<exists>ls. t = unlines ls \<and> (\<forall>l\<in>set ls. plain_line l))"

lemma plain_text_lines: "plain_text t \<Longrightarrow> (\<forall>l\<in>set (str_lines t). plain_line l) \<and> t = unlines (str_lines t)"
  by (auto simp: plain_text_def lines_unlines)

lemma MARK_plain: "plain_line MARK"
  by (simp add: MARK_def plain_line_def)

definition line_ok :: "string \<Rightarrow> bool" where
  "line_ok wanted \<longleftrightarrow> is_ours wanted \<and> wanted \<noteq> MARK \<and> plain_line wanted"

text \<open>What \<open>pam_add\<close> makes of a text.\<close>

definition added_text :: "string \<Rightarrow> string \<Rightarrow> string" where
  "added_text wanted t =
     (if wanted \<in> set (str_lines t) \<or> \<not> snd (add_lines wanted (str_lines t) [] False) then t
      else unlines (fst (add_lines wanted (str_lines t) [] False)))"

lemma str_lines_added:
  assumes "plain_text t" and "line_ok wanted" and "wanted \<notin> set (str_lines t)"
    and "snd (add_lines wanted (str_lines t) [] False)"
  shows "str_lines (added_text wanted t) = fst (add_lines wanted (str_lines t) [] False)"
proof -
  have "\<forall>l\<in>set (fst (add_lines wanted (str_lines t) [] False)). plain_line l"
    using set_add_lines [of wanted "str_lines t" "[]" False] plain_text_lines [OF assms(1)] assms(2) MARK_plain
    by (auto simp: line_ok_def)
  then show ?thesis
    using assms by (simp add: added_text_def lines_unlines)
qed

lemma pam_add_etc:
  assumes "etc fs service = Some t"
  shows "snd (pam_add True True wanted service fs) = fs\<lparr>etc := (etc fs)(service \<mapsto> added_text wanted t)\<rparr>"
  using assms add_lines_nonempty [of wanted "str_lines t"]
  by (auto simp: pam_add_def added_text_def Let_def unlines_join split_def fun_upd_idem)

lemma pam_add_vendor:
  assumes "etc fs service = None" and "vendor fs service = Some t"
  shows "snd (pam_add True True wanted service fs) =
    (if wanted \<in> set (str_lines t) \<or> \<not> snd (add_lines wanted (str_lines t) [] False) then fs
     else fs\<lparr>etc := (etc fs)(service \<mapsto> added_text wanted t), copied := insert service (copied fs)\<rparr>)"
  using assms add_lines_nonempty [of wanted "str_lines t"]
  by (auto simp: pam_add_def added_text_def Let_def unlines_join split_def)

lemma added_text_cases:
  assumes "plain_text t" and "line_ok wanted"
  obtains (same) "added_text wanted t = t" "wanted \<in> set (str_lines t) \<or> \<not> snd (add_lines wanted (str_lines t) [] False)"
  | (added) "str_lines (added_text wanted t) = fst (add_lines wanted (str_lines t) [] False)"
      "wanted \<notin> set (str_lines t)" "snd (add_lines wanted (str_lines t) [] False)"
  using str_lines_added [OF assms] by (cases "wanted \<in> set (str_lines t) \<or> \<not> snd (add_lines wanted (str_lines t) [] False)")
    (auto simp: added_text_def)

lemma added_text_foreign:
  assumes "plain_text t" and "line_ok wanted"
  shows "filter (\<lambda>l. \<not> is_ours l) (str_lines (added_text wanted t)) = filter (\<lambda>l. \<not> is_ours l) (str_lines t)"
  using assms
proof (cases rule: added_text_cases)
  case added
  then show ?thesis using assms(2) by (simp add: add_lines_foreign line_ok_def)
qed simp

lemma added_text_active:
  assumes "plain_text t" and "line_ok wanted" and "added_text wanted t \<noteq> t"
  shows "active (str_lines (added_text wanted t)) = [wanted]"
  using assms(1,2)
proof (cases rule: added_text_cases)
  case added
  then show ?thesis using add_lines_active [of wanted "[]" False "str_lines t"] assms(2) by (simp add: line_ok_def)
qed (use assms(3) in simp)

lemma pam_line_plain: "NL \<notin> set host \<Longrightarrow> plain_line (pam_line host installed takes service)"
  by (simp add: plain_line_def pam_line_def KEYS_def Let_def)

lemma pam_line_not_MARK: "pam_line host installed takes service \<noteq> MARK"
  by (simp add: pam_line_def MARK_def Let_def)

lemma pam_line_ok: "NL \<notin> set host \<Longrightarrow> line_ok (pam_line host installed takes service)"
  by (simp add: line_ok_def pam_line_plain pam_line_ours pam_line_not_MARK)

section \<open>Undoing\<close>

text \<open>The text \<open>pam_add\<close> starts from, and a service none of our lines is in yet.\<close>

definition source_text :: "pam_files \<Rightarrow> string \<Rightarrow> string option" where
  "source_text fs s = (case etc fs s of Some t \<Rightarrow> Some t | None \<Rightarrow> vendor fs s)"

definition clean_text :: "string \<Rightarrow> bool" where
  "clean_text t \<longleftrightarrow> plain_text t \<and> (\<forall>l\<in>set (str_lines t). \<not> is_ours l)"

definition clean_service :: "pam_files \<Rightarrow> string \<Rightarrow> bool" where
  "clean_service fs s \<longleftrightarrow> s \<notin> copied fs \<and> (\<forall>t. source_text fs s = Some t \<longrightarrow> clean_text t)"

lemma restored_added:
  assumes "clean_text t" and "line_ok wanted" and "snd (add_lines wanted (str_lines t) [] False)"
  shows "join_with [NL] (filter (\<lambda>l. \<not> is_ours l) (str_lines (added_text wanted t))) @ [NL] = t"
proof -
  have p: "plain_text t" and c: "\<forall>l\<in>set (str_lines t). \<not> is_ours l"
    using assms(1) by (simp_all add: clean_text_def)
  have "str_lines t \<noteq> []" using assms(3) by auto
  then show ?thesis
    using c added_text_foreign [OF p assms(2)] plain_text_lines [OF p]
    by (simp add: unlines_join filter_id_conv)
qed

lemma added_ours:
  assumes "clean_text t" and "line_ok wanted" and "snd (add_lines wanted (str_lines t) [] False)"
  shows "list_ex is_ours (str_lines (added_text wanted t))"
proof -
  have n: "wanted \<notin> set (str_lines t)" and o: "is_ours wanted" "wanted \<noteq> MARK"
    using assms(1,2) by (auto simp: clean_text_def line_ok_def)
  have "str_lines (added_text wanted t) = fst (add_lines wanted (str_lines t) [] False)"
    using str_lines_added [OF _ assms(2) n assms(3)] assms(1) by (simp add: clean_text_def)
  then show ?thesis
    using add_lines_wanted [of False wanted "[]" "str_lines t"] assms(3) o by (auto simp: list_ex_iff)
qed

lemma remove_clean_etc:
  "clean_text t \<Longrightarrow> etc fs s = Some t \<Longrightarrow> pam_remove w s fs = (True, fs)"
  by (auto simp: pam_remove_def clean_text_def list_ex_iff)

lemma remove_added_etc:
  assumes "etc fs s = Some t" and "clean_service fs s" and "line_ok wanted"
  shows "pam_remove True s (fs\<lparr>etc := (etc fs)(s \<mapsto> added_text wanted t)\<rparr>) = (True, fs)"
proof (cases "snd (add_lines wanted (str_lines t) [] False)")
  case True
  have t: "clean_text t" "s \<notin> copied fs" using assms by (simp_all add: clean_service_def source_text_def)
  show ?thesis
    using assms(1) t(2) restored_added [OF t(1) assms(3) True] added_ours [OF t(1) assms(3) True]
    by (simp add: pam_remove_def Let_def fun_upd_idem)
next
  case False
  then show ?thesis using assms remove_clean_etc [of t fs s True]
    by (simp add: added_text_def clean_service_def source_text_def fun_upd_idem)
qed

lemma remove_added_vendor:
  assumes "etc fs s = None" and "vendor fs s = Some t" and "clean_service fs s" and "line_ok wanted"
    and "snd (add_lines wanted (str_lines t) [] False)"
  shows "pam_remove True s (fs\<lparr>etc := (etc fs)(s \<mapsto> added_text wanted t), copied := insert s (copied fs)\<rparr>)
    = (True, fs)"
proof -
  have t: "clean_text t" "s \<notin> copied fs" using assms by (simp_all add: clean_service_def source_text_def)
  show ?thesis
    using assms(1,2) t(2) restored_added [OF t(1) assms(4,5)] added_ours [OF t(1) assms(4,5)]
    by (simp add: pam_remove_def Let_def fun_upd_idem)
qed

lemma remove_none: "etc fs s = None \<Longrightarrow> pam_remove w s fs = (True, fs)"
  by (simp add: pam_remove_def)

lemma pam_add_unwritten: "snd (pam_add False marked wanted s fs) = fs"
  by (auto simp: pam_add_def Let_def split: option.split prod.split)

lemma pam_add_not_ok: "\<not> fst (pam_add written True wanted s fs) \<Longrightarrow> snd (pam_add written True wanted s fs) = fs"
  by (auto simp: pam_add_def Let_def split: option.splits prod.splits if_splits)

lemma pam_add_written: "snd (pam_add written True wanted s fs) \<in> {fs, snd (pam_add True True wanted s fs)}"
  by (cases written) (simp_all add: pam_add_unwritten)

lemma remove_clean: "clean_service fs s \<Longrightarrow> pam_remove w s fs = (True, fs)"
  by (cases "etc fs s") (auto simp: remove_none clean_service_def source_text_def intro: remove_clean_etc)

lemma remove_added:
  assumes "clean_service fs s" and "line_ok wanted"
  shows "pam_remove True s (snd (pam_add written True wanted s fs)) = (True, fs)"
proof -
  have "pam_remove True s (snd (pam_add True True wanted s fs)) = (True, fs)"
  proof (cases "etc fs s")
    case None
    show ?thesis
    proof (cases "vendor fs s")
      case v: (Some t)
      show ?thesis
        using pam_add_vendor [OF None v, of wanted] remove_added_vendor [OF None v assms]
          remove_none [OF None, of True]
        by auto
    qed (use None in \<open>simp add: pam_add_def pam_remove_def\<close>)
  qed (use assms in \<open>simp add: pam_add_etc remove_added_etc\<close>)
  then show ?thesis
    using pam_add_written [of written wanted s fs] remove_clean [OF assms(1), of True] by auto
qed

text \<open>A removal changes what belongs to its service only, by what belongs to its service only.\<close>

definition put_back :: "string \<Rightarrow> string option \<Rightarrow> pam_files \<Rightarrow> pam_files" where
  "put_back s x f = f\<lparr>etc := (etc f)(s := x), copied := copied f - {s}\<rparr>"

lemma add_put_back:
  "s \<noteq> s' \<Longrightarrow> pam_add w m wanted s (put_back s' x fs)
    = (fst (pam_add w m wanted s fs), put_back s' x (snd (pam_add w m wanted s fs)))"
  by (cases "etc fs s"; cases "vendor fs s")
    (simp_all add: pam_add_def put_back_def Let_def split_def fun_upd_twist insert_Diff_if)

definition restored_text :: "string \<Rightarrow> string" where
  "restored_text t = join_with [NL] (filter (\<lambda>line. \<not> is_ours line) (str_lines t)) @ [NL]"

definition removal :: "string option \<Rightarrow> string option \<Rightarrow> bool \<Rightarrow> string option option" where
  "removal e v c = (case e of None \<Rightarrow> None | Some t \<Rightarrow>
     if \<not> list_ex is_ours (str_lines t) then None
     else Some (if c \<and> v = Some (restored_text t) then None else Some (restored_text t)))"

lemma pam_remove_form:
  "pam_remove w s f = (case removal (etc f s) (vendor f s) (s \<in> copied f) of None \<Rightarrow> (True, f)
     | Some x \<Rightarrow> if w then (True, put_back s x f) else (False, f))"
  by (cases "etc f s") (simp_all add: pam_remove_def put_back_def removal_def restored_text_def Let_def)

lemma remove_cases:
  assumes "etc f s = etc g s" and "vendor f s = vendor g s" and "(s \<in> copied f) = (s \<in> copied g)"
  obtains b where "pam_remove w s f = (b, f)" "pam_remove w s g = (b, g)"
  | b x where "pam_remove w s f = (b, put_back s x f)" "pam_remove w s g = (b, put_back s x g)"
  using assms
  by (cases "removal (etc g s) (vendor g s) (s \<in> copied g)"; cases w) (simp_all add: pam_remove_form)

lemma add_other:
  "s \<noteq> s' \<Longrightarrow> etc (snd (pam_add w m wanted s fs)) s' = etc fs s'
    \<and> vendor (snd (pam_add w m wanted s fs)) s' = vendor fs s'
    \<and> (s' \<in> copied (snd (pam_add w m wanted s fs))) = (s' \<in> copied fs)"
  by (cases "etc fs s"; cases "vendor fs s") (simp_all add: pam_add_def Let_def split_def)

lemma remove_add_commute:
  assumes "s \<noteq> s'"
  shows "pam_remove w' s' (snd (pam_add w m wanted s fs))
      = (fst (pam_remove w' s' fs), snd (pam_add w m wanted s (snd (pam_remove w' s' fs))))"
    and "fst (pam_add w m wanted s (snd (pam_remove w' s' fs))) = fst (pam_add w m wanted s fs)"
  by (rule remove_cases [of "snd (pam_add w m wanted s fs)" s' fs w'];
      simp add: add_other [OF assms] add_put_back [OF assms])+

lemma remove_add_each_commute:
  "s' \<notin> set ss \<Longrightarrow> pam_remove w' s' (snd (add_each w m line ss fs))
    = (fst (pam_remove w' s' fs), snd (add_each w m line ss (snd (pam_remove w' s' fs))))"
proof (induction ss arbitrary: fs)
  case (Cons s ss)
  then have "s \<noteq> s'" by auto
  with Cons show ?case
    by (simp add: split_def Let_def remove_add_commute)
qed simp

lemma remove_each_clean: "\<forall>s\<in>set ss. clean_service fs s \<Longrightarrow> remove_each w ss fs = (True, fs)"
  by (induction ss) (simp_all add: remove_clean)

lemma remove_add_each:
  "distinct ss \<Longrightarrow> \<forall>s\<in>set ss. clean_service fs s \<and> line_ok (line s) \<Longrightarrow>
    remove_each (\<lambda>_. True) ss (snd (add_each written (\<lambda>_. True) line ss fs)) = (True, fs)"
proof (induction ss)
  case (Cons s ss)
  then have s: "clean_service fs s" "line_ok (line s)" "s \<notin> set ss" by simp_all
  show ?case
  proof (cases "fst (pam_add (written s) True (line s) s fs)")
    case True
    then show ?thesis
      using Cons s by (simp add: split_def Let_def remove_add_each_commute remove_added)
  next
    case False
    then show ?thesis
      using Cons.prems pam_add_not_ok [OF False] s
      by (simp add: split_def Let_def remove_clean remove_each_clean)
  qed
qed simp

lemma distinct_services: "distinct services"
  by (simp add: services_def PARALLEL_def ON_EMPTY_def)

section \<open>What the edits promise\<close>

lemma pam_add_result:
  assumes "source_text fs s = Some t"
    and "etc (snd (pam_add w m wanted s fs)) s = Some u"
  shows "u = t \<or> u = added_text wanted t \<and> snd (add_lines wanted (str_lines t) [] False)
      \<and> wanted \<notin> set (str_lines t)"
    and "etc (snd (pam_add w m wanted s fs)) s \<noteq> etc fs s \<Longrightarrow>
      u = added_text wanted t \<and> snd (add_lines wanted (str_lines t) [] False) \<and> wanted \<notin> set (str_lines t)"
  using assms add_lines_nonempty [of wanted "str_lines t"]
  by (auto simp: pam_add_def source_text_def added_text_def Let_def unlines_join split_def
      split: option.splits if_splits)

text \<open>Installing never loses, changes or reorders a line of somebody else: after \<open>pam_add\<close> the file
  in /etc/pam.d has the lines of the file it was made from, in their order, apart from ours, whatever the
  file held before (ours twice, ours for an older host name, a mark with no line) and whether the writes
  succeed.  When the file is changed, exactly one line of ours that PAM reads is in it, the wanted one.\<close>

theorem installed_once:
  assumes "NL \<notin> set host" and "source_text fs s = Some t" and "plain_text t"
    and "wanted = pam_line host installed takes s"
    and "etc (snd (pam_add w m wanted s fs)) s = Some u"
  shows "filter (\<lambda>l. \<not> is_ours l) (str_lines u) = filter (\<lambda>l. \<not> is_ours l) (str_lines t)
    \<and> (u \<noteq> t \<longrightarrow> active (str_lines u) = [wanted])"
proof -
  have ok: "line_ok wanted" using assms(1,4) by (simp add: pam_line_ok)
  show ?thesis
    using pam_add_result(1) [OF assms(2,5)] added_text_foreign [OF assms(3) ok]
      added_text_active [OF assms(3) ok] by auto
qed

definition sample_stack :: "string list" where
  "sample_stack = [''auth required pam_nologin.so'', ''auth include system-auth'', ''account include system-auth'']"

definition sample_files :: pam_files where
  "sample_files = \<lparr>etc = Map.empty, vendor = [''sudo'' \<mapsto> unlines sample_stack], copied = {}\<rparr>"

lemma sample_lines: "str_lines (unlines sample_stack) = sample_stack" "plain_text (unlines sample_stack)"
proof -
  have "\<forall>l\<in>set sample_stack. plain_line l"
    by (simp add: sample_stack_def plain_line_def)
  then show "str_lines (unlines sample_stack) = sample_stack" "plain_text (unlines sample_stack)"
    by (auto simp: lines_unlines plain_text_def)
qed

lemma sample_clean: "\<forall>l\<in>set sample_stack. \<not> is_ours l" "\<exists>l\<in>set sample_stack. stop_line l"
  "takeWhile (\<lambda>l. \<not> stop_line l) sample_stack = [''auth required pam_nologin.so'']"
  "dropWhile (\<lambda>l. \<not> stop_line l) sample_stack = [''auth include system-auth'', ''account include system-auth'']"
  by code_simp+

lemma sample_source: "source_text sample_files ''sudo'' = Some (unlines sample_stack)"
  by (simp add: source_text_def sample_files_def)

lemma sample_service: "clean_service sample_files s"
  using sample_lines sample_clean(1)
  by (auto simp: clean_service_def clean_text_def sample_files_def source_text_def split: if_splits)

theorem installed_once_witness:
  "\<exists>u. etc (snd (pam_add True True (pam_line ''pc'' True True ''sudo'') ''sudo'' sample_files)) ''sudo'' = Some u
    \<and> active (str_lines u) = [pam_line ''pc'' True True ''sudo'']"
proof -
  let ?w = "pam_line ''pc'' True True ''sudo''"
  have i: "snd (add_lines ?w sample_stack [] False)" and n: "?w \<notin> set sample_stack"
    using sample_clean pam_line_ours by (auto simp: add_lines_clean)
  have v: "etc sample_files ''sudo'' = None" "vendor sample_files ''sudo'' = Some (unlines sample_stack)"
    by (simp_all add: sample_files_def)
  have e: "etc (snd (pam_add True True ?w ''sudo'' sample_files)) ''sudo'' = Some (added_text ?w (unlines sample_stack))"
    using pam_add_vendor [OF v, of ?w] i n sample_lines by simp
  have "added_text ?w (unlines sample_stack) \<noteq> unlines sample_stack"
  proof
    assume same: "added_text ?w (unlines sample_stack) = unlines sample_stack"
    have ok: "line_ok ?w" by (simp add: pam_line_ok)
    have "?w \<in> set (fst (add_lines ?w sample_stack [] False))"
      using add_lines_wanted [of False ?w "[]" sample_stack] i pam_line_not_MARK by simp
    then show False
      using str_lines_added [OF sample_lines(2) ok] i n sample_lines same by simp
  qed
  then show ?thesis
    using installed_once [OF _ sample_source sample_lines(2) refl e] e by simp
qed

text \<open>C29: Where our line goes in a stack that has none: directly before the first authentication line that
  is not a guard, with the mark above it.  So a guard in front of that line (no login, secure terminal,
  locked account) is asked before the device, and the device before every way of authenticating; a second
  install changes nothing, however its writes would end.\<close>

theorem guards_stay_first:
  assumes "NL \<notin> set host" and "source_text fs s = Some t" and "clean_text t"
    and "wanted = pam_line host installed takes s" and "list_ex stop_line (str_lines t)"
  shows "\<exists>u. etc (snd (pam_add True m wanted s fs)) s = Some u
      \<and> str_lines u = takeWhile (\<lambda>l. \<not> stop_line l) (str_lines t) @ [MARK, wanted]
          @ dropWhile (\<lambda>l. \<not> stop_line l) (str_lines t)
      \<and> pam_add w' m' wanted s (snd (pam_add True m wanted s fs)) = (True, snd (pam_add True m wanted s fs))"
proof -
  have ok: "line_ok wanted" using assms(1,4) by (simp add: pam_line_ok)
  have c: "\<forall>l\<in>set (str_lines t). \<not> is_ours l" "plain_text t" using assms(3) by (simp_all add: clean_text_def)
  have a: "add_lines wanted (str_lines t) [] False = (takeWhile (\<lambda>l. \<not> stop_line l) (str_lines t)
      @ [MARK, wanted] @ dropWhile (\<lambda>l. \<not> stop_line l) (str_lines t), True)"
    using add_lines_clean [OF c(1), of "[]" wanted] assms(5) by (simp add: list_ex_iff)
  have n: "wanted \<notin> set (str_lines t)" using c(1) ok by (auto simp: line_ok_def)
  have u: "str_lines (added_text wanted t) = fst (add_lines wanted (str_lines t) [] False)"
    using str_lines_added [OF c(2) ok n] a by simp
  have e: "etc (snd (pam_add True m wanted s fs)) s = Some (added_text wanted t)"
    using assms(2) a n add_lines_nonempty [of wanted "str_lines t"]
    by (auto simp: pam_add_def source_text_def added_text_def Let_def unlines_join split: option.splits)
  have "pam_add w' m' wanted s (snd (pam_add True m wanted s fs)) = (True, snd (pam_add True m wanted s fs))"
    using e u a by (simp add: pam_add_def)
  with e u a show ?thesis by simp
qed

theorem guards_stay_first_witness:
  "\<exists>u. etc (snd (pam_add True True (pam_line ''pc'' True False ''sudo'') ''sudo'' sample_files)) ''sudo'' = Some u
    \<and> str_lines u = [''auth required pam_nologin.so'', MARK, pam_line ''pc'' True False ''sudo'',
        ''auth include system-auth'', ''account include system-auth'']"
  using guards_stay_first [where m = True, OF _ sample_source _ refl, of "''pc''" True False] sample_lines sample_clean
  by (simp add: clean_text_def list_ex_iff) blast

text \<open>Uninstalling undoes an install: with the files of our services free of our lines (and made of
  plain lines) before, an install that ended anywhere, at a write of a stack that failed or after the last
  service, followed by \<open>remove_each\<close>, leaves exactly the files there were, the copies of vendor files
  and their marks gone, and reports no failure.\<close>

theorem uninstall_restores:
  assumes "NL \<notin> set host" and "\<forall>s\<in>set services. clean_service fs s"
  shows "remove_each (\<lambda>_. True) services
      (snd (add_each written (\<lambda>_. True) (pam_line host installed takes) services fs)) = (True, fs)"
  using assms by (intro remove_add_each) (simp_all add: distinct_services pam_line_ok)

theorem uninstall_restores_witness:
  "remove_each (\<lambda>_. True) services
      (snd (add_each (\<lambda>s. s \<noteq> ''su'') (\<lambda>_. True) (pam_line ''pc'' True True) services sample_files))
    = (True, sample_files)"
  by (rule uninstall_restores) (simp_all add: sample_service)

text \<open>Without a final line end in the vendor's file the restored text differs from it, and the copy stays.\<close>

lemma copy_left_behind:
  "let fs = \<lparr>etc = Map.empty, vendor = [''su'' \<mapsto> ''auth include system-auth''], copied = {}\<rparr>
   in etc (snd (pam_remove True ''su'' (snd (pam_add True True (pam_line ''pc'' True True ''su'') ''su'' fs)))) ''su''
      = Some (''auth include system-auth'' @ [NL])"
  by code_simp

end
