(* ===== verification/Atomic_Files.thy ===== *)
theory Atomic_Files
  imports Connections Pam_Stack
begin

text \<open>
  Files that other processes read while they are replaced (src/src/cli.rs: \<open>write_file\<close>;
  src/src/daemon.rs: \<open>atomic_write\<close>).  A write is the list of the states the disk goes through, so
  that a reader, or a crash, can come between any two of them; which of its calls succeed, and how many
  bytes are taken, is an argument.
\<close>

section \<open>Files and their names\<close>

record disk_file =
  body :: string
  perms :: nat

type_synonym disk = "string \<rightharpoonup> disk_file"

definition read_file :: "string \<Rightarrow> disk \<Rightarrow> string option" where
  "read_file path d = map_option body (d path)"

text \<open>\<open>Path::with_extension\<close>: what follows the last dot of the name is replaced, unless the name begins
  with it.\<close>

definition path_name :: "string \<Rightarrow> string" where
  "path_name path = rev (takeWhile (\<lambda>c. c \<noteq> CHR ''/'') (rev path))"

definition name_stem :: "string \<Rightarrow> string" where
  "name_stem name =
     (case dropWhile (\<lambda>c. c \<noteq> CHR ''.'') (rev name) of
        _ # c # front \<Rightarrow> rev (c # front)
      | _ \<Rightarrow> name)"

definition with_extension :: "string \<Rightarrow> string \<Rightarrow> string" where
  "with_extension path ext =
     take (length path - length (path_name path)) path @ name_stem (path_name path) @ ''.'' @ ext"

section \<open>Writing\<close>

record write_luck =
  dirs_made :: bool
  old_removed :: bool
  opened :: bool
  taken :: nat
  synced :: bool
  chmodded :: bool
  renamed :: bool
  new_perms :: nat

text \<open>\<open>write_all\<close> on a new or emptied file: any number of bytes may be there.\<close>

definition filling :: "string \<Rightarrow> string \<Rightarrow> nat \<Rightarrow> nat \<Rightarrow> disk \<Rightarrow> disk list" where
  "filling temp data p n d =
     map (\<lambda>k. d(temp \<mapsto> \<lparr>body = take k data, perms = p\<rparr>)) [0..<Suc (min n (length data))]"

definition rename_file :: "string \<Rightarrow> string \<Rightarrow> disk \<Rightarrow> disk" where
  "rename_file temp path d = d(path := d temp, temp := None)"

definition temp_name :: "nat \<Rightarrow> string \<Rightarrow> string" where
  "temp_name pid path = with_extension path (''passkey-new-'' @ dec_string pid)"

definition write_file :: "write_luck \<Rightarrow> nat \<Rightarrow> string \<Rightarrow> string \<Rightarrow> nat \<Rightarrow> disk \<Rightarrow> bool \<times> disk list" where
  "write_file luck pid path data p d =
     (let temp = temp_name pid path;
          d1 = (if old_removed luck then d(temp := None) else d);
          ds = d1 # filling temp data (new_perms luck) (taken luck) d1;
          d2 = d1(temp \<mapsto> \<lparr>body = data, perms = p\<rparr>)
      in if \<not> dirs_made luck then (False, [])
         else if \<not> opened luck \<or> d1 temp \<noteq> None then (False, [d1])
         else if taken luck < length data \<or> \<not> synced luck \<or> \<not> chmodded luck then (False, ds)
         else if \<not> renamed luck then (False, ds @ [d2])
         else (True, ds @ [d2, rename_file temp path d2]))"

text \<open>\<open>atomic_write\<close>: the temporary file has one name for all writers.\<close>

definition atomic_write :: "write_luck \<Rightarrow> string \<Rightarrow> string \<Rightarrow> disk \<Rightarrow> bool \<times> disk list" where
  "atomic_write luck path data d =
     (let temp = with_extension path ''new'';
          p = (case d temp of None \<Rightarrow> new_perms luck | Some f \<Rightarrow> perms f);
          ds = filling temp data p (taken luck) d
      in if \<not> opened luck then (False, [])
         else if taken luck < length data then (False, ds)
         else if \<not> renamed luck then (False, ds)
         else (True, ds @ [rename_file temp path (last ds)]))"

section \<open>The contract of a replaced file\<close>

text \<open>Whatever happens, the file has its old text or all of the new one, and the new one when the write
  reports success; no file but it and its temporary one changes.\<close>

locale replaced_file =
  fixes run :: "'a \<Rightarrow> disk \<Rightarrow> bool \<times> disk list"
    and shown :: "'a \<Rightarrow> string"
    and path temp :: string
  assumes whole: "e \<in> set (snd (run a d)) \<Longrightarrow>
      read_file path e = read_file path d \<or> read_file path e = Some (shown a)"
    and finished: "read_file path (last (d # snd (run a d))) = (if fst (run a d) then Some (shown a) else read_file path d)"
    and others: "e \<in> set (snd (run a d)) \<Longrightarrow> q \<noteq> path \<Longrightarrow> q \<noteq> temp \<Longrightarrow> e q = d q"
begin

fun run_all :: "'a list \<Rightarrow> disk \<Rightarrow> disk list" where
  "run_all [] d = []"
| "run_all (a # as) d = snd (run a d) @ run_all as (last (d # snd (run a d)))"

lemma seen_whole:
  "e \<in> set (run_all as d) \<Longrightarrow> read_file path e = read_file path d \<or> (\<exists>a\<in>set as. read_file path e = Some (shown a))"
proof (induction as arbitrary: d)
  case (Cons a as)
  let ?d = "last (d # snd (run a d))"
  have "read_file path ?d = read_file path d \<or> read_file path ?d = Some (shown a)"
    using finished [of d a] by simp
  then show ?case
    using Cons.prems Cons.IH [of ?d] whole [of e a d] by auto
qed simp

lemma others_kept: "e \<in> set (run_all as d) \<Longrightarrow> q \<noteq> path \<Longrightarrow> q \<noteq> temp \<Longrightarrow> e q = d q"
proof (induction as arbitrary: d)
  case (Cons a as)
  let ?d = "last (d # snd (run a d))"
  have "?d q = d q"
    using others [of ?d a d q] Cons.prems(2,3) by (cases "snd (run a d) = []") auto
  then show ?case
    using Cons.prems Cons.IH [of ?d] others [of e a d q] by auto
qed simp

end

lemma with_extension_suffix: "\<exists>x. with_extension path ext = x @ ''.'' @ ext"
  by (auto simp: with_extension_def)

lemma with_extension_other:
  assumes "\<nexists>x. path = x @ ''.'' @ ext"
  shows "with_extension path ext \<noteq> path"
  using with_extension_suffix [of path ext] assms by metis

lemma temp_name_other: "\<not> contains ''passkey-new-'' path \<Longrightarrow> temp_name pid path \<noteq> path"
proof
  assume no: "\<not> contains ''passkey-new-'' path" and "temp_name pid path = path"
  moreover obtain x where "temp_name pid path = x @ ''.'' @ ''passkey-new-'' @ dec_string pid"
    using with_extension_suffix unfolding temp_name_def by blast
  ultimately have "path = (x @ ''.'') @ ''passkey-new-'' @ dec_string pid" by simp
  then show False using no contains_infix [of "''passkey-new-''" "x @ ''.''" "dec_string pid"] by simp
qed

lemma filling_at: "e \<in> set (filling temp data p n d) \<Longrightarrow> q \<noteq> temp \<Longrightarrow> e q = d q"
  by (auto simp: filling_def)

lemma filling_last: "length data \<le> n \<Longrightarrow> last (filling temp data p n d) = d(temp \<mapsto> \<lparr>body = data, perms = p\<rparr>)"
  by (simp add: filling_def min_absorb2)

lemma filling_ne: "filling temp data p n d \<noteq> []"
  by (simp add: filling_def)

lemma last_filling_at: "q \<noteq> temp \<Longrightarrow> last (filling temp data p n d) q = d q"
  by (rule filling_at [OF last_in_set [OF filling_ne]])

lemma write_file_states:
  assumes "temp_name pid path \<noteq> path"
  shows "e \<in> set (snd (write_file luck pid path data p d)) \<Longrightarrow>
      e path = d path \<or> e path = Some \<lparr>body = data, perms = p\<rparr>"
    and "e \<in> set (snd (write_file luck pid path data p d)) \<Longrightarrow> q \<noteq> path \<Longrightarrow> q \<noteq> temp_name pid path \<Longrightarrow> e q = d q"
    and "last (d # snd (write_file luck pid path data p d)) path =
      (if fst (write_file luck pid path data p d) then Some \<lparr>body = data, perms = p\<rparr> else d path)"
proof -
  note filled = filling_at [of _ "temp_name pid path" data "new_perms luck" "taken luck"]
  show "e \<in> set (snd (write_file luck pid path data p d)) \<Longrightarrow>
      e path = d path \<or> e path = Some \<lparr>body = data, perms = p\<rparr>"
    using assms by (auto simp: write_file_def Let_def rename_file_def filled split: if_splits)
  show "e \<in> set (snd (write_file luck pid path data p d)) \<Longrightarrow> q \<noteq> path \<Longrightarrow> q \<noteq> temp_name pid path \<Longrightarrow> e q = d q"
    by (auto simp: write_file_def Let_def rename_file_def filled split: if_splits)
  show "last (d # snd (write_file luck pid path data p d)) path =
      (if fst (write_file luck pid path data p d) then Some \<lparr>body = data, perms = p\<rparr> else d path)"
    using assms by (simp add: write_file_def Let_def rename_file_def filling_ne last_filling_at)
qed

lemma atomic_write_states:
  assumes "with_extension path ''new'' \<noteq> path"
  shows "e \<in> set (snd (atomic_write luck path data d)) \<Longrightarrow>
      read_file path e = read_file path d \<or> read_file path e = Some data"
    and "e \<in> set (snd (atomic_write luck path data d)) \<Longrightarrow> q \<noteq> path \<Longrightarrow> q \<noteq> with_extension path ''new'' \<Longrightarrow> e q = d q"
    and "read_file path (last (d # snd (atomic_write luck path data d))) =
      (if fst (atomic_write luck path data d) then Some data else read_file path d)"
proof -
  note filled = filling_at [of _ "with_extension path ''new''" data _ "taken luck" d]
  show "e \<in> set (snd (atomic_write luck path data d)) \<Longrightarrow>
      read_file path e = read_file path d \<or> read_file path e = Some data"
    using assms by (auto simp: atomic_write_def Let_def rename_file_def read_file_def filling_last filled split: if_splits)
  show "e \<in> set (snd (atomic_write luck path data d)) \<Longrightarrow> q \<noteq> path \<Longrightarrow> q \<noteq> with_extension path ''new'' \<Longrightarrow> e q = d q"
    by (auto simp: atomic_write_def Let_def rename_file_def filling_last filled split: if_splits)
  show "read_file path (last (d # snd (atomic_write luck path data d))) =
      (if fst (atomic_write luck path data d) then Some data else read_file path d)"
    using assms
    by (simp add: atomic_write_def Let_def rename_file_def read_file_def filling_ne filling_last last_filling_at)
qed

section \<open>The files of the program\<close>

text \<open>The daemon's list of devices, written by \<open>publish\<close> with the text of its state.\<close>

definition devices_path :: string where
  "devices_path = ''/run/passkey/devices''"

definition publish_file :: "write_luck \<times> daemon \<Rightarrow> disk \<Rightarrow> bool \<times> disk list" where
  "publish_file a d = atomic_write (fst a) devices_path (publish_text (snd a)) d"

lemma devices_temp: "with_extension devices_path ''new'' = ''/run/passkey/devices.new''"
  unfolding devices_path_def by code_simp

interpretation devices: replaced_file publish_file "\<lambda>a. publish_text (snd a)" devices_path "''/run/passkey/devices.new''"
proof -
  have t: "with_extension devices_path ''new'' \<noteq> devices_path"
    unfolding devices_temp by (simp add: devices_path_def)
  note states = atomic_write_states [OF t, folded publish_file_def]
  show "replaced_file publish_file (\<lambda>a. publish_text (snd a)) devices_path ''/run/passkey/devices.new''"
  proof
    show "read_file devices_path e = read_file devices_path d \<or> read_file devices_path e = Some (publish_text (snd a))"
      if "e \<in> set (snd (publish_file a d))" for e a d
      using states(1) that unfolding publish_file_def by blast
    show "read_file devices_path (last (d # snd (publish_file a d)))
        = (if fst (publish_file a d) then Some (publish_text (snd a)) else read_file devices_path d)" for d a
      using states(3) unfolding publish_file_def by blast
    show "e q = d q" if "e \<in> set (snd (publish_file a d))" "q \<noteq> devices_path" "q \<noteq> ''/run/passkey/devices.new''" for e a d q
      using states(2) [unfolded devices_temp] that unfolding publish_file_def by blast
  qed
qed

text \<open>The file of keys, which the PAM module and its helper read while the command line replaces it.\<close>

lemma KEYS_plain: "\<not> contains ''passkey-new-'' KEYS"
  unfolding KEYS_def by code_simp

interpretation keys_text: replaced_file "\<lambda>(luck, data) d. write_file luck pid KEYS data p d" snd KEYS
    "temp_name pid KEYS" for pid p
proof -
  note states = write_file_states [OF temp_name_other [OF KEYS_plain]]
  show "replaced_file (\<lambda>(luck, data) d. write_file luck pid KEYS data p d) snd KEYS (temp_name pid KEYS)"
  proof
    show "read_file KEYS e = read_file KEYS d \<or> read_file KEYS e = Some (snd a)"
      if "e \<in> set (snd ((\<lambda>(luck, data) d. write_file luck pid KEYS data p d) a d))" for e a d
      using states(1) [of e "fst a" pid "snd a" p d] that by (auto simp: read_file_def split_def)
    show "read_file KEYS (last (d # snd ((\<lambda>(luck, data) d. write_file luck pid KEYS data p d) a d)))
        = (if fst ((\<lambda>(luck, data) d. write_file luck pid KEYS data p d) a d) then Some (snd a) else read_file KEYS d)"
      for d a
      using states(3) [of d "fst a" pid "snd a" p] unfolding read_file_def split_def by (metis option.map(2) disk_file.select_convs(1))
    show "e q = d q" if "e \<in> set (snd ((\<lambda>(luck, data) d. write_file luck pid KEYS data p d) a d))"
      "q \<noteq> KEYS" "q \<noteq> temp_name pid KEYS" for e a d q
      using states(2) that by (simp add: split_def)
  qed
qed

text \<open>The temporary file of \<open>atomic_write\<close> has one name for all threads, and nothing keeps two of them apart:
  when a second publisher empties it between the last byte and the rename of the first, the list of devices
  is replaced by an empty file.\<close>

lemma overlapping_publishes:
  assumes "opened luck" and "length (publish_text a) \<le> taken luck"
  shows "\<exists>d1 d2. d1 \<in> set (snd (publish_file (luck, a) d))
    \<and> d2 \<in> set (snd (publish_file (luck, b) d1))
    \<and> read_file (with_extension devices_path ''new'') d1 = Some (publish_text a)
    \<and> read_file devices_path (rename_file (with_extension devices_path ''new'') devices_path d2) = Some []"
proof -
  let ?t = "with_extension devices_path ''new''"
  define p where "p = (case d ?t of None \<Rightarrow> new_perms luck | Some f \<Rightarrow> perms f)"
  define d1 where "d1 = last (filling ?t (publish_text a) p (taken luck) d)"
  define q where "q = (case d1 ?t of None \<Rightarrow> new_perms luck | Some f \<Rightarrow> perms f)"
  define d2 where "d2 = d1(?t \<mapsto> \<lparr>body = [], perms = q\<rparr>)"
  have ne: "?t \<noteq> devices_path" unfolding devices_temp by (simp add: devices_path_def)
  have a: "d1 \<in> set (snd (publish_file (luck, a) d))"
    using assms last_in_set [OF filling_ne]
    by (simp add: publish_file_def atomic_write_def Let_def d1_def p_def)
  have "d2 \<in> set (filling ?t (publish_text b) q (taken luck) d1)"
    by (force simp: filling_def d2_def)
  then have b: "d2 \<in> set (snd (publish_file (luck, b) d1))"
    using assms(1) by (simp add: publish_file_def atomic_write_def Let_def q_def)
  have "read_file ?t d1 = Some (publish_text a)"
    using assms(2) by (simp add: d1_def filling_last read_file_def)
  moreover have "read_file devices_path (rename_file ?t devices_path d2) = Some []"
    using ne by (simp add: rename_file_def d2_def read_file_def)
  ultimately show ?thesis using a b by blast
qed

section \<open>Properties\<close>

text \<open>C15: \<open>write_file\<close> replaces a file as a whole: in every state of the disk on the way (so for every reader
  beside it, and after a crash at any point) the file is what it was or has all of the new text and the
  mode asked for; it has the new text exactly when the write reports success; and of the other files
  only the temporary one changes.\<close>

theorem write_file_whole:
  assumes "\<not> contains ''passkey-new-'' path"
  shows "(\<forall>e\<in>set (snd (write_file luck pid path data p d)).
      (e path = d path \<or> e path = Some \<lparr>body = data, perms = p\<rparr>)
      \<and> (\<forall>q. q \<noteq> path \<longrightarrow> q \<noteq> temp_name pid path \<longrightarrow> e q = d q))
    \<and> last (d # snd (write_file luck pid path data p d)) path =
      (if fst (write_file luck pid path data p d) then Some \<lparr>body = data, perms = p\<rparr> else d path)"
proof -
  note states = write_file_states [OF temp_name_other [OF assms]]
  show ?thesis by (intro conjI ballI allI impI states) assumption+
qed

definition sample_luck :: write_luck where
  "sample_luck = \<lparr>dirs_made = True, old_removed = True, opened = True, taken = 9, synced = True,
     chmodded = True, renamed = True, new_perms = 0x1A4\<rparr>"

theorem write_file_whole_witness:
  "fst (write_file sample_luck 7 ''/etc/passkey/names'' ''me'' 0x1A4 Map.empty)
    \<and> last (Map.empty # snd (write_file sample_luck 7 ''/etc/passkey/names'' ''me'' 0x1A4 Map.empty)) ''/etc/passkey/names''
      = Some \<lparr>body = ''me'', perms = 0x1A4\<rparr>"
proof -
  have n: "\<not> contains ''passkey-new-'' ''/etc/passkey/names''" by code_simp
  have f: "fst (write_file sample_luck 7 ''/etc/passkey/names'' ''me'' 0x1A4 Map.empty)"
    by (simp add: write_file_def sample_luck_def Let_def)
  note w = write_file_whole [OF n, of sample_luck 7 "''me''" "0x1A4" Map.empty]
  show ?thesis using f conjunct2 [OF w] unfolding if_P [OF f] by (rule conjI)
qed

text \<open>C31: The command line never reads half a list of devices: however often the daemon publishes (one publisher
  after the other), and whether or not its writes come through, what \<open>connected_devices\<close> finds in the file at any moment is what
  it found before, or one entry, with its label, for each device the daemon asked in one of those states.\<close>

theorem devices_never_torn:
  assumes "\<forall>(luck, s)\<in>set as. \<forall>i\<in>set (live_links s). device_id_ok (ldevice (heap s i)) \<and> clean_label (llabel (heap s i))"
    and "e \<in> set (devices.run_all as d)"
  shows "read_file devices_path e = read_file devices_path d
    \<or> (\<exists>(luck, s)\<in>set as. map_option connected_devices (read_file devices_path e)
        = Some (map (\<lambda>i. (ldevice (heap s i), llabel (heap s i))) (by_device s)))"
proof (cases "read_file devices_path e = read_file devices_path d")
  case False
  then obtain luck s where s: "(luck, s) \<in> set as" "read_file devices_path e = Some (publish_text s)"
    using devices.seen_whole [OF assms(2)] by auto
  then have "map_option connected_devices (read_file devices_path e)
      = Some (map (\<lambda>i. (ldevice (heap s i), llabel (heap s i))) (by_device s))"
    using connected_devices_published [of s] assms(1) by fastforce
  with s(1) show ?thesis by blast
qed simp

definition sample_published :: daemon where
  "sample_published = (daemon_new 5 (\<lambda>_. link_new ''usb:A'' 0 ''Pixel 9'' ''usb:A''))\<lparr>links := [0]\<rparr>"

theorem devices_never_torn_witness:
  "(\<lambda>e. map_option connected_devices (read_file devices_path e))
      ` set (devices.run_all [(sample_luck\<lparr>taken := 40\<rparr>, sample_published)] Map.empty)
    \<subseteq> {None, Some [(''usb:A'', ''Pixel 9'')]}"
proof (rule image_subsetI)
  fix e
  assume e: "e \<in> set (devices.run_all [(sample_luck\<lparr>taken := 40\<rparr>, sample_published)] Map.empty)"
  have l: "live_links sample_published = [0]"
    by (simp add: sample_published_def live_links_def daemon_new_def link_new_def)
  have b: "by_device sample_published = [0]" unfolding by_device_def l by simp
  have h: "ldevice (heap sample_published 0) = ''usb:A''" by (simp add: sample_published_def daemon_new_def link_new_def)
  have t: "llabel (heap sample_published 0) = ''Pixel 9''"
    unfolding sample_published_def daemon_new_def by (simp add: link_new_def) code_simp
  have "clean_label (llabel (heap sample_published 0))"
    unfolding sample_published_def daemon_new_def by (simp add: clean_label_link_new)
  then have "\<forall>(luck, s)\<in>set [(sample_luck\<lparr>taken := 40\<rparr>, sample_published)].
      \<forall>i\<in>set (live_links s). device_id_ok (ldevice (heap s i)) \<and> clean_label (llabel (heap s i))"
    by (simp add: l h device_id_ok_def)
  from devices_never_torn [OF this e] show "map_option connected_devices (read_file devices_path e)
      \<in> {None, Some [(''usb:A'', ''Pixel 9'')]}"
    by (auto simp: b h t read_file_def)
qed

end
