(* ===== verification/Registry.thy ===== *)
theory Registry
  imports Rust_Text
begin

text \<open>
  The registered keys (src/src/cli.rs: \<open>root_store\<close>, \<open>root_remove\<close>, \<open>handles_for\<close>, \<open>names_for\<close>,
  \<open>remove\<close>, \<open>lines_file\<close>, \<open>read_optional\<close>; src/pam/src/lib.rs: \<open>user_registered\<close>).  A file is its
  text, or \<open>None\<close> when it does not exist; whether each write succeeds is an argument.
\<close>

section \<open>Files\<close>

record registry =
  keys_file :: "string option"
  names_file :: "string option"

datatype registry_error =
    MissingCredential
  | MissingName
  | InvalidData
  | NoKeysFile
  | WriteFailed
  | NoSuchDevice

definition read_optional :: "string option \<Rightarrow> string" where
  "read_optional f = (case f of None \<Rightarrow> [] | Some text \<Rightarrow> text)"

text \<open>\<open>lines_file\<close>: one line each, no blank ones.\<close>

definition lines_file :: "string list \<Rightarrow> string" where
  "lines_file ls = concat (map (\<lambda>l. l @ [NL]) (filter (\<lambda>l. l \<noteq> []) ls))"

definition trim_start_matches :: "char \<Rightarrow> string \<Rightarrow> string" where
  "trim_start_matches c s = dropWhile (\<lambda>x. x = c) s"

text \<open>\<open>split(d).next()\<close>.\<close>

definition first_field :: "char \<Rightarrow> string \<Rightarrow> string" where
  "first_field d s = hd (split_on d s)"

section \<open>Storing and removing\<close>

text \<open>\<open>find(...)\<close> on \<open>iter_mut\<close>, then \<open>push_str\<close>; or a new line at the end.\<close>

fun push_credential :: "string \<Rightarrow> string \<Rightarrow> string list \<Rightarrow> string list" where
  "push_credential user credential [] = [user @ credential]"
| "push_credential user credential (line # ls) =
     (if starts_with (user @ '':'') line then (line @ credential) # ls
      else line # push_credential user credential ls)"

definition root_store :: "bool \<Rightarrow> bool \<Rightarrow> string \<Rightarrow> string \<Rightarrow> registry \<Rightarrow> registry_error option \<times> registry" where
  "root_store keys_written names_written user input reg =
     (case str_lines input of
        [] \<Rightarrow> (Some MissingCredential, reg)
      | [_] \<Rightarrow> (Some MissingName, reg)
      | credential # name # _ \<Rightarrow>
          if \<not> starts_with '':'' credential \<or> TAB \<in> set name \<or> NL \<in> set name \<or> CR \<in> set name
          then (Some InvalidData, reg)
          else
            let handle = first_field CHR '','' (trim_start_matches CHR '':'' credential);
                key_lines = push_credential user credential
                  (filter (\<lambda>l. l \<noteq> []) (str_lines (read_optional (keys_file reg))));
                names = lines_file (str_lines (read_optional (names_file reg)))
                  @ user @ TAB # handle @ TAB # name @ [NL]
            in if \<not> keys_written then (Some WriteFailed, reg)
               else
                 let reg1 = reg\<lparr>keys_file := Some (lines_file key_lines)\<rparr> in
                 if \<not> names_written then (Some WriteFailed, reg1)
                 else (None, reg1\<lparr>names_file := Some names\<rparr>))"

text \<open>One line of the loop of \<open>root_remove\<close>.\<close>

definition remove_from_line :: "string \<Rightarrow> string \<Rightarrow> string \<Rightarrow> string list" where
  "remove_from_line user handle line =
     (if \<not> starts_with (user @ '':'') line then [line]
      else
        let fields = split_on CHR '':'' line;
            credentials = filter (\<lambda>credential. first_field CHR '','' credential \<noteq> handle) (tl fields)
        in if credentials = [] then [] else [hd fields @ '':'' @ join_with '':'' credentials])"

definition names_other :: "string \<Rightarrow> string \<Rightarrow> string \<Rightarrow> bool" where
  "names_other user handle line =
     (case split_on TAB line of
        owner # h # _ \<Rightarrow> owner \<noteq> user \<or> h \<noteq> handle
      | _ \<Rightarrow> True)"

definition root_remove :: "bool \<Rightarrow> bool \<Rightarrow> string \<Rightarrow> string \<Rightarrow> registry \<Rightarrow> registry_error option \<times> registry" where
  "root_remove keys_written names_written user handle reg =
     (case keys_file reg of
        None \<Rightarrow> (Some NoKeysFile, reg)
      | Some keys \<Rightarrow>
          let names = read_optional (names_file reg);
              lines = concat (map (remove_from_line user handle) (str_lines keys))
          in if \<not> keys_written then (Some WriteFailed, reg)
             else
               let reg1 = reg\<lparr>keys_file := Some (lines_file lines)\<rparr> in
               if \<not> names_written then (Some WriteFailed, reg1)
               else (None, reg1\<lparr>names_file := Some (lines_file
                 (filter (names_other user handle) (str_lines names)))\<rparr>))"

section \<open>Reading\<close>

fun find_map :: "('a \<Rightarrow> 'b option) \<Rightarrow> 'a list \<Rightarrow> 'b option" where
  "find_map f [] = None"
| "find_map f (x # xs) = (case f x of None \<Rightarrow> find_map f xs | Some y \<Rightarrow> Some y)"

definition user_rest :: "string \<Rightarrow> string list \<Rightarrow> string" where
  "user_rest user ls =
     (case find_map (strip_prefix (user @ '':'')) ls of None \<Rightarrow> [] | Some rest \<Rightarrow> rest)"

definition handles_for :: "string \<Rightarrow> registry \<Rightarrow> string list" where
  "handles_for user reg =
     filter (\<lambda>handle. handle \<noteq> [])
       (map (first_field CHR '','')
         (split_on CHR '':'' (user_rest user (str_lines (read_optional (keys_file reg))))))"

text \<open>\<open>splitn(3, '\t')\<close>: at most three fields, the last one keeps further tabs.\<close>

definition name_line :: "string \<Rightarrow> string \<Rightarrow> string \<Rightarrow> string option" where
  "name_line user handle line =
     (case split_once TAB line of
        None \<Rightarrow> None
      | Some (owner, rest) \<Rightarrow>
          if owner \<noteq> user then None
          else (case split_once TAB rest of
                  None \<Rightarrow> if rest = handle then Some [] else None
                | Some (h, name) \<Rightarrow> if h = handle then Some name else None))"

definition names_for :: "string \<Rightarrow> registry \<Rightarrow> string list" where
  "names_for user reg =
     map (\<lambda>(index, handle).
         case find_map (name_line user handle) (str_lines (read_optional (names_file reg))) of
           Some name \<Rightarrow> if name \<noteq> [] then name else ''Android device '' @ dec_string (index + 1)
         | None \<Rightarrow> ''Android device '' @ dec_string (index + 1))
       (enumerate 0 (handles_for user reg))"

text \<open>\<open>remove\<close>: the device by number or name, and the handle it hands to \<open>root_remove\<close>.\<close>

definition remove_handle :: "string \<Rightarrow> string \<Rightarrow> registry \<Rightarrow> registry_error + string" where
  "remove_handle user which reg =
     (case List.find (\<lambda>(index, name). which = dec_string (index + 1) \<or> which = name)
             (enumerate 0 (names_for user reg)) of
        None \<Rightarrow> Inl NoSuchDevice
      | Some (index, _) \<Rightarrow> Inr (handles_for user reg ! index))"

definition user_registered :: "string \<Rightarrow> string option \<Rightarrow> bool" where
  "user_registered user file =
     (case file of
        None \<Rightarrow> False
      | Some text \<Rightarrow>
          list_ex (\<lambda>line.
            case strip_prefix user line of
              None \<Rightarrow> False
            | Some rest \<Rightarrow>
                (case strip_prefix '':'' rest of None \<Rightarrow> False | Some credentials \<Rightarrow> credentials \<noteq> []))
            (str_lines text))"

section \<open>Lines of a user\<close>

lemma lines_file_unlines: "lines_file ls = unlines (filter (\<lambda>l. l \<noteq> []) ls)"
  by (simp add: lines_file_def unlines_def)

definition clean_line :: "string \<Rightarrow> bool" where
  "clean_line l \<longleftrightarrow> NL \<notin> set l \<and> CR \<notin> set l"

lemma clean_plain: "clean_line l \<Longrightarrow> plain_line l"
  by (auto simp: clean_line_def plain_line_def dest: last_in_set)

lemma str_lines_file [text_rt]:
  "\<forall>l\<in>set ls. clean_line l \<Longrightarrow> str_lines (lines_file ls) = filter (\<lambda>l. l \<noteq> []) ls"
  by (simp add: lines_file_unlines lines_unlines clean_plain)

lemma str_lines_file_append:
  "\<forall>l\<in>set ls. clean_line l \<Longrightarrow> str_lines (lines_file ls @ s) = filter (\<lambda>l. l \<noteq> []) ls @ str_lines s"
  by (simp add: lines_file_unlines lines_unlines_append clean_plain)

lemma str_lines_file_all:
  assumes "\<forall>l\<in>set ls. clean_line l \<and> l \<noteq> []"
  shows "str_lines (lines_file ls) = ls"
proof -
  have "filter (\<lambda>l. l \<noteq> []) ls = ls"
    using assms by (intro filter_True) blast
  moreover have "str_lines (lines_file ls) = filter (\<lambda>l. l \<noteq> []) ls"
    using assms by (intro str_lines_file) blast
  ultimately show ?thesis by simp
qed

lemma find_map_filter: "\<forall>x\<in>set xs. f x \<noteq> None \<longrightarrow> P x \<Longrightarrow> find_map f (filter P xs) = find_map f xs"
  by (induction xs) (auto split: option.splits)

lemma find_map_None: "find_map f xs = None \<longleftrightarrow> (\<forall>x\<in>set xs. f x = None)"
  by (induction xs) (auto split: option.splits)

lemma find_map_Some_in: "find_map f xs = Some y \<Longrightarrow> \<exists>x\<in>set xs. f x = Some y"
  by (induction xs) (auto split: option.splits)

lemma find_map_cong: "(\<And>x. x \<in> set xs \<Longrightarrow> f x = g x) \<Longrightarrow> find_map f xs = find_map g xs"
  by (induction xs) (auto split: option.splits)

lemma find_map_append: "find_map f (xs @ ys) = (case find_map f xs of None \<Rightarrow> find_map f ys | Some y \<Rightarrow> Some y)"
  by (induction xs) (auto split: option.splits)

definition user_ok :: "string \<Rightarrow> bool" where
  "user_ok user \<longleftrightarrow> user \<noteq> [] \<and> CHR '':'' \<notin> set user \<and> TAB \<notin> set user \<and> NL \<notin> set user
     \<and> CR \<notin> set user"

lemma owner_unique:
  assumes "u @ CHR '':'' # x = v @ CHR '':'' # y" and "CHR '':'' \<notin> set u" and "CHR '':'' \<notin> set v"
  shows "u = v \<and> x = y"
proof -
  have "takeWhile (\<lambda>c. c \<noteq> CHR '':'') (u @ CHR '':'' # x) = u"
    "takeWhile (\<lambda>c. c \<noteq> CHR '':'') (v @ CHR '':'' # y) = v"
    using assms(2,3) by (auto simp: takeWhile_append)
  with assms(1) show ?thesis by simp
qed

lemma strip_prefix_own: "strip_prefix (u @ '':'') (u @ CHR '':'' # x) = Some x"
  using strip_prefix_append [of "u @ '':''" x] by simp

lemma strip_prefix_other:
  assumes "CHR '':'' \<notin> set u" and "CHR '':'' \<notin> set v" and "u \<noteq> v"
  shows "strip_prefix (u @ '':'') (v @ CHR '':'' # x) = None"
proof (cases "strip_prefix (u @ '':'') (v @ CHR '':'' # x)")
  case (Some r)
  then have "v @ CHR '':'' # x = u @ CHR '':'' # r"
    by (simp add: strip_prefix_Some)
  with owner_unique assms show ?thesis by metis
qed

lemma rest_of_line:
  assumes "CHR '':'' \<notin> set u" and "CHR '':'' \<notin> set v"
  shows "strip_prefix (u @ '':'') (v @ CHR '':'' # x) = (if u = v then Some x else None)"
  using assms strip_prefix_other [of u v x] by (simp add: strip_prefix_own)

lemma starts_with_strip: "starts_with p s \<longleftrightarrow> strip_prefix p s \<noteq> None"
  by (simp add: strip_prefix_def)

lemma starts_with_own: "starts_with (u @ '':'') line \<longleftrightarrow> (\<exists>rest. line = u @ CHR '':'' # rest)"
  by (auto simp: starts_with_iff)

abbreviation (input) rest_of :: "string \<Rightarrow> string \<Rightarrow> string option" where
  "rest_of u \<equiv> strip_prefix (u @ '':'')"

lemma find_rest_nonempty: "find_map (rest_of u) (filter (\<lambda>l. l \<noteq> []) ls) = find_map (rest_of u) ls"
  by (rule find_map_filter) (auto simp: strip_prefix_def starts_with_def)

lemma push_credential_own:
  "find_map (rest_of u) (push_credential u (CHR '':'' # entry) ls)
    = Some (case find_map (rest_of u) ls of None \<Rightarrow> entry | Some rest \<Rightarrow> rest @ CHR '':'' # entry)"
proof (induction ls)
  case Nil
  then show ?case by (simp add: strip_prefix_own)
next
  case (Cons line ls)
  show ?case
  proof (cases "starts_with (u @ '':'') line")
    case True
    then obtain rest where "line = u @ CHR '':'' # rest"
      by (auto simp: starts_with_own)
    then show ?thesis
      using strip_prefix_own [of u rest] strip_prefix_own [of u "rest @ CHR '':'' # entry"]
      by (simp add: starts_with_own)
  next
    case False
    then have "rest_of u line = None" by (simp add: starts_with_strip)
    with False Cons show ?thesis by simp
  qed
qed

lemma push_credential_other:
  assumes "CHR '':'' \<notin> set u" and "CHR '':'' \<notin> set v" and "u \<noteq> v"
  shows "find_map (rest_of v) (push_credential u (CHR '':'' # entry) ls) = find_map (rest_of v) ls"
proof (induction ls)
  case Nil
  then show ?case using strip_prefix_other [of v u entry] assms by simp
next
  case (Cons line ls)
  show ?case
  proof (cases "starts_with (u @ '':'') line")
    case True
    then obtain rest where "line = u @ CHR '':'' # rest"
      by (auto simp: starts_with_own)
    then show ?thesis
      using strip_prefix_other [of v u] assms by (simp add: starts_with_own)
  next
    case False
    with Cons show ?thesis by (auto split: option.splits)
  qed
qed

text \<open>At most one line per user; then removal is a filter on the user's entries.\<close>

definition one_line_each :: "string list \<Rightarrow> bool" where
  "one_line_each ls \<longleftrightarrow>
     (\<forall>u. CHR '':'' \<notin> set u \<longrightarrow> length (filter (starts_with (u @ '':'')) ls) \<le> 1)"

lemma remove_from_line_own:
  "remove_from_line u handle (u @ CHR '':'' # rest) =
     (let kept = filter (\<lambda>e. first_field CHR '','' e \<noteq> handle) (split_on CHR '':'' rest)
      in if kept = [] then [] else [u @ CHR '':'' # join_with '':'' kept])"
  if "CHR '':'' \<notin> set u"
  using that by (simp add: remove_from_line_def starts_with_own split_on_append Let_def)

lemma remove_find_other:
  assumes "CHR '':'' \<notin> set u" and "CHR '':'' \<notin> set v" and "u \<noteq> v"
  shows "find_map (rest_of v) (concat (map (remove_from_line u handle) ls)) = find_map (rest_of v) ls"
proof (induction ls)
  case (Cons line ls)
  show ?case
  proof (cases "starts_with (u @ '':'') line")
    case True
    then obtain rest where line: "line = u @ CHR '':'' # rest"
      by (auto simp: starts_with_own)
    have "find_map (rest_of v) (remove_from_line u handle line) = None" "rest_of v line = None"
      using strip_prefix_other [of v u] assms line
      by (simp_all add: remove_from_line_own Let_def)
    with Cons show ?thesis by (simp add: find_map_append)
  next
    case False
    then have "remove_from_line u handle line = [line]"
      by (simp add: remove_from_line_def)
    with Cons show ?thesis by (simp add: find_map_append split: option.splits)
  qed
qed simp

lemma remove_find_own:
  assumes "CHR '':'' \<notin> set u" and "length (filter (starts_with (u @ '':'')) ls) \<le> 1"
  shows "find_map (rest_of u) (concat (map (remove_from_line u handle) ls)) =
    (case find_map (rest_of u) ls of
       None \<Rightarrow> None
     | Some rest \<Rightarrow>
         let kept = filter (\<lambda>e. first_field CHR '','' e \<noteq> handle) (split_on CHR '':'' rest)
         in if kept = [] then None else Some (join_with '':'' kept))"
  using assms(2)
proof (induction ls)
  case (Cons line ls)
  show ?case
  proof (cases "starts_with (u @ '':'') line")
    case True
    then obtain rest where line: "line = u @ CHR '':'' # rest"
      by (auto simp: starts_with_own)
    have none: "\<forall>l\<in>set ls. \<not> starts_with (u @ '':'') l"
      using Cons.prems True by (auto simp: filter_empty_conv)
    then have "concat (map (remove_from_line u handle) ls) = ls"
      by (induction ls) (auto simp: remove_from_line_def)
    moreover have "find_map (rest_of u) ls = None"
      using none by (simp add: find_map_None starts_with_strip)
    ultimately show ?thesis
      using assms(1) line by (simp add: remove_from_line_own Let_def strip_prefix_own find_map_append)
  next
    case False
    then have "remove_from_line u handle line = [line]" "rest_of u line = None"
      by (simp_all add: remove_from_line_def starts_with_strip)
    with Cons False show ?thesis by (simp add: find_map_append)
  qed
qed simp

section \<open>The registry as lists of entries\<close>

definition key_lines :: "registry \<Rightarrow> string list" where
  "key_lines reg = str_lines (read_optional (keys_file reg))"

text \<open>What a user has registered: the entries of the user's line.\<close>

definition entries :: "string \<Rightarrow> registry \<Rightarrow> string list" where
  "entries user reg =
     (case find_map (rest_of user) (key_lines reg) of None \<Rightarrow> [] | Some rest \<Rightarrow> split_on CHR '':'' rest)"

definition registry_ok :: "registry \<Rightarrow> bool" where
  "registry_ok reg \<longleftrightarrow> (\<forall>l\<in>set (key_lines reg). clean_line l) \<and> one_line_each (key_lines reg)
     \<and> (\<forall>l\<in>set (str_lines (read_optional (names_file reg))). clean_line l)"

definition entry_ok :: "string \<Rightarrow> bool" where
  "entry_ok entry \<longleftrightarrow> CHR '':'' \<notin> set entry \<and> TAB \<notin> set entry \<and> clean_line entry \<and> entry \<noteq> []"

definition name_ok :: "string \<Rightarrow> bool" where
  "name_ok name \<longleftrightarrow> TAB \<notin> set name \<and> NL \<notin> set name \<and> CR \<notin> set name"

text \<open>Storing as the command line does it: the credential printed by pamu2fcfg and the name, one
  line each.\<close>

definition store_input :: "string \<Rightarrow> string \<Rightarrow> string" where
  "store_input entry name = unlines [CHR '':'' # entry, name]"

definition stored :: "string \<Rightarrow> string \<Rightarrow> string \<Rightarrow> registry \<Rightarrow> registry" where
  "stored name user entry reg = snd (root_store True True user (store_input entry name) reg)"

definition removed :: "string \<Rightarrow> string \<Rightarrow> registry \<Rightarrow> registry" where
  "removed user handle reg = snd (root_remove True True user handle reg)"

lemma clean_line_append [simp]: "clean_line (a @ b) \<longleftrightarrow> clean_line a \<and> clean_line b"
  by (auto simp: clean_line_def)

lemma clean_line_Cons [simp]: "clean_line (c # l) \<longleftrightarrow> c \<noteq> NL \<and> c \<noteq> CR \<and> clean_line l"
  by (auto simp: clean_line_def)

lemma clean_line_subset: "clean_line l \<Longrightarrow> set l' \<subseteq> insert TAB (insert CHR '':'' (set l)) \<Longrightarrow> clean_line l'"
  by (auto simp: clean_line_def)

lemma name_plain: "name_ok name \<Longrightarrow> clean_line name"
  by (simp add: name_ok_def clean_line_def)

lemma root_store_lines:
  assumes "entry_ok entry" and "name_ok name"
  shows "root_store keys_written names_written user (store_input entry name) reg =
    (if \<not> keys_written then (Some WriteFailed, reg)
     else let reg1 = reg\<lparr>keys_file := Some (lines_file (push_credential user (CHR '':'' # entry)
            (filter (\<lambda>l. l \<noteq> []) (key_lines reg))))\<rparr> in
       if \<not> names_written then (Some WriteFailed, reg1)
       else (None, reg1\<lparr>names_file := Some (lines_file (str_lines (read_optional (names_file reg)))
          @ user @ TAB # first_field CHR '','' entry @ TAB # name @ [NL])\<rparr>))"
proof -
  have "str_lines (store_input entry name) = [CHR '':'' # entry, name]"
    using assms name_plain unfolding store_input_def
    by (intro lines_unlines) (auto simp: entry_ok_def intro: clean_plain)
  moreover have "trim_start_matches CHR '':'' (CHR '':'' # entry) = entry"
    using assms(1) by (cases entry) (auto simp: trim_start_matches_def entry_ok_def)
  ultimately show ?thesis
    using assms(2) by (simp add: root_store_def name_ok_def key_lines_def starts_with_def Let_def)
qed

lemma push_credential_lines:
  assumes "\<forall>l\<in>set ls. clean_line l \<and> l \<noteq> []" and "user_ok user" and "entry_ok entry"
  shows "\<forall>l\<in>set (push_credential user (CHR '':'' # entry) ls). clean_line l \<and> l \<noteq> []"
proof -
  have e: "clean_line (CHR '':'' # entry)"
    using assms(3) by (simp add: entry_ok_def clean_line_Cons)
  have "clean_line (user @ CHR '':'' # entry)"
    using e assms(2) by (auto simp: clean_line_def user_ok_def)
  with e assms(1) show ?thesis
    by (induction ls) auto
qed

lemma length_filter_twice: "length (filter P (filter Q xs)) \<le> length (filter P xs)"
  by (induction xs) auto

lemma push_credential_count:
  assumes "CHR '':'' \<notin> set u" and "user_ok user"
  shows "length (filter (starts_with (u @ '':'')) (push_credential user (CHR '':'' # entry) ls))
    = (if u = user then max 1 (length (filter (starts_with (u @ '':'')) ls))
       else length (filter (starts_with (u @ '':'')) ls))"
proof (induction ls)
  case Nil
  then show ?case
    using assms by (simp add: starts_with_strip rest_of_line user_ok_def)
next
  case (Cons line ls)
  show ?case
  proof (cases "starts_with (user @ '':'') line")
    case True
    then obtain rest where line: "line = user @ CHR '':'' # rest"
      by (auto simp: starts_with_own)
    have "starts_with (u @ '':'') line \<longleftrightarrow> u = user"
      "starts_with (u @ '':'') (line @ CHR '':'' # entry) \<longleftrightarrow> u = user"
      using assms line by (simp_all add: starts_with_strip rest_of_line user_ok_def)
    with True show ?thesis by simp
  next
    case False
    with Cons show ?thesis by auto
  qed
qed

lemma key_lines_stored:
  assumes "registry_ok reg" and "user_ok user" and "entry_ok entry" and "name_ok name"
  shows "key_lines (stored name user entry reg)
      = push_credential user (CHR '':'' # entry) (filter (\<lambda>l. l \<noteq> []) (key_lines reg))"
    and "str_lines (read_optional (names_file (stored name user entry reg)))
      = filter (\<lambda>l. l \<noteq> []) (str_lines (read_optional (names_file reg)))
        @ [user @ TAB # first_field CHR '','' entry @ TAB # name]"
proof -
  let ?ls = "push_credential user (CHR '':'' # entry) (filter (\<lambda>l. l \<noteq> []) (key_lines reg))"
  have "\<forall>l\<in>set ?ls. clean_line l \<and> l \<noteq> []"
    using assms by (intro push_credential_lines) (auto simp: registry_ok_def)
  then have "str_lines (lines_file ?ls) = ?ls"
    by (rule str_lines_file_all)
  moreover have files: "keys_file (stored name user entry reg) = Some (lines_file ?ls)"
    "names_file (stored name user entry reg) = Some (lines_file (str_lines (read_optional (names_file reg)))
      @ user @ TAB # first_field CHR '','' entry @ TAB # name @ [NL])"
    by (simp_all add: stored_def root_store_lines [OF assms(3,4)])
  ultimately show "key_lines (stored name user entry reg) = ?ls"
    unfolding key_lines_def [of "stored name user entry reg"] by (simp add: read_optional_def)
  have sub: "set (first_field CHR '','' entry) \<subseteq> set entry"
    using split_on_subset [of "first_field CHR '','' entry" "CHR '',''" entry]
    by (simp add: first_field_def)
  have "clean_line (user @ TAB # first_field CHR '','' entry @ TAB # name)"
    using name_plain [OF assms(4)] assms(2,3) sub by (auto simp: clean_line_def user_ok_def entry_ok_def)
  then have "str_lines ((user @ TAB # first_field CHR '','' entry @ TAB # name) @ NL # [])
      = [user @ TAB # first_field CHR '','' entry @ TAB # name]"
    by (subst str_lines_cons) (simp_all add: clean_plain)
  with assms show "str_lines (read_optional (names_file (stored name user entry reg)))
      = filter (\<lambda>l. l \<noteq> []) (str_lines (read_optional (names_file reg)))
        @ [user @ TAB # first_field CHR '','' entry @ TAB # name]"
    unfolding files by (simp add: read_optional_def str_lines_file_append registry_ok_def)
qed

lemma first_field_subset: "set (first_field d s) \<subseteq> set s"
  using split_on_subset [of "first_field d s" d s] by (simp add: first_field_def)

lemma stored_ok:
  assumes "registry_ok reg" and "user_ok user" and "entry_ok entry" and "name_ok name"
  shows "registry_ok (stored name user entry reg)"
proof -
  let ?nonempty = "filter (\<lambda>l. l \<noteq> []) (key_lines reg)"
  let ?ls = "push_credential user (CHR '':'' # entry) ?nonempty"
  have "\<forall>l\<in>set ?nonempty. clean_line l \<and> l \<noteq> []"
    using assms(1) by (simp add: registry_ok_def)
  from push_credential_lines [OF this assms(2,3)] have clean: "\<forall>l\<in>set ?ls. clean_line l"
    by blast
  have "length (filter (starts_with (u @ '':'')) ?nonempty) \<le> 1" if "CHR '':'' \<notin> set u" for u
  proof -
    have "length (filter (starts_with (u @ '':'')) ?nonempty) \<le> length (filter (starts_with (u @ '':'')) (key_lines reg))"
      by (rule length_filter_twice)
    also have "\<dots> \<le> 1"
      using assms(1) that by (simp add: registry_ok_def one_line_each_def)
    finally show ?thesis .
  qed
  then have count: "one_line_each ?ls"
    using assms(2) by (simp add: one_line_each_def push_credential_count)
  have "clean_line (user @ TAB # first_field CHR '','' entry @ TAB # name)"
    using name_plain [OF assms(4)] assms(2,3) first_field_subset [of "CHR '',''" entry]
    by (auto simp: clean_line_def user_ok_def entry_ok_def)
  then show ?thesis
    using clean count assms(1) unfolding registry_ok_def key_lines_stored [OF assms] by auto
qed

lemma entries_stored_own:
  assumes "registry_ok reg" and "user_ok user" and "entry_ok entry" and "name_ok name"
  shows "entries user (stored name user entry reg) = entries user reg @ [entry]"
proof -
  have "split_on CHR '':'' entry = [entry]"
    using assms(3) by (simp add: entry_ok_def split_on_single)
  then show ?thesis
    using assms(3) unfolding entries_def key_lines_stored(1) [OF assms] push_credential_own find_rest_nonempty
    by (simp add: split_on_app_join split: option.splits)
qed

lemma entries_stored_other:
  assumes "registry_ok reg" and "user_ok user" and "entry_ok entry" and "name_ok name"
    and "user_ok other" and "other \<noteq> user"
  shows "entries other (stored name user entry reg) = entries other reg"
  using assms(2,5,6) push_credential_other [of user other]
  unfolding entries_def key_lines_stored(1) [OF assms(1-4)]
  by (simp add: user_ok_def find_rest_nonempty)

section \<open>Removing\<close>

lemma removed_files:
  assumes "keys_file reg = Some keys"
  shows "keys_file (removed user handle reg)
      = Some (lines_file (concat (map (remove_from_line user handle) (key_lines reg))))"
    and "names_file (removed user handle reg)
      = Some (lines_file (filter (names_other user handle) (str_lines (read_optional (names_file reg)))))"
  using assms by (simp_all add: removed_def root_remove_def key_lines_def read_optional_def)

lemma remove_from_line_cases:
  assumes "user_ok user"
  obtains (whole) "remove_from_line user handle line = [line]"
  | (dropped) "remove_from_line user handle line = []"
  | (shortened) rest kept where "line = user @ CHR '':'' # rest" "set kept \<subseteq> set (split_on CHR '':'' rest)"
      "remove_from_line user handle line = [user @ CHR '':'' # join_with '':'' kept]"
proof (cases "starts_with (user @ '':'') line")
  case True
  then obtain rest where rest: "line = user @ CHR '':'' # rest"
    by (auto simp: starts_with_own)
  let ?kept = "filter (\<lambda>e. first_field CHR '','' e \<noteq> handle) (split_on CHR '':'' rest)"
  have "remove_from_line user handle line
      = (if ?kept = [] then [] else [user @ CHR '':'' # join_with '':'' ?kept])"
    using assms rest by (simp add: remove_from_line_own user_ok_def Let_def)
  with rest show thesis
    using dropped shortened [of rest ?kept] by (cases "?kept = []") auto
qed (use whole in \<open>simp add: remove_from_line_def\<close>)

lemma remove_from_line_clean:
  assumes "user_ok user" and "clean_line line"
  shows "\<forall>l\<in>set (remove_from_line user handle line). clean_line l"
  using assms(1)
proof (cases rule: remove_from_line_cases [where handle = handle and line = line])
  case (shortened rest kept)
  have "set (join_with '':'' kept) \<subseteq> insert CHR '':'' (set rest)"
    using shortened(2) set_join_with [of "'':''" kept] split_on_subset [of _ "CHR '':''" rest] by fastforce
  then have "clean_line (join_with '':'' kept)"
    using assms(2) shortened(1) by (auto simp: clean_line_def)
  with assms shortened show ?thesis by simp
qed (use assms in auto)

lemma remove_from_line_count:
  assumes "user_ok user" and "CHR '':'' \<notin> set u"
  shows "length (filter (starts_with (u @ '':'')) (remove_from_line user handle line))
    \<le> length (filter (starts_with (u @ '':'')) [line])"
  using assms(1)
proof (cases rule: remove_from_line_cases [where handle = handle and line = line])
  case (shortened rest kept)
  then show ?thesis
    using assms by (simp add: starts_with_strip rest_of_line user_ok_def)
qed auto

lemma remove_lines_ok:
  assumes "user_ok user" and "\<forall>l\<in>set ls. clean_line l" and "one_line_each ls"
  shows "\<forall>l\<in>set (concat (map (remove_from_line user handle) ls)). clean_line l"
    and "one_line_each (filter (\<lambda>l. l \<noteq> []) (concat (map (remove_from_line user handle) ls)))"
proof -
  show "\<forall>l\<in>set (concat (map (remove_from_line user handle) ls)). clean_line l"
    using assms(1,2) remove_from_line_clean by fastforce
  have "length (filter (starts_with (u @ '':'')) (filter (\<lambda>l. l \<noteq> []) (concat (map (remove_from_line user handle) ls)))) \<le> 1"
    if u: "CHR '':'' \<notin> set u" for u
  proof -
    let ?new = "concat (map (remove_from_line user handle) ls)"
    have "length (filter (starts_with (u @ '':'')) (filter (\<lambda>l. l \<noteq> []) ?new))
        = length (filter (starts_with (u @ '':'')) ?new)"
      by (simp add: filter_filter, intro arg_cong [of _ _ length] filter_cong)
         (auto simp: starts_with_def)
    also have "\<dots> \<le> length (filter (starts_with (u @ '':'')) ls)"
    proof (induction ls)
      case (Cons line ls)
      with remove_from_line_count [OF assms(1) u, of handle line] show ?case by (auto split: if_splits)
    qed simp
    also have "\<dots> \<le> 1"
      using assms(3) u by (simp add: one_line_each_def)
    finally show ?thesis .
  qed
  then show "one_line_each (filter (\<lambda>l. l \<noteq> []) (concat (map (remove_from_line user handle) ls)))"
    by (simp add: one_line_each_def)
qed

lemma key_lines_removed:
  assumes "registry_ok reg" and "user_ok user" and "keys_file reg \<noteq> None"
  shows "key_lines (removed user handle reg)
    = filter (\<lambda>l. l \<noteq> []) (concat (map (remove_from_line user handle) (key_lines reg)))"
proof -
  obtain keys where keys: "keys_file reg = Some keys" using assms(3) by blast
  have "str_lines (lines_file (concat (map (remove_from_line user handle) (key_lines reg))))
      = filter (\<lambda>l. l \<noteq> []) (concat (map (remove_from_line user handle) (key_lines reg)))"
    using assms by (intro str_lines_file remove_lines_ok(1)) (auto simp: registry_ok_def)
  then show ?thesis
    unfolding key_lines_def [of "removed user handle reg"] removed_files(1) [OF keys]
    by (simp add: read_optional_def)
qed

lemma names_lines_removed:
  assumes "registry_ok reg" and "keys_file reg \<noteq> None"
  shows "str_lines (read_optional (names_file (removed user handle reg)))
    = filter (\<lambda>l. l \<noteq> []) (filter (names_other user handle) (str_lines (read_optional (names_file reg))))"
proof -
  obtain keys where keys: "keys_file reg = Some keys" using assms(2) by blast
  have "str_lines (lines_file (filter (names_other user handle) (str_lines (read_optional (names_file reg)))))
    = filter (\<lambda>l. l \<noteq> []) (filter (names_other user handle) (str_lines (read_optional (names_file reg))))"
    using assms(1) by (intro str_lines_file) (simp add: registry_ok_def)
  then show ?thesis
    unfolding removed_files(2) [OF keys] by (simp add: read_optional_def)
qed

lemma removed_nothing: "keys_file reg = None \<Longrightarrow> removed user handle reg = reg"
  by (simp add: removed_def root_remove_def)

lemma removed_ok:
  assumes "registry_ok reg" and "user_ok user"
  shows "registry_ok (removed user handle reg)"
proof (cases "keys_file reg = None")
  case False
  then show ?thesis
    using assms remove_lines_ok [OF assms(2), of "key_lines reg" handle]
    unfolding registry_ok_def key_lines_removed [OF assms False] names_lines_removed [OF assms(1) False]
    by auto
qed (use assms in \<open>simp add: removed_nothing\<close>)

lemma entries_removed_own:
  assumes "registry_ok reg" and "user_ok user"
  shows "entries user (removed user handle reg)
    = filter (\<lambda>e. first_field CHR '','' e \<noteq> handle) (entries user reg)"
proof (cases "keys_file reg = None")
  case True
  then show ?thesis
    by (simp add: removed_nothing entries_def key_lines_def read_optional_def)
next
  case False
  have "length (filter (starts_with (user @ '':'')) (key_lines reg)) \<le> 1" "CHR '':'' \<notin> set user"
    using assms by (auto simp: registry_ok_def one_line_each_def user_ok_def)
  then have found: "find_map (rest_of user) (key_lines (removed user handle reg)) =
      (case find_map (rest_of user) (key_lines reg) of
         None \<Rightarrow> None
       | Some rest \<Rightarrow>
           let kept = filter (\<lambda>e. first_field CHR '','' e \<noteq> handle) (split_on CHR '':'' rest)
           in if kept = [] then None else Some (join_with '':'' kept))"
    by (simp add: key_lines_removed [OF assms False] find_rest_nonempty remove_find_own)
  have split_kept: "split_on CHR '':'' (join_with '':'' kept) = kept"
    if "kept \<noteq> []" "set kept \<subseteq> set (split_on CHR '':'' rest)" for kept rest
  proof (intro split_join ballI that(1))
    fix e
    assume "e \<in> set kept"
    with that(2) have "e \<in> set (split_on CHR '':'' rest)" by blast
    then show "CHR '':'' \<notin> set e" by (rule split_on_no_sep)
  qed
  show ?thesis
  proof (cases "find_map (rest_of user) (key_lines reg)")
    case None
    then show ?thesis unfolding entries_def found by simp
  next
    case (Some rest)
    let ?kept = "filter (\<lambda>e. first_field CHR '','' e \<noteq> handle) (split_on CHR '':'' rest)"
    have "?kept \<noteq> [] \<Longrightarrow> split_on CHR '':'' (join_with '':'' ?kept) = ?kept"
      by (rule split_kept) auto
    with Some show ?thesis unfolding entries_def found by (simp add: Let_def)
  qed
qed

lemma entries_removed_other:
  assumes "registry_ok reg" and "user_ok user" and "user_ok other" and "other \<noteq> user"
  shows "entries other (removed user handle reg) = entries other reg"
proof (cases "keys_file reg = None")
  case False
  then show ?thesis
    using assms remove_find_other [of user other handle "key_lines reg"]
    by (simp add: entries_def key_lines_removed find_rest_nonempty user_ok_def)
qed (simp add: removed_nothing)

section \<open>The contract of a store of credentials\<close>

text \<open>
  What the commands \<open>add\<close> and \<open>remove\<close> and the readers of the registry rely on: storing appends to
  the user's list, removing a handle filters it, and nobody else's list changes.
\<close>

locale credential_store =
  fixes ok :: "'s \<Rightarrow> bool"
    and list :: "'u \<Rightarrow> 's \<Rightarrow> 'e list"
    and put :: "'u \<Rightarrow> 'i \<Rightarrow> 's \<Rightarrow> 's"
    and del :: "'u \<Rightarrow> 'h \<Rightarrow> 's \<Rightarrow> 's"
    and known :: "'u \<Rightarrow> bool"
    and fine :: "'i \<Rightarrow> bool"
    and item :: "'i \<Rightarrow> 'e"
    and handle :: "'e \<Rightarrow> 'h"
  assumes put_ok: "ok s \<Longrightarrow> known u \<Longrightarrow> fine i \<Longrightarrow> ok (put u i s)"
    and put_own: "ok s \<Longrightarrow> known u \<Longrightarrow> fine i \<Longrightarrow> list u (put u i s) = list u s @ [item i]"
    and put_other: "ok s \<Longrightarrow> known u \<Longrightarrow> fine i \<Longrightarrow> known v \<Longrightarrow> v \<noteq> u \<Longrightarrow> list v (put u i s) = list v s"
    and del_ok: "ok s \<Longrightarrow> known u \<Longrightarrow> ok (del u h s)"
    and del_own: "ok s \<Longrightarrow> known u \<Longrightarrow> list u (del u h s) = filter (\<lambda>e. handle e \<noteq> h) (list u s)"
    and del_other: "ok s \<Longrightarrow> known u \<Longrightarrow> known v \<Longrightarrow> v \<noteq> u \<Longrightarrow> list v (del u h s) = list v s"
begin

lemma puts: "ok s \<Longrightarrow> known u \<Longrightarrow> \<forall>i\<in>set is. fine i \<Longrightarrow>
    ok (fold (put u) is s) \<and> list u (fold (put u) is s) = list u s @ map item is"
  by (induction "is" arbitrary: s) (auto simp: put_ok put_own)

lemma put_del:
  assumes "ok s" and "known u" and "fine i" and "handle (item i) \<notin> handle ` set (list u s)" and "known v"
  shows "list v (del u (handle (item i)) (put u i s)) = list v s"
proof (cases "v = u")
  case True
  have "filter (\<lambda>e. handle e \<noteq> handle (item i)) (list u s) = list u s"
    using assms(4) by (intro filter_True) (metis image_eqI)
  with True assms show ?thesis by (simp add: del_own put_ok put_own)
next
  case False
  with assms show ?thesis by (simp add: del_other put_ok put_other)
qed

text \<open>Any number of registrations and removals, of any users.\<close>

lemma dels: "ok s \<Longrightarrow> known u \<Longrightarrow>
    ok (fold (del u) hs s) \<and> list u (fold (del u) hs s) = filter (\<lambda>e. handle e \<notin> set hs) (list u s)"
proof (induction hs arbitrary: s)
  case (Cons h hs)
  then show ?case
    by (simp add: del_ok del_own conj_commute)
qed simp

lemma del_all: "ok s \<Longrightarrow> known u \<Longrightarrow> list u (fold (del u) (map handle (list u s)) s) = []"
  using dels [of s u "map handle (list u s)"] by simp

end

interpretation keys: credential_store registry_ok entries
    "\<lambda>user (entry, name). stored name user entry" removed user_ok
    "\<lambda>(entry, name). entry_ok entry \<and> name_ok name" fst "first_field CHR '',''"
  by unfold_locales
     (auto simp: stored_ok entries_stored_own entries_stored_other removed_ok entries_removed_own
        entries_removed_other)

section \<open>What the readers see\<close>

lemma handles_for_entries:
  "handles_for user reg = filter (\<lambda>h. h \<noteq> []) (map (first_field CHR '','') (entries user reg))"
  by (simp add: handles_for_def user_rest_def entries_def key_lines_def first_field_def split: option.splits)

lemma strip_prefix_both: "strip_prefix (p @ q) (p @ s) = strip_prefix q s"
  by (simp add: strip_prefix_def starts_with_def)

lemma strip_two: "(case strip_prefix user line of None \<Rightarrow> None | Some rest \<Rightarrow> strip_prefix '':'' rest)
    = strip_prefix (user @ '':'') line"
proof (cases "strip_prefix user line")
  case None
  then have "\<not> (\<exists>r. line = user @ r)"
    by (metis not_Some_eq strip_prefix_Some)
  then have "strip_prefix (user @ '':'') line = None"
    by (metis append.assoc not_None_eq strip_prefix_Some)
  with None show ?thesis by simp
next
  case (Some r)
  then have "line = user @ r"
    by (simp add: strip_prefix_Some)
  then show ?thesis
    by (simp add: strip_prefix_both)
qed

lemma user_registered_rest:
  "user_registered user file \<longleftrightarrow>
     (\<exists>line\<in>set (str_lines (read_optional file)). \<exists>rest. rest_of user line = Some rest \<and> rest \<noteq> [])"
proof -
  have "(case strip_prefix user line of None \<Rightarrow> False
      | Some rest \<Rightarrow> (case strip_prefix '':'' rest of None \<Rightarrow> False | Some credentials \<Rightarrow> credentials \<noteq> []))
    \<longleftrightarrow> (\<exists>rest. rest_of user line = Some rest \<and> rest \<noteq> [])" for line
    unfolding strip_two [symmetric] by (auto split: option.splits)
  then show ?thesis
    by (simp add: user_registered_def read_optional_def list_ex_iff split: option.splits)
qed

lemma one_line_found:
  assumes "one_line_each ls" and "CHR '':'' \<notin> set u" and "line \<in> set ls" and "rest_of u line = Some rest"
  shows "find_map (rest_of u) ls = Some rest"
  using assms(1,3)
proof (induction ls)
  case (Cons l ls)
  have tail: "one_line_each ls"
    using Cons.prems(1) unfolding one_line_each_def by (auto split: if_splits)
  show ?case
  proof (cases "rest_of u l")
    case None
    with Cons.IH [OF tail] Cons.prems(2) assms(4) show ?thesis by auto
  next
    case (Some r)
    then have "filter (starts_with (u @ '':'')) ls = []"
      using Cons.prems(1) assms(2) by (auto simp: one_line_each_def starts_with_strip)
    then have "line = l"
      using Cons.prems(2) assms(4) by (auto simp: filter_empty_conv starts_with_strip)
    with Some assms(4) show ?thesis by simp
  qed
qed simp

lemma split_on_Nil_iff: "split_on d s = [[]] \<longleftrightarrow> s = []"
  by (cases s) (auto split: list.splits)

lemma user_registered_entries:
  assumes "registry_ok reg" and "user_ok user"
  shows "user_registered user (keys_file reg) \<longleftrightarrow> entries user reg \<noteq> [] \<and> entries user reg \<noteq> [[]]"
proof
  have one: "one_line_each (key_lines reg)" "CHR '':'' \<notin> set user"
    using assms by (simp_all add: registry_ok_def user_ok_def)
  {
    assume "user_registered user (keys_file reg)"
    then obtain line rest where "line \<in> set (key_lines reg)" "rest_of user line = Some rest" "rest \<noteq> []"
      by (auto simp: user_registered_rest key_lines_def)
    then have "find_map (rest_of user) (key_lines reg) = Some rest" "rest \<noteq> []"
      using one_line_found [OF one] by auto
    then show "entries user reg \<noteq> [] \<and> entries user reg \<noteq> [[]]"
      by (simp add: entries_def split_on_Nil_iff)
  next
    assume e: "entries user reg \<noteq> [] \<and> entries user reg \<noteq> [[]]"
    then obtain rest where "find_map (rest_of user) (key_lines reg) = Some rest" "rest \<noteq> []"
      by (auto simp: entries_def split_on_Nil_iff split: option.splits)
    moreover from this obtain line where "line \<in> set (key_lines reg)" "rest_of user line = Some rest"
      by (metis find_map_Some_in)
    ultimately show "user_registered user (keys_file reg)"
      by (auto simp: user_registered_rest key_lines_def)
  }
qed

section \<open>Names\<close>

lemma name_line_own:
  "TAB \<notin> set user \<Longrightarrow> TAB \<notin> set handle \<Longrightarrow>
    name_line user handle (user @ TAB # handle @ TAB # name) = Some name"
  by (simp add: name_line_def split_once_append)

lemma name_line_other:
  "TAB \<notin> set u \<Longrightarrow> TAB \<notin> set h \<Longrightarrow> (u, h) \<noteq> (user, handle) \<Longrightarrow>
    name_line user handle (u @ TAB # h @ TAB # name) = None"
  by (auto simp: name_line_def split_once_append)

lemma name_line_Nil: "name_line user handle [] = None"
  by (simp add: name_line_def split_once_def)

definition stored_name :: "string \<Rightarrow> string \<Rightarrow> registry \<Rightarrow> string option" where
  "stored_name user handle reg = find_map (name_line user handle) (str_lines (read_optional (names_file reg)))"

lemma names_for_eq: "names_for user reg =
   map (\<lambda>(index, handle). case stored_name user handle reg of
           Some name \<Rightarrow> if name \<noteq> [] then name else ''Android device '' @ dec_string (index + 1)
         | None \<Rightarrow> ''Android device '' @ dec_string (index + 1))
       (enumerate 0 (handles_for user reg))"
  by (simp add: names_for_def stored_name_def)

lemma stored_name_stored:
  assumes "registry_ok reg" and "user_ok user" and "entry_ok entry" and "name_ok name" and "user_ok u"
  shows "stored_name u h (stored name user entry reg) =
    (case stored_name u h reg of
       Some n \<Rightarrow> Some n
     | None \<Rightarrow> if u = user \<and> h = first_field CHR '','' entry then Some name else None)"
proof -
  have sub: "TAB \<notin> set user" "TAB \<notin> set (first_field CHR '','' entry)"
    using assms(2,3) first_field_subset [of "CHR '',''" entry] by (auto simp: user_ok_def entry_ok_def)
  have nonempty: "find_map (name_line u h) (filter (\<lambda>l. l \<noteq> []) ls) = find_map (name_line u h) ls" for ls
    by (rule find_map_filter) (auto simp: name_line_Nil)
  have new: "name_line u h (user @ TAB # first_field CHR '','' entry @ TAB # name)
      = (if u = user \<and> h = first_field CHR '','' entry then Some name else None)"
  proof (cases "(user, first_field CHR '','' entry) = (u, h)")
    case True
    with name_line_own [OF sub] show ?thesis by simp
  next
    case False
    then show ?thesis
      unfolding name_line_other [OF sub False] by auto
  qed
  show ?thesis
    unfolding stored_name_def key_lines_stored(2) [OF assms(1-4)] find_map_append find_map.simps nonempty new
    by (simp split: option.splits)
qed

text \<open>An empty registry, and one key as pamu2fcfg prints it; used by the concrete runs below.\<close>

definition no_keys :: registry where
  "no_keys = \<lparr>keys_file = None, names_file = None\<rparr>"

definition sample_entry :: string where
  "sample_entry = ''aWQx,a2V5MQ==,es256,+presence+verification''"

lemma no_keys_ok: "registry_ok no_keys"
  by (simp add: registry_ok_def no_keys_def key_lines_def read_optional_def one_line_each_def)

lemma sample_ok: "user_ok ''me''" "entry_ok sample_entry" "name_ok ''Pixel''"
  by (simp_all add: user_ok_def entry_ok_def name_ok_def sample_entry_def clean_line_def)

section \<open>Properties\<close>

text \<open>Registering a key appends exactly that key to the user's list, keeps every other user's list
  and the files' form, makes the user registered for the PAM module, and lists the device under
  the name it was given, after the names of the earlier ones.\<close>

lemma store_appends:
  assumes "registry_ok reg" and "user_ok user" and "entry_ok entry" and "name_ok name"
  shows "registry_ok (stored name user entry reg)
    \<and> entries user (stored name user entry reg) = entries user reg @ [entry]
    \<and> (\<forall>other. user_ok other \<and> other \<noteq> user \<longrightarrow>
        entries other (stored name user entry reg) = entries other reg
        \<and> names_for other (stored name user entry reg) = names_for other reg)
    \<and> user_registered user (keys_file (stored name user entry reg))
    \<and> (first_field CHR '','' entry \<noteq> [] \<and> name \<noteq> []
        \<and> stored_name user (first_field CHR '','' entry) reg = None
        \<and> first_field CHR '','' entry \<notin> set (handles_for user reg) \<longrightarrow>
        names_for user (stored name user entry reg) = names_for user reg @ [name])"
proof -
  let ?reg = "stored name user entry reg" and ?h = "first_field CHR '','' entry"
  have i: "(case (entry, name) of (entry, name) \<Rightarrow> entry_ok entry \<and> name_ok name)"
    using assms by simp
  have own: "entries user ?reg = entries user reg @ [entry]"
    using keys.put_own [OF assms(1,2) i] by simp
  have other: "entries v ?reg = entries v reg" if "user_ok v" "v \<noteq> user" for v
    using keys.put_other [OF assms(1,2) i that] by simp
  have ok: "registry_ok ?reg"
    using keys.put_ok [OF assms(1,2) i] by simp
  have "user_registered user (keys_file ?reg)"
    using assms(3) own by (subst user_registered_entries [OF ok assms(2)]) (auto simp: entry_ok_def)
  moreover have "names_for v ?reg = names_for v reg" if "user_ok v" "v \<noteq> user" for v
  proof -
    have "stored_name v h ?reg = stored_name v h reg" for h
      using that(2) by (simp add: stored_name_stored [OF assms that(1)] split: option.splits)
    then show ?thesis
      using other [OF that] by (simp add: names_for_eq handles_for_entries)
  qed
  moreover have "names_for user ?reg = names_for user reg @ [name]"
    if new: "?h \<noteq> []" "name \<noteq> []" "stored_name user ?h reg = None" "?h \<notin> set (handles_for user reg)"
  proof -
    have handles: "handles_for user ?reg = handles_for user reg @ [?h]"
      using new(1) by (simp add: handles_for_entries own)
    have same: "stored_name user h ?reg = stored_name user h reg" if "h \<in> set (handles_for user reg)" for h
      using that new(4) by (auto simp: stored_name_stored [OF assms assms(2)] split: option.splits)
    have last: "stored_name user ?h ?reg = Some name"
      using new(3) by (simp add: stored_name_stored [OF assms assms(2)])
    have "map (\<lambda>(index, handle). case stored_name user handle ?reg of
           Some name \<Rightarrow> if name \<noteq> [] then name else ''Android device '' @ dec_string (index + 1)
         | None \<Rightarrow> ''Android device '' @ dec_string (index + 1))
       (enumerate 0 (handles_for user reg)) = names_for user reg"
      unfolding names_for_eq
      by (rule map_cong [OF refl]) (auto simp: in_set_enumerate_eq same)
    with last new(2) show ?thesis
      unfolding names_for_eq [of user ?reg] handles by (simp add: enumerate_append_eq)
  qed
  ultimately show ?thesis
    using own other ok by blast
qed

text \<open>Removing a key takes away exactly the user's keys with that handle, keeps every other user's
  keys and the files' form; the user whose last key goes is no longer registered.\<close>

theorem remove_filters:
  assumes "registry_ok reg" and "user_ok user"
  shows "registry_ok (removed user handle reg)
    \<and> entries user (removed user handle reg) = filter (\<lambda>e. first_field CHR '','' e \<noteq> handle) (entries user reg)
    \<and> handles_for user (removed user handle reg) = filter (\<lambda>h. h \<noteq> handle) (handles_for user reg)
    \<and> (\<forall>other. user_ok other \<and> other \<noteq> user \<longrightarrow> entries other (removed user handle reg) = entries other reg)
    \<and> ((\<forall>e\<in>set (entries user reg). first_field CHR '','' e = handle) \<longrightarrow>
        \<not> user_registered user (keys_file (removed user handle reg)))"
proof -
  have own: "entries user (removed user handle reg)
      = filter (\<lambda>e. first_field CHR '','' e \<noteq> handle) (entries user reg)"
    using assms by (rule keys.del_own)
  have ok: "registry_ok (removed user handle reg)"
    using assms by (rule keys.del_ok)
  have "handles_for user (removed user handle reg) = filter (\<lambda>h. h \<noteq> handle) (handles_for user reg)"
    by (simp add: handles_for_entries own filter_map comp_def conj_commute)
  moreover have "\<not> user_registered user (keys_file (removed user handle reg))"
    if "\<forall>e\<in>set (entries user reg). first_field CHR '','' e = handle"
    using that own by (subst user_registered_entries [OF ok assms(2)]) (simp add: filter_empty_conv)
  ultimately show ?thesis
    using own ok keys.del_other [OF assms] by blast
qed

theorem remove_filters_witness:
  "entries ''me'' (removed ''me'' ''aWQx'' no_keys) = []
    \<and> \<not> user_registered ''me'' (keys_file (removed ''me'' ''aWQx'' no_keys))"
  using remove_filters [OF no_keys_ok sample_ok(1), of "''aWQx''"]
  by (simp add: entries_def key_lines_def read_optional_def no_keys_def)

text \<open>Removing what was just registered restores every user's keys, when the handle was new; and
  removing all of a user's handles, in any state, leaves the user with none.\<close>

theorem store_then_remove:
  assumes "registry_ok reg" and "user_ok user" and "entry_ok entry" and "name_ok name"
    and "first_field CHR '','' entry \<notin> first_field CHR '','' ` set (entries user reg)" and "user_ok v"
  shows "entries v (removed user (first_field CHR '','' entry) (stored name user entry reg)) = entries v reg
    \<and> entries user (fold (removed user) (map (first_field CHR '','') (entries user reg)) reg) = []"
  using keys.put_del [OF assms(1,2), of "(entry, name)" v] keys.del_all [OF assms(1,2)] assms by simp

theorem store_then_remove_witness:
  "entries ''me'' (removed ''me'' (first_field CHR '','' sample_entry) (stored ''Pixel'' ''me'' sample_entry no_keys)) = []"
proof -
  have "entries ''me'' no_keys = []"
    by (simp add: entries_def key_lines_def read_optional_def no_keys_def)
  then show ?thesis
    using store_then_remove [OF no_keys_ok sample_ok _ sample_ok(1)] by simp
qed

end
