(* ===== verification/Enroll.thy ===== *)
theory Enroll
  imports Registry Connections
begin

text \<open>
  Registering a device (src/src/cli.rs: \<open>add\<close>, \<open>virtual_device\<close>, \<open>root_use\<close>, \<open>print_devices\<close>): waiting
  for the virtual key, choosing a connected device, the name it gets, what pamu2fcfg prints, and the
  privileged steps, with every early return.  What the programs it starts do, and what is typed, is an
  argument.
\<close>

section \<open>The virtual key\<close>

text \<open>\<open>virtual_device\<close> on what \<open>fido2-token -L\<close> prints; \<open>None\<close>: it could not be started.\<close>

definition virtual_device :: "string option \<Rightarrow> string option" where
  "virtual_device printed =
     (case printed of
        None \<Rightarrow> None
      | Some text \<Rightarrow>
          map_option (first_field CHR '':'') (List.find (contains ''vendor=0x1209, product=0x7ab1'') (str_lines text)))"

text \<open>The waiting loop and the look after it: each look has what is printed then, and the time.  \<open>None\<close>: it
  still waits.\<close>

fun wait_device :: "nat \<Rightarrow> (string option \<times> nat) list \<Rightarrow> bool option" where
  "wait_device deadline [] = None"
| "wait_device deadline ((printed, now) # looks) =
     (if virtual_device printed = None \<and> now < deadline then wait_device deadline looks
      else case looks of [] \<Rightarrow> None | (again, _) # _ \<Rightarrow> Some (virtual_device again \<noteq> None))"

section \<open>The name of a device\<close>

definition numbered :: "string \<Rightarrow> nat \<Rightarrow> string" where
  "numbered base n = base @ CHR '' '' # dec_string n"

lemma dec_string_inject: "dec_string m = dec_string n \<longleftrightarrow> m = n"
  by (metis dec_string_reads)

lemma numbered_inject: "numbered base m = numbered base n \<longleftrightarrow> m = n"
  by (simp add: numbered_def dec_string_inject)

text \<open>The loop that makes the default name.\<close>

definition taken_numbers :: "string \<Rightarrow> string list \<Rightarrow> nat \<Rightarrow> nat set" where
  "taken_numbers base existing n = {m. n \<le> m \<and> numbered base m \<in> set existing}"

lemma finite_taken: "finite (taken_numbers base existing n)"
proof -
  have "inj_on (numbered base) (taken_numbers base existing n)"
    by (auto simp: inj_on_def numbered_inject)
  moreover have "finite (numbered base ` taken_numbers base existing n)"
    by (rule finite_subset [of _ "set existing"]) (auto simp: taken_numbers_def)
  ultimately show ?thesis by (rule finite_imageD [rotated])
qed

lemma taken_step:
  "taken_numbers base existing n =
     (if numbered base n \<in> set existing then insert n (taken_numbers base existing (n + 1))
      else taken_numbers base existing (n + 1))"
  by (auto simp: taken_numbers_def le_Suc_eq Suc_le_eq order_le_less)

function free_name :: "string \<Rightarrow> string list \<Rightarrow> string \<Rightarrow> nat \<Rightarrow> string" where
  "free_name base existing fallback number =
     (if fallback \<in> set existing then free_name base existing (numbered base number) (number + 1) else fallback)"
  by pat_completeness auto
termination
proof (relation "measure (\<lambda>(base, existing, fallback, number).
    card (taken_numbers base existing number) + (if fallback \<in> set existing then 1 else 0))")
  fix base :: string and existing :: "string list" and fallback number
  assume d: "fallback \<in> set existing"
  have "number \<notin> taken_numbers base existing (number + 1)" by (simp add: taken_numbers_def)
  then show "((base, existing, numbered base number, number + 1), (base, existing, fallback, number))
      \<in> measure (\<lambda>(base, existing, fallback, number).
        card (taken_numbers base existing number) + (if fallback \<in> set existing then 1 else 0))"
    using d finite_taken [of base existing "number + 1"] taken_step [of base existing number]
    by (simp add: card_insert_disjoint)
qed simp

declare free_name.simps [simp del]

definition base_name :: "string option \<Rightarrow> string" where
  "base_name label =
     (case map_option trim label of
        Some l \<Rightarrow> if l \<noteq> [] then l else ''Android device'' | None \<Rightarrow> ''Android device'')"

definition default_name :: "string option \<Rightarrow> string list \<Rightarrow> string" where
  "default_name label existing = free_name (base_name label) existing (base_name label) 2"

text \<open>The name given or typed, or the default one; no tab and no line break stays in it.  \<open>None\<close>: the
  terminal could not be read.\<close>

definition chosen_name :: "string option \<Rightarrow> bool \<Rightarrow> string option \<Rightarrow> string \<Rightarrow> string option" where
  "chosen_name given terminal typed fallback =
     (let name = trim (case given of Some n \<Rightarrow> n | None \<Rightarrow> []);
          asked = (if name = [] \<and> terminal then map_option trim typed else Some name)
      in map_option (\<lambda>n. map (\<lambda>c. if c = TAB \<or> c = NL \<or> c = CR then CHR '' '' else c)
           (if n = [] then fallback else n)) asked)"

section \<open>Adding\<close>

text \<open>\<open>root_use\<close> on the file of the chosen device; \<open>changed\<close>: the file could be written or removed.\<close>

definition root_use :: "bool \<Rightarrow> string option \<Rightarrow> string option \<Rightarrow> string option \<Rightarrow> bool \<times> string option" where
  "root_use changed device pid file =
     (case device of
        Some d \<Rightarrow>
          (case pid of
             None \<Rightarrow> (False, file)
           | Some p \<Rightarrow> if changed then (True, Some (root_use_text d p)) else (False, file))
      | None \<Rightarrow> (True, if changed then None else file))"

datatype add_error =
    NoUser
  | BadEnvironment
  | NotConfigured
  | NoDeviceAppeared
  | NotSelected select_error
  | NotUsed
  | NoAnswer
  | NameUsed string
  | NoHostname
  | NotMade
  | InvalidCredential
  | NotStored

record desk =
  registered :: registry
  use_file :: "string option"

record add_world =
  cur_user :: "string option"
  env_ok :: bool
  configured :: bool
  looks :: "(string option \<times> nat) list"
  wait_until :: nat
  devices_text :: "string option"
  terminal :: bool
  numbers :: "string list"
  own_pid :: nat
  use_sudo :: bool
  use_written :: bool
  given_name :: "string option"
  typed_name :: "string option"
  host_name :: "string option"
  made :: "string option"
  store_sudo :: bool
  keys_taken :: bool
  names_taken :: bool
  clear_sudo :: bool
  clear_done :: bool

definition credential_ok :: "string \<Rightarrow> bool" where
  "credential_ok credential \<longleftrightarrow> starts_with '':'' credential \<and> contains '','' credential"

text \<open>From the names on: the part during which the chosen device is the only one asked.\<close>

definition register :: "add_world \<Rightarrow> string \<Rightarrow> string option \<Rightarrow> registry \<Rightarrow> (add_error + string) \<times> registry" where
  "register w user label reg =
     (let existing = names_for user reg in
      case chosen_name (given_name w) (terminal w) (typed_name w) (default_name label existing) of
        None \<Rightarrow> (Inl NoAnswer, reg)
      | Some name \<Rightarrow>
          if name \<in> set existing then (Inl (NameUsed name), reg)
          else if host_name w = None then (Inl NoHostname, reg)
          else case made w of
              None \<Rightarrow> (Inl NotMade, reg)
            | Some printed \<Rightarrow>
                if \<not> credential_ok (trim printed) then (Inl InvalidCredential, reg)
                else if \<not> store_sudo w then (Inl NotStored, reg)
                else
                  (case root_store (keys_taken w) (names_taken w) user (trim printed @ NL # name @ [NL]) reg of
                     (None, reg1) \<Rightarrow> (Inr name, reg1)
                   | (Some _, reg1) \<Rightarrow> (Inl NotStored, reg1)))"

text \<open>Dropping \<open>ClearUse\<close>.\<close>

definition clear_use :: "add_world \<Rightarrow> desk \<Rightarrow> desk" where
  "clear_use w s = (if clear_sudo w then s\<lparr>use_file := snd (root_use (clear_done w) None None (use_file s))\<rparr> else s)"

definition enroll :: "add_world \<Rightarrow> desk \<Rightarrow> ((add_error + string) \<times> desk) option" where
  "enroll w s =
     (case cur_user w of None \<Rightarrow> Some (Inl NoUser, s) | Some user \<Rightarrow>
      if \<not> env_ok w then Some (Inl BadEnvironment, s)
      else if \<not> configured w then Some (Inl NotConfigured, s)
      else case wait_device (wait_until w) (looks w) of
          None \<Rightarrow> None
        | Some False \<Rightarrow> Some (Inl NoDeviceAppeared, s)
        | Some True \<Rightarrow>
            (case select_connection (terminal w)
                (connected_devices (case devices_text w of Some t \<Rightarrow> t | None \<Rightarrow> [])) (numbers w) of
               Inl e \<Rightarrow> Some (Inl (NotSelected e), s)
             | Inr None \<Rightarrow>
                 (let (r, reg) = register w user None (registered s) in Some (r, s\<lparr>registered := reg\<rparr>))
             | Inr (Some (device, label)) \<Rightarrow>
                 if \<not> use_sudo w then Some (Inl NotUsed, s)
                 else
                   let (ok, file) = root_use (use_written w) (Some device) (Some (dec_string (own_pid w))) (use_file s) in
                   if \<not> ok then Some (Inl NotUsed, s\<lparr>use_file := file\<rparr>)
                   else
                     let (r, reg) = register w user (Some label) (registered s)
                     in Some (r, clear_use w (s\<lparr>use_file := file, registered := reg\<rparr>))))"

section \<open>Listing\<close>

definition print_devices :: "string \<Rightarrow> registry \<Rightarrow> string list" where
  "print_devices user reg =
     (let names = names_for user reg in
      if names = [] then [''  No devices registered.'']
      else map (\<lambda>(index, name). ''  '' @ dec_string (index + 1) @ ''  '' @ name) (enumerate 0 names))"

section \<open>Names\<close>

lemma free_name_result:
  "free_name base existing fallback number \<notin> set existing
    \<and> (free_name base existing fallback number = fallback \<or>
       (\<exists>n\<ge>number. free_name base existing fallback number = numbered base n
          \<and> fallback \<in> set existing \<and> (\<forall>m. number \<le> m \<longrightarrow> m < n \<longrightarrow> numbered base m \<in> set existing)))"
proof (induction base existing fallback number rule: free_name.induct)
  case (1 base existing fallback number)
  show ?case
  proof (cases "fallback \<in> set existing")
    case True
    let ?f = "free_name base existing (numbered base number) (number + 1)"
    have f: "free_name base existing fallback number = ?f" using True by (subst free_name.simps) simp
    from 1 [OF True] consider "?f = numbered base number"
      | n where "n \<ge> number + 1" "?f = numbered base n" "numbered base number \<in> set existing"
          "\<forall>m. number + 1 \<le> m \<longrightarrow> m < n \<longrightarrow> numbered base m \<in> set existing"
      by blast
    then have "\<exists>n\<ge>number. ?f = numbered base n \<and> (\<forall>m. number \<le> m \<longrightarrow> m < n \<longrightarrow> numbered base m \<in> set existing)"
    proof cases
      case 1
      then show ?thesis by (intro exI [of _ number]) auto
    next
      case (2 n)
      have "numbered base m \<in> set existing" if "number \<le> m" "m < n" for m
        using that 2(3,4) by (cases "m = number") auto
      with 2(1,2) show ?thesis by (intro exI [of _ n]) auto
    qed
    with 1 [OF True] True show ?thesis unfolding f by blast
  next
    case False
    then have "free_name base existing fallback number = fallback" by (subst free_name.simps) simp
    with False show ?thesis by simp
  qed
qed

lemma free_name_nonempty: "fallback \<noteq> [] \<Longrightarrow> free_name base existing fallback number \<noteq> []"
  using free_name_result [of base existing fallback number] by (auto simp: numbered_def)

lemma default_name_fresh: "default_name label existing \<notin> set existing" "default_name label existing \<noteq> []"
  unfolding default_name_def
  using free_name_result [of _ existing _ 2] free_name_nonempty [of "base_name label" _ existing 2]
  by (auto simp: base_name_def split: option.splits)

lemma chosen_name_ok: "chosen_name given tty typed fallback = Some n \<Longrightarrow> fallback \<noteq> [] \<Longrightarrow> name_ok n \<and> n \<noteq> []"
  by (auto simp: chosen_name_def name_ok_def Let_def split: if_splits)

section \<open>Registering\<close>

text \<open>What pamu2fcfg prints for one new key, as \<open>add\<close> reads it.\<close>

definition fresh_entry :: "string \<Rightarrow> registry \<Rightarrow> string \<Rightarrow> bool" where
  "fresh_entry user reg entry \<longleftrightarrow> entry_ok entry \<and> first_field CHR '','' entry \<noteq> []
     \<and> stored_name user (first_field CHR '','' entry) reg = None
     \<and> first_field CHR '','' entry \<notin> set (handles_for user reg)"

lemma register_cases:
  assumes "register w user label reg = (r, reg')"
  shows "(\<exists>e. r = Inl e \<and> reg' = reg)
    \<or> (\<exists>name printed. made w = Some printed \<and> name_ok name \<and> name \<noteq> [] \<and> name \<notin> set (names_for user reg)
        \<and> (r, reg') = (case root_store (keys_taken w) (names_taken w) user (trim printed @ NL # name @ [NL]) reg of
             (None, reg1) \<Rightarrow> (Inr name, reg1) | (Some _, reg1) \<Rightarrow> (Inl NotStored, reg1)))"
proof (cases "chosen_name (given_name w) (terminal w) (typed_name w) (default_name label (names_for user reg))")
  case None
  with assms show ?thesis by (auto simp: register_def)
next
  case (Some name)
  have n: "name_ok name" "name \<noteq> []" using chosen_name_ok [OF Some default_name_fresh(2)] by auto
  show ?thesis
    using assms Some n by (auto simp: register_def Let_def split: if_splits option.splits)
qed

lemma store_input_eq: "CHR '':'' # entry @ NL # name @ [NL] = store_input entry name"
  by (simp add: store_input_def unlines_def)

lemma register_stores:
  assumes "register w user label reg = (Inr name, reg')" and "made w = Some printed" and "trim printed = CHR '':'' # entry"
    and "entry_ok entry"
  shows "name_ok name" and "name \<noteq> []" and "name \<notin> set (names_for user reg)" and "reg' = stored name user entry reg"
proof -
  obtain n where n: "name_ok n" "n \<noteq> []" "n \<notin> set (names_for user reg)"
    and e: "(Inr name, reg') = (case root_store (keys_taken w) (names_taken w) user (store_input entry n) reg of
        (None, reg1) \<Rightarrow> (Inr n, reg1) | (Some _, reg1) \<Rightarrow> (Inl NotStored, reg1))"
    using register_cases [OF assms(1)] assms(2,3) by (auto simp: store_input_eq)
  obtain err reg1 where s: "root_store (keys_taken w) (names_taken w) user (store_input entry n) reg = (err, reg1)"
    by fastforce
  with e have r: "root_store (keys_taken w) (names_taken w) user (store_input entry name) reg = (None, reg')"
    and "n = name"
    by (auto split: option.splits)
  with n have "name_ok name" "name \<noteq> []" "name \<notin> set (names_for user reg)" by simp_all
  then show "name_ok name" "name \<noteq> []" "name \<notin> set (names_for user reg)" by simp_all
  then show "reg' = stored name user entry reg"
    using r assms(4) by (auto simp: stored_def root_store_lines Let_def split: if_splits)
qed

text \<open>The way through \<open>enroll\<close> that ends well, and the file of the chosen device on every way.\<close>

lemma enroll_registers:
  assumes "enroll w s = Some (Inr name, s')"
  obtains user label where "cur_user w = Some user"
    and "register w user label (registered s) = (Inr name, registered s')"
  using assms
  by (auto simp: enroll_def clear_use_def Let_def split: option.splits if_splits bool.splits sum.splits prod.splits)

lemma enroll_use:
  assumes "enroll w s = Some (r, s')" and "clear_sudo w" and "clear_done w"
  shows "use_file s' = None \<or> use_file s' = use_file s"
  using assms
  by (auto simp: enroll_def clear_use_def root_use_def Let_def
      split: option.splits if_splits bool.splits sum.splits prod.splits)

lemma enroll_error:
  assumes "enroll w s = Some (Inl e, s')" and "e \<noteq> NotStored"
  shows "registered s' = registered s"
proof -
  have "reg' = registered s" if "register w user label (registered s) = (Inl e, reg')" for user label reg'
  proof -
    have no: "(Inl e, reg') \<noteq> (case x of (None, reg1) \<Rightarrow> (Inr name, reg1) | (Some _, reg1) \<Rightarrow> (Inl NotStored, reg1))"
      for x :: "registry_error option \<times> registry" and name :: string
      using assms(2) by (auto split: prod.splits option.splits)
    show ?thesis using register_cases [OF that] no by blast
  qed
  then show ?thesis
    using assms(1)
    by (auto simp: enroll_def clear_use_def Let_def split: option.splits if_splits bool.splits sum.splits prod.splits)
qed

lemma find_map_enumerate:
  assumes "i < length xs" and "P (i, xs ! i)" and "\<And>j. j < i \<Longrightarrow> \<not> P (j, xs ! j)"
  shows "List.find P (enumerate 0 xs) = Some (i, xs ! i)"
  using assms by (auto simp: find_Some_iff nth_enumerate_eq intro!: exI [of _ i])

lemma remove_handle_at:
  assumes "i < length (names_for user reg)"
    and "which = dec_string (i + 1) \<or> which = names_for user reg ! i"
    and "\<And>j. j < i \<Longrightarrow> which \<noteq> dec_string (j + 1) \<and> which \<noteq> names_for user reg ! j"
  shows "remove_handle user which reg = Inr (handles_for user reg ! i)"
proof -
  have "List.find (\<lambda>(index, name). which = dec_string (index + 1) \<or> which = name) (enumerate 0 (names_for user reg))
      = Some (i, names_for user reg ! i)"
    using assms by (intro find_map_enumerate) auto
  then show ?thesis by (simp add: remove_handle_def)
qed

section \<open>Properties\<close>

text \<open>C11: A device that \<open>add\<close> reports as registered has a name no other device of the user has; the user's
  keys and names are the old ones and the new one after them, every other user's keys are what they were,
  and the PAM module finds the user registered.  Unless the name is the number of an earlier device,
  \<open>remove\<close> with it takes the new key away again and nothing else.\<close>

theorem added_device_registered:
  assumes "enroll w s = Some (Inr name, s')" and "cur_user w = Some user" and "made w = Some printed"
    and "trim printed = CHR '':'' # entry" and "fresh_entry user (registered s) entry"
    and "registry_ok (registered s)" and "user_ok user"
  shows "name \<notin> set (names_for user (registered s))
    \<and> names_for user (registered s') = names_for user (registered s) @ [name]
    \<and> entries user (registered s') = entries user (registered s) @ [entry]
    \<and> (\<forall>v. user_ok v \<and> v \<noteq> user \<longrightarrow> entries v (registered s') = entries v (registered s))
    \<and> user_registered user (keys_file (registered s'))
    \<and> ((\<forall>i < length (names_for user (registered s)). name \<noteq> dec_string (i + 1)) \<longrightarrow>
        remove_handle user name (registered s') = Inr (first_field CHR '','' entry))
    \<and> (\<forall>v. user_ok v \<longrightarrow>
        entries v (removed user (first_field CHR '','' entry) (registered s')) = entries v (registered s))"
proof -
  let ?r = "registered s" and ?r' = "registered s'" and ?h = "first_field CHR '','' entry"
  obtain label where reg: "register w user label ?r = (Inr name, ?r')"
    using enroll_registers [OF assms(1)] assms(2) by (metis option.inject)
  have e: "entry_ok entry" "?h \<noteq> []" "stored_name user ?h ?r = None" "?h \<notin> set (handles_for user ?r)"
    using assms(5) by (simp_all add: fresh_entry_def)
  note n = register_stores [OF reg assms(3,4) e(1)]
  note st = store_appends [OF assms(6,7) e(1) n(1), folded n(4)]
  have names: "names_for user ?r' = names_for user ?r @ [name]" using st e n(2) by blast
  have own: "entries user ?r' = entries user ?r @ [entry]" using st by blast
  have handles: "handles_for user ?r' = handles_for user ?r @ [?h]"
    using own e(2) by (simp add: handles_for_entries)
  have len: "length (names_for user ?r) = length (handles_for user ?r)" by (simp add: names_for_eq)
  have pick: "remove_handle user name ?r' = Inr ?h"
    if free: "\<forall>i < length (names_for user ?r). name \<noteq> dec_string (i + 1)"
  proof -
    have "remove_handle user name ?r' = Inr (handles_for user ?r' ! length (names_for user ?r))"
    proof (rule remove_handle_at)
      show "length (names_for user ?r) < length (names_for user ?r')" by (simp add: names)
      show "name = dec_string (length (names_for user ?r) + 1) \<or> name = names_for user ?r' ! length (names_for user ?r)"
        by (simp add: names)
      show "name \<noteq> dec_string (j + 1) \<and> name \<noteq> names_for user ?r' ! j" if j: "j < length (names_for user ?r)" for j
      proof -
        have "names_for user ?r' ! j \<in> set (names_for user ?r)" using j by (simp add: names nth_append)
        with n(3) free j show ?thesis by auto
      qed
    qed
    then show ?thesis by (simp add: handles len)
  qed
  have "?h \<notin> first_field CHR '','' ` set (entries user ?r)"
    using e(2,4) by (auto simp: handles_for_entries)
  then have "entries v (removed user ?h ?r') = entries v ?r" if "user_ok v" for v
    using keys.put_del [OF assms(6,7), of "(entry, name)" v] e(1) n(1,4) that by simp
  with names own pick n(3) st show ?thesis by blast
qed

definition sample_add :: add_world where
  "sample_add = \<lparr>cur_user = Some ''me'', env_ok = True, configured = True,
     looks = [(None, 1), (Some ''/dev/hidraw3: vendor=0x1209, product=0x7ab1 (passkey)'', 3),
       (Some ''/dev/hidraw3: vendor=0x1209, product=0x7ab1 (passkey)'', 3)],
     wait_until = 90, devices_text = Some (''usb:A'' @ TAB # ''Pixel'' @ [NL]), terminal = False, numbers = [],
     own_pid = 7, use_sudo = True, use_written = True, given_name = None, typed_name = None,
     host_name = Some ''pc'', made = Some (CHR '':'' # sample_entry @ [NL]), store_sudo = True,
     keys_taken = True, names_taken = True, clear_sudo = True, clear_done = True\<rparr>"

definition empty_desk :: desk where
  "empty_desk = \<lparr>registered = no_keys, use_file = None\<rparr>"

lemma sample_fresh: "fresh_entry ''me'' no_keys sample_entry"
  using sample_ok(2)
  by (simp add: fresh_entry_def entries_def key_lines_def read_optional_def no_keys_def handles_for_entries
      stored_name_def first_field_def sample_entry_def)

lemma sample_enroll: "map_option fst (enroll sample_add empty_desk) = Some (Inr ''Pixel'')"
  by code_simp

theorem added_device_registered_witness:
  "\<exists>s'. enroll sample_add empty_desk = Some (Inr ''Pixel'', s')
    \<and> names_for ''me'' (registered s') = [''Pixel''] \<and> entries ''me'' (registered s') = [sample_entry]
    \<and> user_registered ''me'' (keys_file (registered s'))"
proof -
  obtain s' where s: "enroll sample_add empty_desk = Some (Inr ''Pixel'', s')"
    using sample_enroll by auto
  have t: "trim (CHR '':'' # sample_entry @ [NL]) = CHR '':'' # sample_entry" by code_simp
  have start: "entries ''me'' no_keys = []" "names_for ''me'' no_keys = []"
    by (simp_all add: entries_def key_lines_def read_optional_def no_keys_def names_for_eq handles_for_entries)
  have d: "registered empty_desk = no_keys" by (simp add: empty_desk_def)
  have m: "cur_user sample_add = Some ''me''" "made sample_add = Some (CHR '':'' # sample_entry @ [NL])"
    by (simp_all add: sample_add_def)
  show ?thesis
    using added_device_registered [OF s m t, unfolded d, OF sample_fresh no_keys_ok sample_ok(1)] s start by auto
qed

text \<open>C30: An \<open>add\<close> that fails leaves every file of the registry as it was, unless storing itself failed, and
  whether it fails or not, no choice of a device outlives it when its last step comes through: the file
  of the chosen device is gone, or what it was when none was chosen.\<close>

theorem failed_add_changes_nothing:
  assumes "enroll w s = Some (r, s')"
  shows "(\<forall>e. r = Inl e \<longrightarrow> e \<noteq> NotStored \<longrightarrow> registered s' = registered s)
    \<and> (clear_sudo w \<and> clear_done w \<longrightarrow> use_file s' = None \<or> use_file s' = use_file s)"
  using enroll_error [of w s _ s'] enroll_use [of w s r s'] assms by blast

theorem failed_add_changes_nothing_witness:
  "\<exists>s'. enroll (sample_add\<lparr>made := None\<rparr>) empty_desk = Some (Inl NotMade, s')
    \<and> registered s' = no_keys \<and> use_file s' = None"
proof -
  have "map_option fst (enroll (sample_add\<lparr>made := None\<rparr>) empty_desk) = Some (Inl NotMade)" by code_simp
  then obtain s' where s: "enroll (sample_add\<lparr>made := None\<rparr>) empty_desk = Some (Inl NotMade, s')" by auto
  show ?thesis
    using failed_add_changes_nothing [OF s] s by (simp add: sample_add_def empty_desk_def)
qed

text \<open>The default name is always found and is free: the device's own label if no device of the user has
  it, else the label with the least number, from 2 on, that makes it one no device has.\<close>

theorem default_name_least:
  "default_name label existing \<notin> set existing
    \<and> (default_name label existing = base_name label \<and> base_name label \<notin> set existing
      \<or> (\<exists>n. 2 \<le> n \<and> default_name label existing = numbered (base_name label) n \<and> base_name label \<in> set existing
          \<and> (\<forall>m. 2 \<le> m \<and> numbered (base_name label) m \<notin> set existing \<longrightarrow> n \<le> m)))"
proof -
  note r = free_name_result [of "base_name label" existing "base_name label" 2, folded default_name_def]
  show ?thesis using conjunct1 [OF r] conjunct2 [OF r] by (metis not_le)
qed

theorem default_name_least_witness:
  "default_name (Some ''Pixel'') [''Pixel'', ''Pixel 2'', ''Pixel 4''] = ''Pixel 3''"
proof -
  have t: "base_name (Some ''Pixel'') = ''Pixel''" by code_simp
  have n: "numbered ''Pixel'' 2 = ''Pixel 2''" "numbered ''Pixel'' 3 = ''Pixel 3''" by code_simp+
  let ?e = "[''Pixel'', ''Pixel 2'', ''Pixel 4'']"
  obtain k where k: "2 \<le> k" "default_name (Some ''Pixel'') ?e = numbered ''Pixel'' k"
    "\<forall>m. 2 \<le> m \<and> numbered ''Pixel'' m \<notin> set ?e \<longrightarrow> k \<le> m"
    using default_name_least [of "Some ''Pixel''" ?e] by (auto simp: t)
  have "k \<le> 3" using k(3) n(2) by simp
  moreover have "k \<noteq> 2" using default_name_least [of "Some ''Pixel''" ?e] k(2) n(1) by auto
  ultimately have "k = 3" using k(1) by simp
  with k(2) n(2) show ?thesis by simp
qed

text \<open>A device whose name is a number hides the later device with that number from \<open>remove\<close>.\<close>

lemma number_hides_device:
  assumes "names_for user reg = [''2'', ''Pixel'']"
  shows "remove_handle user ''2'' reg = Inr (handles_for user reg ! 0)"
  using remove_handle_at [of 0 user reg "''2''"] assms by simp

end
