(* ===== verification/Environment.thy ===== *)
theory Environment
  imports Rust_Text
begin

text \<open>
  What the machine must have before a device is added (src/src/cli.rs: \<open>check_environment\<close>, \<open>package\<close>,
  \<open>pam_module_dir\<close>, \<open>program_exists\<close>, \<open>has_systemd\<close>).  The machine is its files and directories, its search
  path, and what systemd says of the Bluetooth service.
\<close>

section \<open>The machine\<close>

record machine =
  is_dir :: "string \<Rightarrow> bool"
  is_file :: "string \<Rightarrow> bool"
  search_path :: "string list option"
  os_release :: "string option"
  euid_root :: bool
  bluetooth_active :: bool
  login :: "string option"
  own_exe :: "string option"

definition path_join :: "string \<Rightarrow> string \<Rightarrow> string" where
  "path_join dir name = (if dir = [] then name else if last dir = CHR ''/'' then dir @ name else dir @ CHR ''/'' # name)"

definition has_systemd :: "machine \<Rightarrow> bool" where
  "has_systemd m = is_dir m ''/run/systemd/system''"

definition module_dirs :: "string list" where
  "module_dirs =
     [''/usr/lib/security'', ''/usr/lib64/security'', ''/lib/security'', ''/lib64/security'',
      ''/usr/lib/x86_64-linux-gnu/security'', ''/lib/x86_64-linux-gnu/security'',
      ''/usr/lib/aarch64-linux-gnu/security'', ''/lib/aarch64-linux-gnu/security'']"

definition pam_module_dir :: "machine \<Rightarrow> string option" where
  "pam_module_dir m = List.find (\<lambda>dir. is_file m (path_join dir ''pam_unix.so'')) module_dirs"

definition program_exists :: "machine \<Rightarrow> string \<Rightarrow> bool" where
  "program_exists m program =
     (case search_path m of None \<Rightarrow> False | Some ds \<Rightarrow> list_ex (\<lambda>d. is_file m (path_join d program)) ds)"

section \<open>Packages\<close>

definition trim_quotes :: "string \<Rightarrow> string" where
  "trim_quotes s = (let f = dropWhile (\<lambda>c. c = CHR 0x22) in rev (f (rev (f s))))"

definition release_value :: "string \<Rightarrow> string option" where
  "release_value line = (case strip_prefix ''ID='' line of Some v \<Rightarrow> Some v | None \<Rightarrow> strip_prefix ''ID_LIKE='' line)"

definition release_ids :: "string \<Rightarrow> string list" where
  "release_ids release =
     concat (map (\<lambda>v. split_whitespace (trim_quotes v)) (List.map_filter release_value (str_lines release)))"

definition package :: "machine \<Rightarrow> string \<Rightarrow> string \<Rightarrow> string \<Rightarrow> string" where
  "package m arch debian fedora =
     (let ids = release_ids (case os_release m of Some t \<Rightarrow> t | None \<Rightarrow> []) in
      if ''arch'' \<in> set ids then arch
      else if ''debian'' \<in> set ids \<or> ''ubuntu'' \<in> set ids then debian
      else if ''fedora'' \<in> set ids \<or> ''rhel'' \<in> set ids then fedora
      else arch @ '' (Arch) / '' @ debian @ '' (Debian) / '' @ fedora @ '' (Fedora)'')"

section \<open>The check\<close>

definition missing_parts :: "machine \<Rightarrow> string \<Rightarrow> string list" where
  "missing_parts m dir =
     (if is_file m (path_join dir ''pam_u2f.so'') then []
      else [''pam_u2f.so: '' @ package m ''pam-u2f'' ''libpam-u2f'' ''pam-u2f''])
     @ (if is_file m (path_join dir ''pam_passkey.so'') then []
        else [''pam_passkey.so is not in '' @ dir @ '' (install passkey with PAMDIR='' @ dir @ '')''])
     @ (if program_exists m ''pamu2fcfg'' then []
        else [''pamu2fcfg: '' @ package m ''pam-u2f'' ''pamu2fcfg'' ''pamu2fcfg''])
     @ (if program_exists m ''fido2-token'' then []
        else [''fido2-token: '' @ package m ''libfido2'' ''fido2-tools'' ''fido2-tools''])
     @ (if euid_root m \<or> program_exists m ''sudo'' then [] else [''sudo (or run passkey as root)''])"

definition bluetooth_there :: "machine \<Rightarrow> bool" where
  "bluetooth_there m =
     (if has_systemd m then bluetooth_active m
      else program_exists m ''bluetoothd'' \<or> is_file m ''/usr/lib/bluetooth/bluetoothd'')"

definition transport_warnings :: "machine \<Rightarrow> string list" where
  "transport_warnings m =
     (if program_exists m ''adb'' then []
      else [''USB off: adb is missing ('' @ package m ''android-tools'' ''adb'' ''android-tools'' @ '')''])
     @ (if bluetooth_there m then []
        else [''Bluetooth off: BlueZ is not running ('' @ package m ''bluez'' ''bluez'' ''bluez'' @ '')''])
     @ (if has_systemd m then []
        else [''systemd is not running, so the service is not set up. Start it as root at boot with your init system:''
          @ NL # ''    PASSKEY_ADB_USER='' @ (case login m of Some u \<Rightarrow> u | None \<Rightarrow> []) @ CHR '' ''
          # (case own_exe m of Some e \<Rightarrow> e | None \<Rightarrow> ''passkey'') @ '' daemon''])"

text \<open>The warnings printed, and the error.\<close>

definition check_environment :: "machine \<Rightarrow> string list \<times> string option" where
  "check_environment m =
     (case pam_module_dir m of
        None \<Rightarrow> ([], Some ''this system does not use Linux-PAM'')
      | Some dir \<Rightarrow>
          if \<not> is_dir m ''/etc/pam.d'' then ([], Some ''this system does not use Linux-PAM'')
          else
            (transport_warnings m,
             let missing = missing_parts m dir in
             if missing \<noteq> [] then Some (''missing, please install:'' @ NL # ''  '' @ join_with (NL # ''  '') missing)
             else if \<not> program_exists m ''adb'' \<and> \<not> bluetooth_there m \<and> \<not> is_dir m ''/etc/passkey/wifi''
             then Some ''no USB (adb), Bluetooth (BlueZ) or paired Wi-Fi device is available; use passkey wifi add <phone-ip>''
             else None))"

lemma missing_parts_none:
  "missing_parts m dir = [] \<longleftrightarrow> is_file m (path_join dir ''pam_u2f.so'') \<and> is_file m (path_join dir ''pam_passkey.so'')
    \<and> program_exists m ''pamu2fcfg'' \<and> program_exists m ''fido2-token'' \<and> (euid_root m \<or> program_exists m ''sudo'')"
  by (auto simp: missing_parts_def)

lemma pam_module_dir_Some:
  "pam_module_dir m = Some dir \<Longrightarrow> dir \<in> set module_dirs \<and> is_file m (path_join dir ''pam_unix.so'')"
  by (auto simp: pam_module_dir_def find_Some_iff)

lemma package_choice:
  "package m a d f \<in> {a, d, f, a @ '' (Arch) / '' @ d @ '' (Debian) / '' @ f @ '' (Fedora)''}"
  by (simp add: package_def Let_def)

section \<open>Properties\<close>

text \<open>The check lets \<open>add\<close> go on exactly when the machine has what every later step needs: Linux-PAM with
  both modules in the directory PAM loads \<open>pam_unix\<close> from, the two FIDO programs, a way to become root, and at
  least one of adb, a running BlueZ and paired phones; a transport that is missing beside another one only
  gives a warning.\<close>

theorem environment_accepted_iff:
  "snd (check_environment m) = None \<longleftrightarrow>
     is_dir m ''/etc/pam.d''
     \<and> (\<exists>dir. pam_module_dir m = Some dir \<and> is_file m (path_join dir ''pam_unix.so'')
         \<and> is_file m (path_join dir ''pam_u2f.so'') \<and> is_file m (path_join dir ''pam_passkey.so''))
     \<and> program_exists m ''pamu2fcfg'' \<and> program_exists m ''fido2-token''
     \<and> (euid_root m \<or> program_exists m ''sudo'')
     \<and> (program_exists m ''adb'' \<or> bluetooth_there m \<or> is_dir m ''/etc/passkey/wifi'')"
proof (cases "pam_module_dir m")
  case (Some dir)
  then show ?thesis
    using pam_module_dir_Some [OF Some]
    by (simp add: check_environment_def Let_def missing_parts_none)
qed (simp add: check_environment_def)

text \<open>A distribution is known by its own name and by those it is like, quoted or not.\<close>

lemma package_examples:
  "release_ids (''NAME=Nobara'' @ NL # ''ID=nobara'' @ NL # ''ID_LIKE='' @ CHR 0x22 # ''rhel fedora'' @ [CHR 0x22, NL])
    = [''nobara'', ''rhel'', ''fedora'']"
  by code_simp

end
