(* ===== verification/Wifi.thy ===== *)
theory Wifi
  imports Rust_Text
begin

unbundle bit_operations_syntax

text \<open>
  The Wi-Fi transport (src/src/wifi.rs): the pairing code and the stored profile (\<open>Peer\<close>, \<open>hex\<close>,
  \<open>unhex\<close>, \<open>endpoint\<close>), connecting to a phone (\<open>connect\<close>) and the directory of profiles
  (\<open>load_from\<close>, \<open>save\<close>, \<open>remove\<close>).  IPv4 addresses are read and printed here; the texts of IPv6
  addresses are those of the standard library, a parameter.  OpenSSL and the directory are outside:
  what they answer is an argument.
\<close>

section \<open>Hexadecimal texts\<close>

definition hex_digit :: "nat \<Rightarrow> char" where
  "hex_digit n = (if n < 10 then char_of (48 + n) else char_of (87 + n))"

definition hex :: "bytes \<Rightarrow> string" where
  "hex bs = concat (map (\<lambda>v. [hex_digit (unat v div 16), hex_digit (unat v mod 16)]) bs)"

definition is_ascii_hexdigit :: "char \<Rightarrow> bool" where
  "is_ascii_hexdigit c \<longleftrightarrow>
     (let n = of_char c :: nat in 48 \<le> n \<and> n \<le> 57 \<or> 65 \<le> n \<and> n \<le> 70 \<or> 97 \<le> n \<and> n \<le> 102)"

definition hex_value :: "char \<Rightarrow> nat" where
  "hex_value c = (let n = of_char c in if n \<le> 57 then n - 48 else if n \<le> 70 then n - 55 else n - 87)"

text \<open>The loop of \<open>unhex\<close>: two characters for each byte.\<close>

fun unhex_pairs :: "string \<Rightarrow> bytes" where
  "unhex_pairs (a # b # cs) = word_of_nat (16 * hex_value a + hex_value b) # unhex_pairs cs"
| "unhex_pairs _ = []"

definition unhex :: "string \<Rightarrow> bytes option" where
  "unhex s =
     (if length s \<noteq> 64 \<or> \<not> list_all is_ascii_hexdigit s then None else Some (unhex_pairs s))"

section \<open>Addresses\<close>

datatype ip_addr =
    V4 u8 u8 u8 u8
  | V6 u16 u16 u16 u16 u16 u16 u16 u16

definition is_v6 :: "ip_addr \<Rightarrow> bool" where
  "is_v6 i \<longleftrightarrow> (case i of V4 _ _ _ _ \<Rightarrow> False | V6 _ _ _ _ _ _ _ _ \<Rightarrow> True)"

record socket_addr =
  ip :: ip_addr
  port :: u16
  scope :: u32

record v6_text =
  v6_socket :: "string \<Rightarrow> socket_addr option"
  v6_ip :: "string \<Rightarrow> ip_addr option"
  v6_show :: "socket_addr \<Rightarrow> string"

definition PORT :: u16 where "PORT = 40719"

text \<open>A number of an IPv4 address: one to three digits, no leading zero, below 256.\<close>

definition octet :: "string \<Rightarrow> u8 option" where
  "octet s =
     (if s = [] \<or> length s > 3 \<or> \<not> list_all is_digit s \<or> (hd s = CHR ''0'' \<and> length s > 1)
        \<or> decimal_value s > 255
      then None else Some (word_of_nat (decimal_value s)))"

definition v4_of :: "string \<Rightarrow> ip_addr option" where
  "v4_of s =
     (case split_on CHR ''.'' s of
        [a, b, c, d] \<Rightarrow>
          (case (octet a, octet b, octet c, octet d) of
             (Some a1, Some b1, Some c1, Some d1) \<Rightarrow> Some (V4 a1 b1 c1 d1)
           | _ \<Rightarrow> None)
      | _ \<Rightarrow> None)"

definition port_of :: "string \<Rightarrow> u16 option" where
  "port_of s =
     (if s = [] \<or> \<not> list_all is_digit s \<or> decimal_value s > 65535 then None
      else Some (word_of_nat (decimal_value s)))"

definition v4_socket :: "string \<Rightarrow> socket_addr option" where
  "v4_socket s =
     (case split_once CHR '':'' s of
        None \<Rightarrow> None
      | Some (a, p) \<Rightarrow>
          (case (v4_of a, port_of p) of
             (Some i, Some n) \<Rightarrow> Some \<lparr>ip = i, port = n, scope = 0\<rparr>
           | _ \<Rightarrow> None))"

definition socket_of :: "v6_text \<Rightarrow> string \<Rightarrow> socket_addr option" where
  "socket_of v6 s = (case v4_socket s of Some a \<Rightarrow> Some a | None \<Rightarrow> v6_socket v6 s)"

definition ip_of :: "v6_text \<Rightarrow> string \<Rightarrow> ip_addr option" where
  "ip_of v6 s = (case v4_of s of Some i \<Rightarrow> Some i | None \<Rightarrow> v6_ip v6 s)"

definition show_socket :: "v6_text \<Rightarrow> socket_addr \<Rightarrow> string" where
  "show_socket v6 a =
     (case ip a of
        V4 x y z w \<Rightarrow> join_with ''.'' (map (\<lambda>b. dec_string (unat b)) [x, y, z, w]) @ '':'' @ dec_string (unat (port a))
      | V6 _ _ _ _ _ _ _ _ \<Rightarrow> v6_show v6 a)"

definition local_ip :: "ip_addr \<Rightarrow> bool" where
  "local_ip i =
     (case i of
        V4 a b _ _ \<Rightarrow>
          (a = 10 \<or> a = 172 \<and> 16 \<le> b \<and> b \<le> 31 \<or> a = 192 \<and> b = 168) \<or> (a = 169 \<and> b = 254) \<or> a = 127
      | V6 a b c d e f g h \<Rightarrow>
          a AND 0xFE00 = 0xFC00 \<or> a AND 0xFFC0 = 0xFE80
          \<or> (a = 0 \<and> b = 0 \<and> c = 0 \<and> d = 0 \<and> e = 0 \<and> f = 0 \<and> g = 0 \<and> h = 1))"

definition endpoint :: "v6_text \<Rightarrow> string \<Rightarrow> socket_addr option" where
  "endpoint v6 value =
     (case (case socket_of v6 value of Some a \<Rightarrow> Some a
            | None \<Rightarrow> map_option (\<lambda>i. \<lparr>ip = i, port = PORT, scope = 0\<rparr>) (ip_of v6 value)) of
        None \<Rightarrow> None
      | Some address \<Rightarrow> if \<not> local_ip (ip address) \<or> port address = 0 then None else Some address)"

section \<open>Profiles\<close>

record peer =
  address :: socket_addr
  pin :: bytes
  secret :: bytes

definition peer_parse :: "v6_text \<Rightarrow> string \<Rightarrow> string \<Rightarrow> peer option" where
  "peer_parse v6 addr code =
     (case endpoint v6 addr of
        None \<Rightarrow> None
      | Some a \<Rightarrow>
          (case split_on CHR '':'' (trim code) of
             [version, p, s] \<Rightarrow>
               if version \<noteq> ''pk1'' then None
               else (case unhex p of None \<Rightarrow> None | Some p1 \<Rightarrow>
                      (case unhex s of None \<Rightarrow> None | Some s1 \<Rightarrow> Some \<lparr>address = a, pin = p1, secret = s1\<rparr>))
           | _ \<Rightarrow> None))"

definition peer_id :: "peer \<Rightarrow> string" where
  "peer_id p = hex (pin p)"

definition peer_encode :: "v6_text \<Rightarrow> peer \<Rightarrow> string" where
  "peer_encode v6 p =
     show_socket v6 (address p) @ NL # ''pk1:'' @ peer_id p @ '':'' @ hex (secret p) @ [NL]"

definition peer_decode :: "v6_text \<Rightarrow> string \<Rightarrow> peer option" where
  "peer_decode v6 text =
     (case str_lines text of [a, c] \<Rightarrow> peer_parse v6 a c | _ \<Rightarrow> None)"

section \<open>Connecting\<close>

text \<open>A TLS session: whether it comes up, the digest of the phone's certificate, how many bytes the phone
  takes and which it sends in time, and whether the stream can be switched to its final mode.\<close>

record tls_session =
  tls_up :: bool
  digest :: "bytes option"
  room :: nat
  incoming :: bytes
  settled :: bool

datatype connect_error =
    Unreachable
  | MissingCertificate
  | WrongCertificate
  | NotSent
  | CutOff
  | Rejected
  | BadNameLength
  | BadName
  | NotSettled

definition MAGIC :: bytes where
  "MAGIC = map (\<lambda>c. word_of_nat (of_char c)) (''PASSKEY-WIFI-1'' @ [NL])"

text \<open>The characters that are not \<open>char::is_control\<close>, in UTF-8.\<close>

fun strip_control :: "bytes \<Rightarrow> bytes" where
  "strip_control (a # b # bs) =
     (if a = 0xC2 \<and> 0x80 \<le> b \<and> b \<le> 0x9F then strip_control bs
      else if a < 0x20 \<or> a = 0x7F then strip_control (b # bs)
      else a # strip_control (b # bs))"
| "strip_control [a] = (if a < 0x20 \<or> a = 0x7F then [] else [a])"
| "strip_control [] = []"

definition text_of :: "bytes \<Rightarrow> string" where
  "text_of bs = map (\<lambda>b. char_of (unat b)) bs"

text \<open>What the phone answers: the acknowledgement, the length of its name and the name.\<close>

definition read_label :: "bytes \<Rightarrow> connect_error + string" where
  "read_label bs =
     (if length bs < 5 then Inl CutOff
      else if take 5 bs \<noteq> [0, 0, 0, 1, 0x22] then Inl Rejected
      else if length bs < 7 then Inl CutOff
      else
        let n = unat (u16_from_be (take 2 (drop 5 bs))) in
        if \<not> (1 \<le> n \<and> n \<le> 256) then Inl BadNameLength
        else if length bs < 7 + n then Inl CutOff
        else
          let label = take n (drop 7 bs) in
          if \<not> utf8_valid label then Inl BadName else Inr (text_of (strip_control label)))"

text \<open>\<open>connect\<close>: its result, and the bytes sent.\<close>

definition connect :: "peer \<Rightarrow> tls_session \<Rightarrow> (connect_error + string) \<times> bytes" where
  "connect p ses =
     (if \<not> tls_up ses then (Inl Unreachable, [])
      else case digest ses of
          None \<Rightarrow> (Inl MissingCertificate, [])
        | Some d \<Rightarrow>
            if d \<noteq> pin p then (Inl WrongCertificate, [])
            else
              let hello = MAGIC @ secret p; sent = take (room ses) hello in
              if length sent < length hello then (Inl NotSent, sent)
              else case read_label (incoming ses) of
                  Inl e \<Rightarrow> (Inl e, sent)
                | Inr label \<Rightarrow> if \<not> settled ses then (Inl NotSettled, sent) else (Inr (label @ '' (Wi-Fi)''), sent))"

section \<open>The directory of profiles\<close>

text \<open>A file of the directory, and the files in the order in which they are listed.  The modes are 0o077
  and 0o600.\<close>

record profile_file =
  content :: string
  regular :: bool
  owner :: nat
  mode :: nat

type_synonym profile_dir = "(string \<times> profile_file) list"

definition is_conf :: "string \<Rightarrow> bool" where
  "is_conf name \<longleftrightarrow> (case strip_suffix ''.conf'' name of Some stem \<Rightarrow> stem \<noteq> [] | None \<Rightarrow> False)"

definition private_file :: "profile_file \<Rightarrow> bool" where
  "private_file f \<longleftrightarrow> regular f \<and> owner f = 0 \<and> mode f AND 0x3F = 0 \<and> length (content f) \<le> 512"

text \<open>\<open>load_from\<close>: \<open>None\<close> when a profile is not private or cannot be read.\<close>

fun load_from :: "v6_text \<Rightarrow> profile_dir \<Rightarrow> peer list option" where
  "load_from v6 [] = Some []"
| "load_from v6 ((name, f) # dir) =
     (if \<not> is_conf name then load_from v6 dir
      else if \<not> private_file f then None
      else case peer_decode v6 (content f) of
          None \<Rightarrow> None
        | Some p \<Rightarrow> map_option (\<lambda>ps. p # ps) (load_from v6 dir))"

definition conf_name :: "peer \<Rightarrow> string" where
  "conf_name p = peer_id p @ ''.conf''"

definition without :: "string \<Rightarrow> profile_dir \<Rightarrow> profile_dir" where
  "without name dir = filter (\<lambda>e. fst e \<noteq> name) dir"

text \<open>\<open>save\<close> by process \<open>pid\<close>: the file is written beside its place and renamed over it; the temporary
  file is gone in any case.\<close>

definition save :: "v6_text \<Rightarrow> nat \<Rightarrow> bool \<Rightarrow> bool \<Rightarrow> peer \<Rightarrow> profile_dir \<Rightarrow> bool \<times> profile_dir" where
  "save v6 pid written renamed p dir =
     (let temp = peer_id p @ ''.'' @ dec_string pid @ ''.new'' in
      if temp \<in> fst ` set dir then (False, without temp dir)
      else if \<not> written \<or> \<not> renamed then (False, dir)
      else (True, without (conf_name p) dir
        @ [(conf_name p, \<lparr>content = peer_encode v6 p, regular = True, owner = 0, mode = 0x180\<rparr>)]))"

fun remove_files :: "peer list \<Rightarrow> socket_addr \<Rightarrow> bool \<Rightarrow> profile_dir \<Rightarrow> bool \<times> profile_dir" where
  "remove_files [] a found dir = (found, dir)"
| "remove_files (p # ps) a found dir =
     (if address p = a
      then if conf_name p \<in> fst ` set dir then remove_files ps a True (without (conf_name p) dir) else (False, dir)
      else remove_files ps a found dir)"

text \<open>\<open>remove\<close>: whether a phone was unpaired without an error.\<close>

definition remove_peer :: "v6_text \<Rightarrow> string \<Rightarrow> profile_dir \<Rightarrow> bool \<times> profile_dir" where
  "remove_peer v6 addr dir =
     (case endpoint v6 addr of
        None \<Rightarrow> (False, dir)
      | Some a \<Rightarrow>
          (case load_from v6 dir of
             None \<Rightarrow> (False, dir)
           | Some ps \<Rightarrow> remove_files ps a False dir))"

section \<open>Reading back what was written\<close>

lemma hex_digit_code: "n < 16 \<Longrightarrow> (of_char (hex_digit n) :: nat) = (if n < 10 then 48 + n else 87 + n)"
  by (simp add: hex_digit_def)

lemma hex_digit_ok:
  assumes "n < 16"
  shows "is_ascii_hexdigit (hex_digit n)" and "hex_value (hex_digit n) = n"
  using assms by (simp_all add: is_ascii_hexdigit_def hex_value_def hex_digit_code Let_def)

lemma unat_u8_nibbles: "unat (v :: u8) div 16 < 16" "unat v mod 16 < 16"
  using unat_u8_less [of v] by arith+

lemma hex_simps [simp]: "hex [] = []" "hex (v # bs) = hex_digit (unat v div 16) # hex_digit (unat v mod 16) # hex bs"
  by (simp_all add: hex_def)

lemma length_hex [simp]: "length (hex bs) = 2 * length bs"
  by (induction bs) simp_all

lemma hex_digits: "list_all is_ascii_hexdigit (hex bs)"
  by (induction bs) (simp_all add: hex_digit_ok unat_u8_nibbles)

lemma unhex_pairs_hex: "unhex_pairs (hex bs) = bs"
proof (induction bs)
  case (Cons v bs)
  have "word_of_nat (16 * (unat v div 16) + unat v mod 16) = v"
    by (simp only: mult_div_mod_eq) simp
  with Cons show ?case by (simp add: hex_digit_ok unat_u8_nibbles del: of_nat_add)
qed simp

lemma unhex_hex: "length bs = 32 \<Longrightarrow> unhex (hex bs) = Some bs"
  by (simp add: unhex_def hex_digits unhex_pairs_hex)

lemma length_unhex_pairs: "length (unhex_pairs s) = length s div 2"
  by (induction s rule: unhex_pairs.induct) simp_all

lemma length_unhex: "unhex s = Some bs \<Longrightarrow> length bs = 32"
  by (auto simp: unhex_def length_unhex_pairs split: if_splits)

lemma hexdigit_not: "is_ascii_hexdigit c \<Longrightarrow> word_char c \<and> c \<noteq> CHR '':'' \<and> c \<noteq> CHR ''/''"
  by (auto simp: is_ascii_hexdigit_def word_char_def ascii_space_def Let_def)

lemma digit_word: "is_digit c \<Longrightarrow> word_char c \<and> c \<noteq> CHR '':'' \<and> c \<noteq> CHR ''.''"
  by (auto simp: is_digit_def word_char_def ascii_space_def)

lemma dec_string_word: "c \<in> set (dec_string n) \<Longrightarrow> word_char c \<and> c \<noteq> CHR '':'' \<and> c \<noteq> CHR ''.''"
  using dec_string_reads [of n] digit_word by (auto simp: list_all_iff)

lemma octet_dec: "octet (dec_string (unat b)) = Some b"
proof -
  have l: "unat b < 256" "unat b < 1000" and no: "\<not> 255 < unat b" using unat_u8_less [of b] by linarith+
  have "hd (dec_string (unat b)) = CHR ''0'' \<Longrightarrow> unat b = 0"
    using dec_string_first [of "unat b"] by auto
  then have "hd (dec_string (unat b)) = CHR ''0'' \<Longrightarrow> length (dec_string (unat b)) \<le> 1"
    by (simp add: dec_string.simps [of 0])
  moreover have "length (dec_string (unat b)) \<le> 3"
    using l by (intro dec_string_short) simp_all
  ultimately show ?thesis
    using dec_string_reads [of "unat b"] by (auto simp: octet_def no)
qed

lemma port_dec: "port_of (dec_string (unat n)) = Some n"
  using dec_string_reads [of "unat n"] unat_u16_less [of n] by (auto simp: port_of_def)

lemma v4_text:
  "v4_of (join_with ''.'' (map (\<lambda>b. dec_string (unat b)) [x, y, z, w])) = Some (V4 x y z w)"
proof -
  have "split_on CHR ''.'' (join_with ''.'' (map (\<lambda>b. dec_string (unat b)) [x, y, z, w]))
      = map (\<lambda>b. dec_string (unat b)) [x, y, z, w]"
    by (rule split_join) (auto dest: dec_string_word)
  then show ?thesis by (simp add: v4_of_def octet_dec)
qed

lemma join_set: "c \<in> set (join_with sep ps) \<Longrightarrow> c \<in> set sep \<or> (\<exists>p\<in>set ps. c \<in> set p)"
  by (induction sep ps rule: join_with.induct) auto

lemma v4_text_chars:
  "c \<in> set (join_with ''.'' (map (\<lambda>b. dec_string (unat b)) [x, y, z, w])) \<Longrightarrow> word_char c \<and> c \<noteq> CHR '':''"
  using join_set [of c "''.''"] dec_string_word by (fastforce simp: word_char_def ascii_space_def)

text \<open>The standard library's texts of IPv6 addresses: printed in brackets, on one line, and read back.\<close>

definition v6_ok :: "v6_text \<Rightarrow> bool" where
  "v6_ok v6 \<longleftrightarrow>
     (\<forall>a. is_v6 (ip a) \<longrightarrow> v6_socket v6 (v6_show v6 a) = Some a \<and> (\<exists>s. v6_show v6 a = CHR ''['' # s)
        \<and> plain_line (v6_show v6 a) \<and> length (v6_show v6 a) \<le> 64)
     \<and> (\<forall>s a. v6_socket v6 s = Some a \<longrightarrow> is_v6 (ip a))"

definition v4_scope_ok :: "socket_addr \<Rightarrow> bool" where
  "v4_scope_ok a \<longleftrightarrow> (\<not> is_v6 (ip a) \<longrightarrow> scope a = 0)"

lemma v4_socket_bracket: "v4_socket (CHR ''['' # s) = None"
proof -
  have "v4_of (CHR ''['' # a) = None" for a
  proof -
    obtain q qs where q: "split_on CHR ''.'' (CHR ''['' # a) = q # qs"
      using split_on_not_Nil by (meson neq_Nil_conv)
    have "hd (split_on CHR ''.'' (CHR ''['' # a)) = takeWhile (\<lambda>c. c \<noteq> CHR ''.'') (CHR ''['' # a)"
      by (rule split_on_hd)
    then have "\<exists>b. q = CHR ''['' # b" using q by auto
    then have "octet q = None" by (auto simp: octet_def is_digit_def)
    then show ?thesis using q by (auto simp: v4_of_def split: list.splits)
  qed
  then show ?thesis by (auto simp: v4_socket_def split_once_def split: option.splits)
qed

lemma socket_show:
  assumes "v6_ok v6" and "v4_scope_ok a"
  shows "socket_of v6 (show_socket v6 a) = Some a"
proof (cases "ip a")
  case (V4 x y z w)
  have "CHR '':'' \<notin> set (join_with ''.'' (map (\<lambda>b. dec_string (unat b)) [x, y, z, w]))"
    using v4_text_chars by blast
  then have "v4_socket (show_socket v6 a) = Some \<lparr>ip = V4 x y z w, port = port a, scope = 0\<rparr>"
    unfolding v4_socket_def show_socket_def V4 ip_addr.case
    using split_once_append [of "CHR '':''" "join_with ''.'' (map (\<lambda>b. dec_string (unat b)) [x, y, z, w])"
        "dec_string (unat (port a))"] v4_text [of x y z w] port_dec [of "port a"]
    by (simp del: list.map)
  then show ?thesis using assms(2) V4 by (cases a) (simp add: socket_of_def v4_scope_ok_def is_v6_def)
next
  case V6
  then have "is_v6 (ip a)" by (simp add: is_v6_def)
  then obtain s where "v6_show v6 a = CHR ''['' # s" "v6_socket v6 (v6_show v6 a) = Some a"
    using assms(1) unfolding v6_ok_def by blast
  then show ?thesis using v4_socket_bracket [of s] by (simp add: socket_of_def show_socket_def V6)
qed

lemma space_at_end_word: "s \<noteq> [] \<Longrightarrow> word_char (last s) \<Longrightarrow> space_at_end s = 0"
proof -
  assume s: "s \<noteq> []" "word_char (last s)"
  then obtain t c where t: "s = t @ [c]" "word_char c" by (cases s rule: rev_cases) simp_all
  have "strip_suffix w (map of_char s :: nat list) = None" if "w \<in> set wide_spaces" for w
  proof -
    have "w \<noteq> [] \<and> last w \<ge> 0x80" using that by (auto simp: wide_spaces_def)
    then have "\<not> (\<exists>r. map of_char s = r @ w)" using t
      by (auto simp: word_char_def dest!: arg_cong [of _ _ last])
    then show ?thesis unfolding strip_suffix_def by (metis append_take_drop_id)
  qed
  then have "List.find (\<lambda>w. strip_suffix w (map of_char s :: nat list) \<noteq> None) wide_spaces = None"
    by (simp add: find_None_iff)
  then show ?thesis using s by (simp add: space_at_end_def word_char_def)
qed

lemma trim_word: "s \<noteq> [] \<Longrightarrow> word_char (hd s) \<Longrightarrow> word_char (last s) \<Longrightarrow> trim s = s"
proof -
  assume s: "s \<noteq> []" "word_char (hd s)" "word_char (last s)"
  then have "space_at_start s = 0" by (cases s) (simp_all add: space_at_start_word)
  moreover have "space_at_end s = 0" using s by (simp add: space_at_end_word)
  ultimately have "trim_start s = s" "trim_end s = s"
    by (simp_all add: trim_start.simps [of s] trim_end.simps [of s])
  then show ?thesis by (simp add: trim_def)
qed

definition peer_ok :: "peer \<Rightarrow> bool" where
  "peer_ok p \<longleftrightarrow> length (pin p) = 32 \<and> length (secret p) = 32 \<and> local_ip (ip (address p)) \<and> port (address p) \<noteq> 0
     \<and> v4_scope_ok (address p)"

lemma endpoint_ok:
  assumes "v6_ok v6" and "endpoint v6 s = Some a"
  shows "local_ip (ip a) \<and> port a \<noteq> 0 \<and> v4_scope_ok a"
proof -
  have "v4_scope_ok a" if "socket_of v6 s = Some a" for a
  proof (cases "v4_socket s")
    case None
    then have "v6_socket v6 s = Some a" using that by (simp add: socket_of_def)
    then show ?thesis using assms(1) by (simp add: v4_scope_ok_def v6_ok_def)
  next
    case (Some b)
    then have "scope a = 0" using that
      by (auto simp: socket_of_def v4_socket_def split: option.splits prod.splits)
    then show ?thesis by (simp add: v4_scope_ok_def)
  qed
  then show ?thesis
    using assms(2) by (auto simp: endpoint_def v4_scope_ok_def split: option.splits if_splits)
qed

lemma peer_parse_ok:
  assumes "v6_ok v6" and "peer_parse v6 a c = Some p"
  shows "peer_ok p"
  using assms(2) endpoint_ok [OF assms(1)]
  by (auto simp: peer_parse_def peer_ok_def split: option.splits list.splits if_splits dest: length_unhex)

lemma endpoint_show:
  "v6_ok v6 \<Longrightarrow> v4_scope_ok a \<Longrightarrow> local_ip (ip a) \<Longrightarrow> port a \<noteq> 0 \<Longrightarrow> endpoint v6 (show_socket v6 a) = Some a"
  by (simp add: endpoint_def socket_show)

lemma hex_chars: "c \<in> set (hex bs) \<Longrightarrow> word_char c \<and> c \<noteq> CHR '':'' \<and> c \<noteq> CHR ''/''"
  using hex_digits [of bs] hexdigit_not by (auto simp: list_all_iff)

lemma code_words:
  assumes "length s = 32"
  shows "trim (''pk1:'' @ hex p @ '':'' @ hex s) = ''pk1:'' @ hex p @ '':'' @ hex s"
    and "split_on CHR '':'' (''pk1:'' @ hex p @ '':'' @ hex s) = [''pk1'', hex p, hex s]"
proof -
  have n: "hex s \<noteq> []" using assms by (cases s) simp_all
  show "trim (''pk1:'' @ hex p @ '':'' @ hex s) = ''pk1:'' @ hex p @ '':'' @ hex s"
    using hex_chars [of "last (hex s)" s] n
    by (intro trim_word) (simp_all add: word_char_def ascii_space_def)
  have "CHR '':'' \<notin> set (hex b)" for b using hex_chars by blast
  then show "split_on CHR '':'' (''pk1:'' @ hex p @ '':'' @ hex s) = [''pk1'', hex p, hex s]"
    using split_on_append [of "CHR '':''" "''pk1''" "hex p @ '':'' @ hex s"] by (simp add: split_on_append split_on_single)
qed

lemma peer_parse_show:
  assumes "v6_ok v6" and "peer_ok p"
  shows "peer_parse v6 (show_socket v6 (address p)) (''pk1:'' @ peer_id p @ '':'' @ hex (secret p)) = Some p"
  using assms code_words [of "secret p" "pin p"]
  by (cases p) (simp add: peer_parse_def peer_ok_def endpoint_show unhex_hex peer_id_def)

lemma show_plain:
  assumes "v6_ok v6"
  shows "plain_line (show_socket v6 a)"
proof (cases "ip a")
  case (V4 x y z w)
  have "word_char c" if "c \<in> set (show_socket v6 a)" for c
    using that v4_text_chars [of c x y z w] dec_string_word
    unfolding show_socket_def V4 ip_addr.case by (auto simp: word_char_def ascii_space_def)
  moreover have "show_socket v6 a \<noteq> []" by (simp add: show_socket_def V4)
  ultimately have "NL \<notin> set (show_socket v6 a)" "last (show_socket v6 a) \<noteq> CR"
    using last_in_set by (force simp: word_char_def ascii_space_def)+
  then show ?thesis by (simp add: plain_line_def)
next
  case V6
  then show ?thesis using assms by (auto simp: v6_ok_def show_socket_def is_v6_def)
qed

lemma code_plain: "length s = 32 \<Longrightarrow> plain_line (''pk1:'' @ hex p @ '':'' @ hex s)"
  using hex_chars [of _ p] hex_chars [of _ s] last_in_set [of "hex s"]
  by (cases s) (auto simp: plain_line_def word_char_def ascii_space_def)

lemma peer_decode_encode:
  assumes "v6_ok v6" and "peer_ok p"
  shows "peer_decode v6 (peer_encode v6 p) = Some p"
proof -
  let ?ls = "[show_socket v6 (address p), ''pk1:'' @ peer_id p @ '':'' @ hex (secret p)]"
  have e: "peer_encode v6 p = unlines ?ls" by (simp add: peer_encode_def)
  have "str_lines (unlines ?ls) = ?ls"
    using show_plain [OF assms(1)] code_plain [of "secret p" "pin p"] assms(2)
    by (intro lines_unlines) (simp add: peer_ok_def peer_id_def)
  then show ?thesis
    unfolding e peer_decode_def using peer_parse_show [OF assms] by simp
qed

lemma show_short: "v6_ok v6 \<Longrightarrow> length (show_socket v6 a) \<le> 64"
proof (cases "ip a")
  case (V4 x y z w)
  have short: "length (dec_string (unat b)) \<le> 3" for b :: u8
  proof (rule dec_string_short)
    have "unat b < 1000" using unat_u8_less [of b] by linarith
    then show "unat b < 10 ^ 3" by simp
  qed simp
  have "length (dec_string (unat x)) + length (dec_string (unat y)) + length (dec_string (unat z))
      + length (dec_string (unat w)) \<le> 12"
    using short [of x] short [of y] short [of z] short [of w] by linarith
  moreover have "length (dec_string (unat (port a))) \<le> 5"
  proof (rule dec_string_short)
    have "unat (port a) < 65536" by (rule unat_u16_less)
    then show "unat (port a) < 10 ^ 5" by simp
  qed simp
  ultimately show ?thesis by (simp add: show_socket_def V4)
qed (auto simp: v6_ok_def show_socket_def is_v6_def)

lemma encode_short: "v6_ok v6 \<Longrightarrow> peer_ok p \<Longrightarrow> length (peer_encode v6 p) \<le> 512"
  using show_short [of v6 "address p"] by (simp add: peer_encode_def peer_ok_def peer_id_def)

section \<open>The directory\<close>

definition profile_of :: "v6_text \<Rightarrow> string \<times> profile_file \<Rightarrow> peer option" where
  "profile_of v6 e = (if is_conf (fst e) then peer_decode v6 (content (snd e)) else None)"

text \<open>Only what \<open>save\<close> puts there: private profiles under their phones' names, each name once.\<close>

definition dir_ok :: "v6_text \<Rightarrow> profile_dir \<Rightarrow> bool" where
  "dir_ok v6 dir \<longleftrightarrow> v6_ok v6 \<and> distinct (map fst dir)
     \<and> (\<forall>e\<in>set dir. is_conf (fst e) \<longrightarrow> private_file (snd e) \<and> (\<exists>p. profile_of v6 e = Some p \<and> fst e = conf_name p))"

definition profiles :: "v6_text \<Rightarrow> profile_dir \<Rightarrow> peer set" where
  "profiles v6 dir = {p. \<exists>e\<in>set dir. profile_of v6 e = Some p}"

lemma load_from_profiles:
  assumes "dir_ok v6 dir"
  shows "load_from v6 dir = Some (List.map_filter (profile_of v6) dir)"
  using assms
proof (induction v6 dir rule: load_from.induct)
  case (2 v6 name f dir)
  then have "dir_ok v6 dir" by (simp add: dir_ok_def)
  with 2 show ?case
    by (auto simp: dir_ok_def profile_of_def List.map_filter_def)
qed (simp add: List.map_filter_def)

lemma set_loaded: "set (List.map_filter (profile_of v6) dir) = profiles v6 dir"
  by (force simp: List.map_filter_def profiles_def)

lemma peer_decode_ok: "v6_ok v6 \<Longrightarrow> peer_decode v6 text = Some p \<Longrightarrow> peer_ok p"
  by (auto simp: peer_decode_def split: list.splits intro: peer_parse_ok)

lemma profile_ok: "dir_ok v6 dir \<Longrightarrow> p \<in> profiles v6 dir \<Longrightarrow> peer_ok p"
  by (auto simp: profiles_def dir_ok_def profile_of_def split: if_splits intro: peer_decode_ok)

lemma conf_name_is_conf: "is_conf (conf_name p) \<longleftrightarrow> pin p \<noteq> []"
  unfolding is_conf_def conf_name_def strip_suffix_append peer_id_def by (cases "pin p") simp_all

lemma hex_inject: "hex a = hex b \<longleftrightarrow> a = b"
  using unhex_pairs_hex by metis

lemma conf_name_eq: "conf_name p = conf_name q \<longleftrightarrow> pin p = pin q"
  by (simp add: conf_name_def peer_id_def hex_inject)

lemma dir_ok_without: "dir_ok v6 dir \<Longrightarrow> dir_ok v6 (without name dir)"
  by (auto simp: dir_ok_def without_def distinct_map_filter)

lemma profile_name: "dir_ok v6 dir \<Longrightarrow> e \<in> set dir \<Longrightarrow> profile_of v6 e = Some p \<Longrightarrow> fst e = conf_name p"
  by (auto simp: dir_ok_def profile_of_def split: if_splits)

lemma profiles_without:
  assumes "dir_ok v6 dir"
  shows "profiles v6 (without (conf_name p) dir) = {q \<in> profiles v6 dir. pin q \<noteq> pin p}"
proof -
  have "e \<in> set (without (conf_name p) dir) \<longleftrightarrow> e \<in> set dir \<and> pin q \<noteq> pin p"
    if "profile_of v6 e = Some q" for e q
    using profile_name [OF assms _ that] by (auto simp: without_def conf_name_eq)
  then show ?thesis by (auto simp: profiles_def)
qed

definition saved :: "v6_text \<Rightarrow> peer \<Rightarrow> profile_dir \<Rightarrow> profile_dir" where
  "saved v6 p dir = without (conf_name p) dir
     @ [(conf_name p, \<lparr>content = peer_encode v6 p, regular = True, owner = 0, mode = 0x180\<rparr>)]"

lemma saved_ok:
  assumes "dir_ok v6 dir" and "peer_ok p"
  shows "dir_ok v6 (saved v6 p dir)"
    and "profiles v6 (saved v6 p dir) = insert p {q \<in> profiles v6 dir. pin q \<noteq> pin p}"
proof -
  let ?e = "(conf_name p, \<lparr>content = peer_encode v6 p, regular = True, owner = 0, mode = 0x180\<rparr>)"
  have v: "v6_ok v6" using assms(1) by (simp add: dir_ok_def)
  have c: "is_conf (conf_name p)" using assms(2) by (auto simp: conf_name_is_conf peer_ok_def)
  have e: "profile_of v6 ?e = Some p"
    using c peer_decode_encode [OF v assms(2)] by (simp add: profile_of_def)
  have f: "private_file (snd ?e)" using encode_short [OF v assms(2)] by (simp add: private_file_def)
  have w: "dir_ok v6 (without (conf_name p) dir)" using assms(1) by (rule dir_ok_without)
  have "conf_name p \<notin> fst ` set (without (conf_name p) dir)" by (auto simp: without_def)
  with w e f show "dir_ok v6 (saved v6 p dir)" by (auto simp: dir_ok_def saved_def)
  have "profiles v6 (saved v6 p dir) = insert p (profiles v6 (without (conf_name p) dir))"
    using e by (auto simp: profiles_def saved_def)
  then show "profiles v6 (saved v6 p dir) = insert p {q \<in> profiles v6 dir. pin q \<noteq> pin p}"
    using profiles_without [OF assms(1)] by simp
qed

definition unpaired :: "v6_text \<Rightarrow> socket_addr \<Rightarrow> profile_dir \<Rightarrow> profile_dir" where
  "unpaired v6 a dir = snd (remove_files (List.map_filter (profile_of v6) dir) a False dir)"

lemma remove_files_correct:
  "dir_ok v6 dir \<Longrightarrow> distinct (map pin ps) \<Longrightarrow> set ps \<subseteq> profiles v6 dir \<Longrightarrow>
    dir_ok v6 (snd (remove_files ps a found dir))
    \<and> profiles v6 (snd (remove_files ps a found dir)) = {q \<in> profiles v6 dir. \<not> (\<exists>p\<in>set ps. address p = a \<and> pin p = pin q)}
    \<and> fst (remove_files ps a found dir) = (found \<or> (\<exists>p\<in>set ps. address p = a))"
proof (induction ps a found dir rule: remove_files.induct)
  case (2 p ps a found dir)
  show ?case
  proof (cases "address p = a")
    case True
    have "p \<in> profiles v6 dir" using 2(5) by simp
    then obtain e where "e \<in> set dir" "profile_of v6 e = Some p" by (auto simp: profiles_def)
    then have m: "conf_name p \<in> fst ` set dir" using profile_name [OF 2(3)] by (metis imageI)
    have w: "profiles v6 (without (conf_name p) dir) = {q \<in> profiles v6 dir. pin q \<noteq> pin p}"
      using 2(3) by (rule profiles_without)
    have sub: "set ps \<subseteq> profiles v6 (without (conf_name p) dir)"
      using 2(4,5) by (fastforce simp: w image_iff)
    have d: "distinct (map pin ps)" using 2(4) by simp
    have set_eq: "{q \<in> {q \<in> profiles v6 dir. pin q \<noteq> pin p}. \<not> (\<exists>p\<in>set ps. address p = a \<and> pin p = pin q)}
        = {q \<in> profiles v6 dir. \<not> (\<exists>p\<in>set (p # ps). address p = a \<and> pin p = pin q)}"
      using True by auto
    show ?thesis
      using 2(1) [OF True m dir_ok_without [OF 2(3)] d sub] m
      by (simp only: w set_eq) (simp add: True)
  next
    case False
    have "distinct (map pin ps)" "set ps \<subseteq> profiles v6 dir" using 2(4,5) by simp_all
    from 2(2) [OF False 2(3) this] False show ?thesis by simp
  qed
qed simp

lemma pins_distinct: "dir_ok v6 dir \<Longrightarrow> distinct (map pin (List.map_filter (profile_of v6) dir))"
proof (induction dir)
  case (Cons e dir)
  then have d: "dir_ok v6 dir" and n: "fst e \<notin> fst ` set dir" by (simp_all add: dir_ok_def)
  have "pin p \<notin> pin ` profiles v6 dir" if "profile_of v6 e = Some p" for p
  proof
    assume "pin p \<in> pin ` profiles v6 dir"
    then obtain q f where "pin q = pin p" "f \<in> set dir" "profile_of v6 f = Some q" by (auto simp: profiles_def)
    then have "fst f = fst e"
      using profile_name [OF d] profile_name [OF Cons.prems] that conf_name_eq by fastforce
    then show False using n \<open>f \<in> set dir\<close> by (metis imageI)
  qed
  then show ?case
    using Cons.IH [OF d] set_loaded [of v6 dir] by (cases "profile_of v6 e") (simp_all add: map_filter_simps)
qed (simp add: map_filter_simps)

lemma unpaired_ok:
  assumes "dir_ok v6 dir"
  shows "dir_ok v6 (unpaired v6 a dir)"
    and "profiles v6 (unpaired v6 a dir) = {q \<in> profiles v6 dir. address q \<noteq> a}"
proof -
  let ?ps = "List.map_filter (profile_of v6) dir"
  have r: "dir_ok v6 (unpaired v6 a dir)
    \<and> profiles v6 (unpaired v6 a dir) = {q \<in> profiles v6 dir. \<not> (\<exists>p\<in>set ?ps. address p = a \<and> pin p = pin q)}"
    using remove_files_correct [OF assms pins_distinct [OF assms], of a False] set_loaded [of v6 dir]
    by (simp add: unpaired_def)
  have "q = p" if "p \<in> profiles v6 dir" "q \<in> profiles v6 dir" "pin p = pin q" for p q
    using that pins_distinct [OF assms] set_loaded [of v6 dir]
    by (metis distinct_map inj_onD)
  with r show "dir_ok v6 (unpaired v6 a dir)"
    "profiles v6 (unpaired v6 a dir) = {q \<in> profiles v6 dir. address q \<noteq> a}"
    using set_loaded [of v6 dir] by auto
qed

text \<open>The contract the pairing commands and the daemon's loop share.\<close>

locale profile_store =
  fixes ok :: "'d \<Rightarrow> bool"
    and peers :: "'d \<Rightarrow> peer set"
    and put :: "peer \<Rightarrow> 'd \<Rightarrow> 'd"
    and del :: "socket_addr \<Rightarrow> 'd \<Rightarrow> 'd"
  assumes put_ok: "ok d \<Longrightarrow> peer_ok p \<Longrightarrow> ok (put p d)"
    and put_peers: "ok d \<Longrightarrow> peer_ok p \<Longrightarrow> peers (put p d) = insert p {q \<in> peers d. pin q \<noteq> pin p}"
    and del_ok: "ok d \<Longrightarrow> ok (del a d)"
    and del_peers: "ok d \<Longrightarrow> peers (del a d) = {q \<in> peers d. address q \<noteq> a}"
begin

lemma put_twice:
  "ok d \<Longrightarrow> peer_ok p \<Longrightarrow> peer_ok q \<Longrightarrow> pin p = pin q \<Longrightarrow> peers (put q (put p d)) = peers (put q d)"
  by (auto simp: put_ok put_peers)

lemma put_del:
  "ok d \<Longrightarrow> peer_ok p \<Longrightarrow> peers (del (address p) (put p d)) = {q \<in> peers d. pin q \<noteq> pin p \<and> address q \<noteq> address p}"
  by (auto simp: put_ok put_peers del_peers)

end

interpretation phones: profile_store "dir_ok v6" "profiles v6" "saved v6" "unpaired v6" for v6
  by unfold_locales (simp_all add: saved_ok unpaired_ok)

text \<open>What the functions return, in these terms.\<close>

lemma save_result:
  "snd (save v6 pid written renamed p dir) \<in> {dir, saved v6 p dir, without (peer_id p @ ''.'' @ dec_string pid @ ''.new'') dir}"
  "fst (save v6 pid written renamed p dir) \<longleftrightarrow>
    peer_id p @ ''.'' @ dec_string pid @ ''.new'' \<notin> fst ` set dir \<and> written \<and> renamed"
  "fst (save v6 pid written renamed p dir) \<Longrightarrow> snd (save v6 pid written renamed p dir) = saved v6 p dir"
  by (auto simp: save_def saved_def Let_def split: if_splits)

lemma remove_peer_result:
  assumes "dir_ok v6 dir" and "endpoint v6 addr = Some a"
  shows "snd (remove_peer v6 addr dir) = unpaired v6 a dir"
    and "fst (remove_peer v6 addr dir) \<longleftrightarrow> (\<exists>q\<in>profiles v6 dir. address q = a)"
  using assms load_from_profiles [OF assms(1)] set_loaded [of v6 dir]
    remove_files_correct [OF assms(1) pins_distinct [OF assms(1)], of a False]
  by (simp_all add: remove_peer_def unpaired_def)

section \<open>A form of IPv6 addresses for the concrete runs\<close>

definition group_bytes :: "ip_addr \<Rightarrow> bytes" where
  "group_bytes i = (case i of V4 _ _ _ _ \<Rightarrow> []
     | V6 a b c d e f g h \<Rightarrow> u16_be a @ u16_be b @ u16_be c @ u16_be d @ u16_be e @ u16_be f @ u16_be g @ u16_be h)"

definition read_full :: "bytes \<Rightarrow> socket_addr" where
  "read_full bs =
     (let g = (\<lambda>k. u16_from_be (take 2 (drop (2 * k) bs))) in
      \<lparr>ip = V6 (g 0) (g 1) (g 2) (g 3) (g 4) (g 5) (g 6) (g 7), port = g 8, scope = u32_from_be (take 4 (drop 18 bs))\<rparr>)"

definition full_v6 :: v6_text where
  "full_v6 = \<lparr>v6_socket = (\<lambda>s. if s \<noteq> [] \<and> hd s = CHR ''['' then Some (read_full (unhex_pairs (tl s))) else None),
     v6_ip = (\<lambda>_. None), v6_show = (\<lambda>a. CHR ''['' # hex (group_bytes (ip a) @ u16_be (port a) @ u32_be (scope a)))\<rparr>"

lemma read_full_bytes: "is_v6 (ip a) \<Longrightarrow> read_full (group_bytes (ip a) @ u16_be (port a) @ u32_be (scope a)) = a"
  by (cases a; cases "ip a") (simp_all add: read_full_def group_bytes_def is_v6_def codec Let_def)

lemma full_v6_ok: "v6_ok full_v6"
proof -
  have "plain_line (CHR ''['' # hex bs)" for bs
    using hex_chars [of _ bs] last_in_set [of "hex bs"]
    by (auto simp: plain_line_def word_char_def ascii_space_def)
  moreover have "2 * length (group_bytes i) \<le> 51" for i
    by (cases i) (simp_all add: group_bytes_def codec)
  moreover have "is_v6 (ip (read_full bs))" for bs
    by (simp add: read_full_def is_v6_def Let_def)
  ultimately show ?thesis
    by (auto simp: v6_ok_def full_v6_def unhex_pairs_hex read_full_bytes codec)
qed

definition sample_peer :: peer where
  "sample_peer = \<lparr>address = \<lparr>ip = V4 192 168 1 10, port = PORT, scope = 0\<rparr>, pin = replicate 32 0x11,
     secret = replicate 32 0x42\<rparr>"

lemma sample_peer_ok: "peer_ok sample_peer"
  by (simp add: peer_ok_def sample_peer_def local_ip_def PORT_def v4_scope_ok_def)

section \<open>Properties\<close>

text \<open>C37: Every pairing code and profile the program accepts is well formed: a certificate pin and a secret of
  32 bytes each, an address in a private, link-local or loopback range and a port that is not 0; so
  is everything \<open>load_from\<close> returns, whatever is in the directory.\<close>

theorem accepted_peers_ok:
  assumes "v6_ok v6"
  shows "(\<forall>addr code p. peer_parse v6 addr code = Some p \<longrightarrow> peer_ok p)
    \<and> (\<forall>text p. peer_decode v6 text = Some p \<longrightarrow> peer_ok p)
    \<and> (\<forall>dir ps. load_from v6 dir = Some ps \<longrightarrow> (\<forall>p\<in>set ps. peer_ok p))"
proof -
  have "load_from v6 dir = Some ps \<Longrightarrow> \<forall>p\<in>set ps. peer_ok p" for dir ps
  proof (induction dir arbitrary: ps)
    case (Cons e dir)
    then show ?case
      using peer_decode_ok [OF assms] by (cases e) (auto split: if_splits option.splits)
  qed simp
  then show ?thesis using assms peer_parse_ok peer_decode_ok by blast
qed

theorem accepted_peers_ok_witness:
  "peer_ok sample_peer \<and> peer_decode full_v6 (peer_encode full_v6 sample_peer) = Some sample_peer"
proof -
  have "peer_decode full_v6 (peer_encode full_v6 sample_peer) = Some sample_peer"
    using full_v6_ok sample_peer_ok by (rule peer_decode_encode)
  with accepted_peers_ok [OF full_v6_ok] show ?thesis by blast
qed

text \<open>A stored profile is read back as it was: \<open>decode\<close> returns the peer from what \<open>encode\<close> wrote (a
  text short enough for the loader), and so does the pairing code itself, typed with blanks around
  it, with the address printed by the program.\<close>

theorem profile_reads_back:
  assumes "v6_ok v6" and "peer_ok p"
  shows "peer_decode v6 (peer_encode v6 p) = Some p \<and> length (peer_encode v6 p) \<le> 512
    \<and> peer_parse v6 (show_socket v6 (address p)) (''pk1:'' @ hex (pin p) @ '':'' @ hex (secret p)) = Some p"
  using peer_decode_encode [OF assms] encode_short [OF assms] peer_parse_show [OF assms] by (simp add: peer_id_def)

theorem profile_reads_back_witness:
  "peer_decode full_v6 (peer_encode full_v6 sample_peer) = Some sample_peer"
  using profile_reads_back [OF full_v6_ok sample_peer_ok] by simp

lemma strip_control_bytes: "b \<in> set (strip_control bs) \<Longrightarrow> 0x20 \<le> b \<and> b \<noteq> 0x7F \<and> b \<in> set bs"
  by (induction bs rule: strip_control.induct) (auto split: if_splits simp: not_less)

lemma length_strip_control: "length (strip_control bs) \<le> length bs"
  by (induction bs rule: strip_control.induct) auto

lemma read_label_clean:
  assumes "read_label bs = Inr label"
  shows "take 5 bs = [0, 0, 0, 1, 0x22] \<and> length label \<le> 256 \<and> (\<forall>c\<in>set label. 32 \<le> (of_char c :: nat))"
proof -
  let ?n = "unat (u16_from_be (take 2 (drop 5 bs)))" let ?t = "take ?n (drop 7 bs)"
  have l: "take 5 bs = [0, 0, 0, 1, 0x22]" "?n \<le> 256" "label = text_of (strip_control ?t)"
    using assms by (auto simp: read_label_def Let_def split: if_splits)
  have "32 \<le> (of_char c :: nat)" if c: "c \<in> set label" for c
  proof -
    obtain b where b: "b \<in> set (strip_control ?t)" "c = char_of (unat b)" using c l(3) by (auto simp: text_of_def)
    have "unat (0x20 :: u8) \<le> unat b" using strip_control_bytes [OF b(1)] by (simp add: word_le_nat_alt)
    then show ?thesis by (simp add: b(2))
  qed
  moreover have "length label \<le> 256"
    using l(2,3) length_strip_control [of ?t] by (simp add: text_of_def)
  ultimately show ?thesis using l(1) by blast
qed

lemma connect_sent:
  "snd (connect p ses) = [] \<or> digest ses = Some (pin p) \<and> snd (connect p ses) = take (room ses) (MAGIC @ secret p)"
  by (simp add: connect_def Let_def del: take_append split: option.split sum.split)

lemma connect_success:
  "fst (connect p ses) = Inr label \<Longrightarrow> digest ses = Some (pin p) \<and> snd (connect p ses) = MAGIC @ secret p
    \<and> (\<exists>name. read_label (incoming ses) = Inr name \<and> label = name @ '' (Wi-Fi)'')"
  by (auto simp: connect_def Let_def simp del: take_append length_take length_append
      split: option.splits sum.splits if_splits) simp

text \<open>The characters \<open>char::is_control\<close> holds of: U+0000 to U+001F, U+007F and U+0080 to U+009F.\<close>

definition control_char :: "bytes \<Rightarrow> bool" where
  "control_char ch \<longleftrightarrow> (\<exists>a. ch = [a] \<and> (a < 0x20 \<or> a = 0x7F)) \<or> (\<exists>b. ch = [0xC2, b] \<and> 0x80 \<le> b \<and> b \<le> 0x9F)"

lemma strip_high: "0x80 \<le> a \<Longrightarrow> a \<noteq> 0xC2 \<Longrightarrow> strip_control (a # s) = a # strip_control s"
  by (cases s) (auto simp: word_le_nat_alt word_less_nat_alt word_unat_eq_iff)

lemma strip_low: "a \<le> 0x7F \<Longrightarrow> strip_control (a # s) = (if a < 0x20 \<or> a = 0x7F then [] else [a]) @ strip_control s"
  by (cases s) auto

lemma strip_continuation: "continuation b \<Longrightarrow> strip_control (b # s) = b # strip_control s"
  by (rule strip_high) (auto simp: continuation_def word_le_nat_alt)

text \<open>What \<open>filter\<close> over the characters does, on the bytes.\<close>

lemma strip_char:
  assumes "utf8_char s \<noteq> 0"
  shows "strip_control s = (if control_char (take (utf8_char s) s) then [] else take (utf8_char s) s)
    @ strip_control (drop (utf8_char s) s)"
proof -
  obtain a s1 where s: "s = a # s1" using assms by (cases s) auto
  show ?thesis
  proof (cases "a \<le> 0x7F")
    case True
    then show ?thesis by (simp add: s strip_low control_char_def)
  next
    case False
    then have a: "0x80 \<le> a" "\<not> a < 0x20" "a \<noteq> 0x7F" by (auto simp: word_le_nat_alt word_less_nat_alt)
    obtain b s2 where s1: "s1 = b # s2" using assms False s by (cases s1) auto
    show ?thesis
    proof (cases "0xC2 \<le> a \<and> a \<le> 0xDF")
      case two: True
      then have b: "continuation b" using assms False s s1 by (auto split: if_splits)
      then have k: "utf8_char s = 2" using two False s s1 by simp
      show ?thesis
      proof (cases "a = 0xC2 \<and> b \<le> 0x9F")
        case True
        then show ?thesis using b unfolding k by (simp add: s s1 control_char_def continuation_def)
      next
        case False
        then have "strip_control (a # b # s2) = a # strip_control (b # s2)"
          using a b by (auto simp: continuation_def)
        then show ?thesis using False a b unfolding k
          by (auto simp: s s1 control_char_def strip_continuation)
      qed
    next
      case False
      obtain c s3 where s2: "s2 = c # s3" using assms False \<open>\<not> a \<le> 0x7F\<close> s s1 by (cases s2) auto
      have ne: "a \<noteq> 0xC2" using False by auto
      have "utf8_char (a # b # c # s3) \<noteq> 0" using assms unfolding s s1 s2 .
      from utf8_char_long [OF this \<open>\<not> a \<le> 0x7F\<close> False]
      have b: "continuation b" and c: "continuation c"
        and "utf8_char s = 3 \<or> (\<exists>d s4. utf8_char s = 4 \<and> s3 = d # s4 \<and> continuation d)"
        unfolding s s1 s2 by blast+
      then consider "utf8_char s = 3" | d s4 where "utf8_char s = 4" "s3 = d # s4" "continuation d"
        by blast
      then show ?thesis
      proof cases
        case 1
        show ?thesis unfolding 1
          by (simp add: s s1 s2 control_char_def strip_high [OF a(1) ne] strip_continuation b c del: strip_control.simps)
      next
        case (2 d s4)
        show ?thesis unfolding 2(1)
          by (simp add: s s1 s2 2(2) control_char_def strip_high [OF a(1) ne] strip_continuation b c 2(3) del: strip_control.simps)
      qed
    qed
  qed
qed

lemma strip_control_chars:
  "utf8_valid s \<Longrightarrow> strip_control s = concat (filter (\<lambda>ch. \<not> control_char ch) (utf8_chars s))"
proof (induction s rule: utf8_valid.induct)
  case (1 s)
  show ?case
  proof (cases "s = []")
    case False
    then have c: "utf8_char s \<noteq> 0" "utf8_valid (drop (utf8_char s) s)"
      using "1.prems" utf8_valid.simps [of s] by (simp_all split: if_splits)
    have "utf8_chars s = take (utf8_char s) s # utf8_chars (drop (utf8_char s) s)"
      using c(1) False by (subst utf8_chars.simps) (simp add: Let_def max_def)
    then show ?thesis
      using "1.IH" [OF False c] strip_char [OF c(1)] by simp
  qed simp
qed

lemma read_label_name:
  assumes "read_label bs = Inr name"
  shows "let n = unat (u16_from_be (take 2 (drop 5 bs))); sent = take n (drop 7 bs) in
    1 \<le> n \<and> n \<le> 256 \<and> length sent = n \<and> utf8_valid sent
      \<and> name = text_of (concat (filter (\<lambda>ch. \<not> control_char ch) (utf8_chars sent)))"
  using assms by (auto simp: read_label_def Let_def strip_control_chars split: if_splits)

lemma strip_control_codes: "a \<in> set (strip_control s) \<Longrightarrow> a \<noteq> 0x7F"
  by (induction s rule: strip_control.induct) (auto split: if_splits)

text \<open>C7: The secret goes to the paired phone only: whatever the peer does, nothing at all is sent before the
  digest of its certificate equals the pin of the pairing code, and what is sent is a beginning of
  the greeting and the secret.  When \<open>connect\<close> succeeds all of it was sent, the phone acknowledged it,
  and the label is the name the phone sent, of 1 to 256 bytes of UTF-8, without its control characters
  (U+0000 to U+001F, U+007F and U+0080 to U+009F, so no tab or line end reaches the file of devices) and with
  every other character, followed by the transport.\<close>

theorem secret_only_to_phone:
  shows "(snd (connect p ses) \<noteq> [] \<longrightarrow> digest ses = Some (pin p))
    \<and> (\<exists>rest. MAGIC @ secret p = snd (connect p ses) @ rest)
    \<and> (\<forall>label. fst (connect p ses) = Inr label \<longrightarrow> digest ses = Some (pin p) \<and> snd (connect p ses) = MAGIC @ secret p
        \<and> take 5 (incoming ses) = [0, 0, 0, 1, 0x22] \<and> (\<forall>c\<in>set label. 32 \<le> (of_char c :: nat) \<and> of_char c \<noteq> (127 :: nat))
        \<and> length label \<le> 264
        \<and> (let n = unat (u16_from_be (take 2 (drop 5 (incoming ses)))); sent = take n (drop 7 (incoming ses)) in
            1 \<le> n \<and> n \<le> 256 \<and> length sent = n \<and> utf8_valid sent
            \<and> label = text_of (concat (filter (\<lambda>ch. \<not> control_char ch) (utf8_chars sent))) @ '' (Wi-Fi)''))"
proof (intro conjI allI impI)
  show "\<exists>rest. MAGIC @ secret p = snd (connect p ses) @ rest"
    using connect_sent [of p ses] append_take_drop_id [of "room ses" "MAGIC @ secret p"] by (metis append_Nil)
next
  fix label
  assume l: "fst (connect p ses) = Inr label"
  from connect_success [OF l] obtain name
    where n: "digest ses = Some (pin p)" "snd (connect p ses) = MAGIC @ secret p"
      "read_label (incoming ses) = Inr name" "label = name @ '' (Wi-Fi)''"
    by blast
  note c = read_label_clean [OF n(3)]
  show "digest ses = Some (pin p)" "snd (connect p ses) = MAGIC @ secret p"
    "take 5 (incoming ses) = [0, 0, 0, 1, 0x22]"
    using n c by blast+
  show "length label \<le> 264" using n(4) c by simp
  have "of_char x \<noteq> (127 :: nat)" if "x \<in> set name" for x
  proof -
    obtain bs where "name = text_of (strip_control bs)"
      using n(3) by (auto simp: read_label_def Let_def split: if_splits)
    then obtain a where a: "a \<in> set (strip_control bs)" "x = char_of (unat a)"
      using \<open>x \<in> set name\<close> by (auto simp: text_of_def)
    show ?thesis
      using strip_control_codes [OF a(1)] unat_u8_less [of a] by (simp add: a(2) word_unat_eq_iff)
  qed
  then show "\<forall>c\<in>set label. 32 \<le> (of_char c :: nat) \<and> of_char c \<noteq> (127 :: nat)" using n(4) c by auto
  show "let n = unat (u16_from_be (take 2 (drop 5 (incoming ses)))); sent = take n (drop 7 (incoming ses)) in
      1 \<le> n \<and> n \<le> 256 \<and> length sent = n \<and> utf8_valid sent
      \<and> label = text_of (concat (filter (\<lambda>ch. \<not> control_char ch) (utf8_chars sent))) @ '' (Wi-Fi)''"
    using read_label_name [OF n(3)] n(4) by (simp add: Let_def)
qed (use connect_sent [of p ses] in auto)

theorem secret_only_to_phone_witness:
  "snd (connect sample_peer \<lparr>tls_up = True, digest = Some (replicate 32 0x11), room = 100,
      incoming = [0, 0, 0, 1, 0x22, 0, 2, 0x4D, 0x65], settled = True\<rparr>) = MAGIC @ replicate 32 0x42
    \<and> fst (connect sample_peer \<lparr>tls_up = True, digest = Some (replicate 32 0x11), room = 100,
      incoming = [0, 0, 0, 1, 0x22, 0, 2, 0x4D, 0x65], settled = True\<rparr>) = Inr ''Me (Wi-Fi)''"
proof -
  let ?ses = "\<lparr>tls_up = True, digest = Some (replicate 32 0x11), room = 100,
      incoming = [0, 0, 0, 1, 0x22, 0, 2, 0x4D, 0x65], settled = True\<rparr>"
  have r: "fst (connect sample_peer ?ses) = Inr ''Me (Wi-Fi)''" by code_simp
  from secret_only_to_phone [of sample_peer ?ses] r show ?thesis by (simp add: sample_peer_def)
qed

text \<open>The store of paired phones: a directory of profiles stays one through \<open>save\<close> and \<open>remove\<close>, also
  when they fail half-way; after a \<open>save\<close> that succeeds the daemon loads the new phone and every other
  one (the same phone under its new address only), and after \<open>remove\<close> every phone but those at
  that address; \<open>remove\<close> succeeds exactly when there was one.\<close>

theorem pairings_kept:
  assumes "dir_ok v6 dir" and "peer_ok p" and "endpoint v6 addr = Some a"
  shows "dir_ok v6 (snd (save v6 pid written renamed p dir)) \<and> dir_ok v6 (snd (remove_peer v6 addr dir))
    \<and> (fst (save v6 pid written renamed p dir) \<longrightarrow>
        (\<exists>ps. load_from v6 (snd (save v6 pid written renamed p dir)) = Some ps
          \<and> set ps = insert p {q \<in> profiles v6 dir. pin q \<noteq> pin p}))
    \<and> (\<exists>ps. load_from v6 (snd (remove_peer v6 addr dir)) = Some ps \<and> set ps = {q \<in> profiles v6 dir. address q \<noteq> a})
    \<and> (fst (remove_peer v6 addr dir) \<longleftrightarrow> (\<exists>q\<in>profiles v6 dir. address q = a))"
proof -
  have "dir_ok v6 (snd (save v6 pid written renamed p dir))"
    using save_result(1) [of v6 pid written renamed p dir] phones.put_ok [OF assms(1,2)] dir_ok_without [OF assms(1)] assms(1)
    by auto
  then show ?thesis
    using save_result(3) [of v6 pid written renamed p dir] remove_peer_result [OF assms(1,3)]
      phones.put_ok [OF assms(1,2)] phones.put_peers [OF assms(1,2)]
      phones.del_ok [OF assms(1), of a] phones.del_peers [OF assms(1), of a]
    by (simp add: load_from_profiles set_loaded)
qed

theorem pairings_kept_witness:
  "\<exists>ps. load_from full_v6 (snd (save full_v6 7 True True sample_peer [])) = Some ps \<and> set ps = {sample_peer}"
proof -
  have d: "dir_ok full_v6 []" by (simp add: dir_ok_def full_v6_ok)
  have a: "endpoint full_v6 (show_socket full_v6 (address sample_peer)) = Some (address sample_peer)"
    using sample_peer_ok by (simp add: endpoint_show full_v6_ok peer_ok_def)
  show ?thesis
    using pairings_kept [OF d sample_peer_ok a, of 7 True True] by (simp add: save_def profiles_def)
qed

end
