(* ===== verification/Pam_Auth.thy ===== *)
theory Pam_Auth
  imports Registry
begin

unbundle bit_operations_syntax

text \<open>
  The helper of the PAM module (src/src/pam_auth.rs: \<open>run\<close>, \<open>credentials\<close>, \<open>base64\<close>,
  \<open>Device::open\<close>, \<open>Assertion\<close>).  libfido2 is not part of the program: its functions are the fields of
  \<open>fido\<close>, and what the code relies on is stated where it is used.
\<close>

section \<open>Base64\<close>

text \<open>The value of one character; both alphabets are accepted.\<close>

definition base64_digit :: "char \<Rightarrow> u8 option" where
  "base64_digit c =
     (let b = of_char c :: nat in
      if 65 \<le> b \<and> b \<le> 90 then Some (word_of_nat (b - 65))
      else if 97 \<le> b \<and> b \<le> 122 then Some (word_of_nat (b - 97 + 26))
      else if 48 \<le> b \<and> b \<le> 57 then Some (word_of_nat (b - 48 + 52))
      else if c = CHR ''+'' \<or> c = CHR ''-'' then Some 62
      else if c = CHR ''/'' \<or> c = CHR ''_'' then Some 63
      else None)"

text \<open>The loop: \<open>bits\<close> is 32 bits wide and loses what is shifted out.\<close>

definition shift_in_digit :: "u32 \<Rightarrow> u8 \<Rightarrow> u32" where
  "shift_in_digit bits v = push_bit 6 bits OR ucast v"

definition byte_above :: "nat \<Rightarrow> u32 \<Rightarrow> u8" where
  "byte_above count bits = ucast (drop_bit count bits)"

fun base64_loop :: "string \<Rightarrow> u32 \<Rightarrow> nat \<Rightarrow> bytes \<Rightarrow> bytes option" where
  "base64_loop [] bits count out = Some out"
| "base64_loop (c # cs) bits count out =
     (case base64_digit c of
        None \<Rightarrow> None
      | Some v \<Rightarrow>
          let bits1 = shift_in_digit bits v; count1 = count + 6 in
          if count1 \<ge> 8
          then base64_loop cs bits1 (count1 - 8) (out @ [byte_above (count1 - 8) bits1])
          else base64_loop cs bits1 count1 out)"

definition trim_end_matches :: "char \<Rightarrow> string \<Rightarrow> string" where
  "trim_end_matches c s = rev (dropWhile (\<lambda>x. x = c) (rev s))"

definition base64 :: "string \<Rightarrow> bytes option" where
  "base64 text = base64_loop (trim_end_matches CHR ''='' text) 0 0 []"

section \<open>Credentials\<close>

record credential =
  cid :: bytes
  ckey :: bytes
  cverification :: bool

definition entry_credential :: "string \<Rightarrow> credential option" where
  "entry_credential entry =
     (case split_on CHR '','' entry of
        handle # key # kind # opts \<Rightarrow>
          (case base64 handle of
             None \<Rightarrow> None
           | Some i \<Rightarrow>
               (case base64 key of
                  None \<Rightarrow> None
                | Some k \<Rightarrow>
                    if kind \<noteq> ''es256'' \<or> i = [] then None
                    else Some \<lparr>cid = i, ckey = k,
                      cverification = contains ''+verification'' (case opts of [] \<Rightarrow> [] | o1 # _ \<Rightarrow> o1)\<rparr>))
      | _ \<Rightarrow> None)"

definition credentials :: "string \<Rightarrow> string \<Rightarrow> credential list" where
  "credentials authfile user =
     List.map_filter entry_credential
       (concat (map (split_on CHR '':'')
         (List.map_filter
           (\<lambda>line. case strip_prefix user line of None \<Rightarrow> None | Some rest \<Rightarrow> strip_prefix '':'' rest)
           (str_lines authfile))))"

section \<open>The helper\<close>

text \<open>libfido2 as the program uses it: the devices it lists (at most as many as asked for), opening one
  by its path, and one assertion request, with what it holds afterwards.  The calls to the source of
  randomness are counted; \<open>f_allow\<close> sees the handles the request has already; \<open>f_key\<close>: the public
  key could be allocated and read.\<close>

record assertion =
  a_origin :: string
  a_hash :: bytes
  a_allow :: "bytes list"
  a_up :: "bool option"
  a_uv :: "bool option"

record outcome =
  o_count :: nat
  o_id :: "bytes option"

record hid_device =
  hd_vendor :: u16
  hd_product :: u16
  hd_path :: string

record fido =
  f_list :: bool
  f_manifest :: "nat \<Rightarrow> hid_device list option"
  f_new :: bool
  f_open :: "string \<Rightarrow> bool"
  f_random :: "nat \<Rightarrow> bytes"
  f_assert :: "nat \<Rightarrow> bool"
  f_rp :: "string \<Rightarrow> bool"
  f_hash :: "bytes \<Rightarrow> bool"
  f_allow :: "bytes list \<Rightarrow> bytes \<Rightarrow> bool"
  f_get :: "string \<Rightarrow> nat \<Rightarrow> assertion \<Rightarrow> outcome option"
  f_key :: "bytes \<Rightarrow> bool"
  f_verify :: "assertion \<Rightarrow> outcome \<Rightarrow> bytes \<Rightarrow> bool"

datatype auth_error =
    Usage
  | NoAuthfile
  | NoOrigin
  | BadOrigin
  | Unreadable
  | NoKeys
  | OutOfMemory
  | NoDevice
  | NotOpened
  | NoRandomness
  | NotBuilt
  | NotApproved
  | NotVerified
  | PipeClosed

record auth_options =
  authfile :: "string option"
  origin :: "string option"
  verification :: bool

fun auth_option :: "string \<Rightarrow> auth_options \<Rightarrow> auth_options" where
  "auth_option opt o1 =
     (case strip_prefix ''authfile='' opt of
        Some value \<Rightarrow> o1\<lparr>authfile := Some value\<rparr>
      | None \<Rightarrow>
          (case strip_prefix ''origin='' opt of
             Some value \<Rightarrow> o1\<lparr>origin := Some value\<rparr>
           | None \<Rightarrow> if opt = ''userverification=1'' then o1\<lparr>verification := True\<rparr> else o1))"

text \<open>\<open>Device::open\<close>: the path of the first listed device that is the daemon's virtual key.\<close>

definition VENDOR :: u16 where "VENDOR = 0x1209"
definition PRODUCT :: u16 where "PRODUCT = 0x7ab1"
definition MAX_DEVICES :: nat where "MAX_DEVICES = 64"

definition virtual_key :: "hid_device \<Rightarrow> bool" where
  "virtual_key info \<longleftrightarrow> hd_vendor info = VENDOR \<and> hd_product info = PRODUCT"

definition device_open :: "fido \<Rightarrow> auth_error + string" where
  "device_open f =
     (if \<not> f_list f then Inl OutOfMemory
      else
        let path = (case f_manifest f MAX_DEVICES of
            None \<Rightarrow> None
          | Some infos \<Rightarrow> map_option hd_path (List.find virtual_key infos)) in
        case path of None \<Rightarrow> Inl NoDevice | Some p \<Rightarrow>
        if \<not> f_new f then Inl OutOfMemory
        else if \<not> f_open f p then Inl NotOpened
        else Inr p)"

text \<open>\<open>Assertion::new\<close>; \<open>n\<close> counts the requests built.\<close>

fun allow_creds :: "fido \<Rightarrow> credential list \<Rightarrow> bytes list \<Rightarrow> bytes list option" where
  "allow_creds f [] ids = Some ids"
| "allow_creds f (c # cs) ids = (if f_allow f ids (cid c) then allow_creds f cs (ids @ [cid c]) else None)"

definition assertion_new :: "fido \<Rightarrow> nat \<Rightarrow> string \<Rightarrow> credential list \<Rightarrow> auth_error + assertion" where
  "assertion_new f n org creds =
     (let hash = f_random f n in
      if length hash \<noteq> 32 then Inl NoRandomness
      else if \<not> f_assert f n then Inl OutOfMemory
      else if \<not> f_rp f org \<or> \<not> f_hash f hash then Inl NotBuilt
      else case allow_creds f creds [] of
          None \<Rightarrow> Inl NotBuilt
        | Some ids \<Rightarrow> Inr \<lparr>a_origin = org, a_hash = hash, a_allow = ids, a_up = None, a_uv = None\<rparr>)"

definition set_up :: "bool \<Rightarrow> assertion \<Rightarrow> assertion" where
  "set_up value a = a\<lparr>a_up := Some value\<rparr>"

definition set_uv :: "bool \<Rightarrow> assertion \<Rightarrow> assertion" where
  "set_uv value a = a\<lparr>a_uv := Some value\<rparr>"

definition verify :: "fido \<Rightarrow> credential list \<Rightarrow> assertion \<Rightarrow> outcome \<Rightarrow> bool" where
  "verify f creds a got =
     (if o_count got \<noteq> 1 then False
      else case o_id got of
          None \<Rightarrow> False
        | Some i \<Rightarrow>
            (case List.find (\<lambda>c. cid c = i) creds of
               None \<Rightarrow> False
             | Some c \<Rightarrow> f_key f (ckey c) \<and> f_verify f a got (ckey c)))"

text \<open>The request sent first when it can be built, a probe: user presence off.  Its answer is
  dropped.\<close>

definition probe_request :: "fido \<Rightarrow> string \<Rightarrow> credential list \<Rightarrow> assertion list" where
  "probe_request f org creds =
     (case assertion_new f 0 org creds of Inl _ \<Rightarrow> [] | Inr a \<Rightarrow> [set_up False a])"

definition real_request :: "bool \<Rightarrow> assertion \<Rightarrow> assertion" where
  "real_request uv a =
     (let a1 = set_up True a in if uv then set_uv True a1 else a1)"

text \<open>\<open>run\<close>: its result, whether "y" was written, and the requests sent, in order.  \<open>files\<close> gives
  the text of a readable file; \<open>pipe\<close>: the result pipe takes the byte.\<close>

record helper_run =
  h_result :: "auth_error + unit"
  h_approved :: bool
  h_requests :: "assertion list"

definition failed :: "auth_error \<Rightarrow> assertion list \<Rightarrow> helper_run" where
  "failed e requests = \<lparr>h_result = Inl e, h_approved = False, h_requests = requests\<rparr>"

definition run :: "fido \<Rightarrow> (string \<Rightarrow> string option) \<Rightarrow> bool \<Rightarrow> string list \<Rightarrow> helper_run" where
  "run f files pipe args =
     (case args of
        [] \<Rightarrow> failed Usage []
      | user # opts \<Rightarrow>
          let o1 = fold auth_option opts \<lparr>authfile = None, origin = None, verification = False\<rparr> in
          case authfile o1 of None \<Rightarrow> failed NoAuthfile [] | Some file \<Rightarrow>
          case origin o1 of None \<Rightarrow> failed NoOrigin [] | Some org \<Rightarrow>
          if CHR 0x00 \<in> set org then failed BadOrigin []
          else case files file of None \<Rightarrow> failed Unreadable [] | Some text \<Rightarrow>
          let creds = credentials text user in
          if creds = [] then failed NoKeys []
          else
            let uv = verification o1 \<or> list_ex cverification creds in
            case device_open f of Inl e \<Rightarrow> failed e [] | Inr device \<Rightarrow>
              let probe = probe_request f org creds in
              case assertion_new f 1 org creds of Inl e \<Rightarrow> failed e probe | Inr a \<Rightarrow>
              let a1 = real_request uv a; requests = probe @ [a1] in
              case f_get f device 1 a1 of None \<Rightarrow> failed NotApproved requests | Some got \<Rightarrow>
              if \<not> verify f creds a1 got then failed NotVerified requests
              else if \<not> pipe then failed PipeClosed requests
              else \<lparr>h_result = Inr (), h_approved = True, h_requests = requests\<rparr>)"

section \<open>An encoder for comparison\<close>

definition base64_char :: "bool \<Rightarrow> u8 \<Rightarrow> char" where
  "base64_char url v =
     (let n = unat (take_bit 6 v) in
      if n < 26 then char_of (65 + n)
      else if n < 52 then char_of (97 + (n - 26))
      else if n < 62 then char_of (48 + (n - 52))
      else if n = 62 then (if url then CHR ''-'' else CHR ''+'')
      else (if url then CHR ''_'' else CHR ''/''))"

text \<open>The digits of RFC 4648, three bytes to four characters, without and with padding.\<close>

definition digit2 :: "u8 \<Rightarrow> u8 \<Rightarrow> u8" where
  "digit2 a b = push_bit 4 (take_bit 2 a) OR drop_bit 4 b"

definition digit3 :: "u8 \<Rightarrow> u8 \<Rightarrow> u8" where
  "digit3 b c = push_bit 2 (take_bit 4 b) OR drop_bit 6 c"

fun encode_digits :: "bool \<Rightarrow> bytes \<Rightarrow> string" where
  "encode_digits url [] = []"
| "encode_digits url [a] = [base64_char url (drop_bit 2 a), base64_char url (digit2 a 0)]"
| "encode_digits url [a, b] =
     [base64_char url (drop_bit 2 a), base64_char url (digit2 a b), base64_char url (digit3 b 0)]"
| "encode_digits url (a # b # c # bs) =
     base64_char url (drop_bit 2 a) # base64_char url (digit2 a b) # base64_char url (digit3 b c)
       # base64_char url c # encode_digits url bs"

definition base64_encode :: "bool \<Rightarrow> bytes \<Rightarrow> string" where
  "base64_encode url bs = encode_digits url bs @ replicate ((3 - length bs mod 3) mod 3) CHR ''=''"

lemma take_bit_6_less: "unat (take_bit 6 (v :: u8)) < 64"
proof -
  have "unat (take_bit 6 v) = take_bit 6 (unat v)"
    by (rule unsigned_take_bit_eq)
  also have "\<dots> < 2 ^ 6"
    by (rule take_bit_nat_less_exp)
  finally show ?thesis by simp
qed

lemma base64_digit_char: "base64_digit (base64_char url v) = Some (take_bit 6 v)"
proof -
  define n where "n = unat (take_bit 6 v)"
  have v: "take_bit 6 v = word_of_nat n" and n: "n < 64"
    using take_bit_6_less [of v] by (simp_all add: n_def)
  consider "n < 26" | "26 \<le> n" "n < 52" | k where "n = 52 + k" "k < 10" | "n = 62" | "n = 63"
  proof (cases "52 \<le> n \<and> n < 62")
    case True
    then have "n = 52 + (n - 52)" "n - 52 < 10" by auto
    then show ?thesis using that(3) by blast
  qed (use n that in linarith)
  then have "base64_digit (base64_char url v) = Some (word_of_nat n)"
    unfolding base64_char_def n_def [symmetric] Let_def
    by cases (simp_all add: base64_digit_def Let_def)
  then show ?thesis by (simp only: v)
qed

lemma u8_eqI:
  assumes "bit x 0 = bit y 0" and "bit x 1 = bit y 1" and "bit x 2 = bit y 2" and "bit x 3 = bit y 3"
    and "bit x 4 = bit y 4" and "bit x 5 = bit y 5" and "bit x 6 = bit y 6" and "bit x 7 = bit y 7"
  shows "x = (y :: u8)"
proof (rule bit_word_eqI)
  fix n
  assume "n < LENGTH(8)"
  then consider "n = 0" | "n = 1" | "n = 2" | "n = 3" | "n = 4" | "n = 5" | "n = 6" | "n = 7"
    by fastforce
  then show "bit x n = bit y n"
    using assms by cases simp_all
qed

lemma u8_no_bit: "8 \<le> n \<Longrightarrow> \<not> bit (b :: u8) n"
  using bit_imp_le_length [of b n] by auto

lemmas byte_defs = byte_above_def shift_in_digit_def digit2_def digit3_def

lemma three_bytes:
  "byte_above 4 (shift_in_digit (shift_in_digit bits (take_bit 6 (drop_bit 2 a))) (take_bit 6 (digit2 a b))) = a"
  "byte_above 2 (shift_in_digit (shift_in_digit bits (take_bit 6 (digit2 a b))) (take_bit 6 (digit3 b c))) = b"
  "byte_above 0 (shift_in_digit (shift_in_digit bits (take_bit 6 (digit3 b c))) (take_bit 6 c)) = c"
  by (rule u8_eqI; simp add: byte_defs bit_simps u8_no_bit)+

lemma encode_loop:
  "base64_loop (encode_digits url bs) bits 0 out = Some (out @ bs)"
proof (induction url bs arbitrary: bits out rule: encode_digits.induct)
  case (4 url a b c bs)
  show ?case
    using "4.IH" by (simp add: base64_digit_char Let_def three_bytes)
qed (simp_all add: base64_digit_char Let_def three_bytes)

lemma char_not_special:
  "base64_char url v \<notin> {CHR ''='', CHR '','', CHR '':'', TAB, NL, CR}"
proof -
  have "\<forall>c\<in>{CHR ''='', CHR '','', CHR '':'', TAB, NL, CR}. base64_digit c = None"
    by (simp add: base64_digit_def)
  then show ?thesis
    by (metis base64_digit_char option.distinct(1))
qed

lemma encode_digits_chars: "c \<in> set (encode_digits url bs) \<Longrightarrow> \<exists>v. c = base64_char url v"
  by (induction url bs rule: encode_digits.induct) auto

lemma encode_chars:
  assumes "c \<in> set (base64_encode url bs)"
  shows "c \<notin> {CHR '','', CHR '':'', TAB, NL, CR}"
proof -
  have "c \<in> set (encode_digits url bs) \<or> c = CHR ''=''"
    using assms by (auto simp: base64_encode_def)
  then show ?thesis
    using char_not_special encode_digits_chars by fastforce
qed

lemma trim_padding:
  assumes "CHR ''='' \<notin> set s"
  shows "trim_end_matches CHR ''='' (s @ replicate n CHR ''='') = s"
proof -
  have "dropWhile (\<lambda>x. x = CHR ''='') (rev s) = rev s"
    using assms by (intro dropWhile_id) auto
  then show ?thesis
    by (simp add: trim_end_matches_def dropWhile_append)
qed

lemma base64_padded: "base64 (encode_digits url bs @ replicate n CHR ''='') = Some bs"
proof -
  have "CHR ''='' \<notin> set (encode_digits url bs)"
    using encode_digits_chars char_not_special by fastforce
  then show ?thesis
    by (simp add: base64_def trim_padding encode_loop)
qed

section \<open>The keys of a user\<close>

text \<open>An entry as pamu2fcfg prints it.\<close>

definition entry_text :: "bytes \<Rightarrow> bytes \<Rightarrow> string \<Rightarrow> string" where
  "entry_text i k flags = base64_encode False i @ CHR '','' # base64_encode False k @ '',es256,'' @ flags"

lemma entry_credential_text:
  assumes "i \<noteq> []" and "CHR '','' \<notin> set flags"
  shows "entry_credential (entry_text i k flags)
    = Some \<lparr>cid = i, ckey = k, cverification = contains ''+verification'' flags\<rparr>"
proof -
  have e: "CHR '','' \<notin> set (base64_encode False x)" for x
    using encode_chars by fastforce
  have "split_on CHR '','' (entry_text i k flags)
      = [base64_encode False i, base64_encode False k, ''es256'', flags]"
    using e assms(2) split_on_append [of "CHR '',''" "''es256''" flags]
    by (simp add: entry_text_def split_on_append split_on_single)
  then show ?thesis
    using assms(1) base64_padded [of False i] base64_padded [of False k]
    by (simp add: entry_credential_def base64_encode_def)
qed

lemma entry_text_ok:
  assumes "CHR '':'' \<notin> set flags" and "TAB \<notin> set flags" and "NL \<notin> set flags" and "CR \<notin> set flags"
  shows "entry_ok (entry_text i k flags)"
  using assms encode_chars [of _ False i] encode_chars [of _ False k]
  by (auto simp: entry_ok_def entry_text_def clean_line_def)

lemma map_filter_rest_none:
  "find_map (rest_of u) ls = None \<Longrightarrow> List.map_filter (rest_of u) ls = []"
  by (induction ls) (auto simp: List.map_filter_def split: option.splits)

lemma map_filter_rest:
  assumes "one_line_each ls" and "CHR '':'' \<notin> set u"
  shows "List.map_filter (rest_of u) ls = (case find_map (rest_of u) ls of None \<Rightarrow> [] | Some rest \<Rightarrow> [rest])"
  using assms(1)
proof (induction ls)
  case (Cons l ls)
  have tail: "one_line_each ls"
    using Cons.prems unfolding one_line_each_def by (auto split: if_splits)
  show ?case
  proof (cases "rest_of u l")
    case None
    with Cons.IH [OF tail] show ?thesis by (simp add: List.map_filter_def)
  next
    case (Some r)
    then have "filter (starts_with (u @ '':'')) ls = []"
      using Cons.prems assms(2) by (auto simp: one_line_each_def starts_with_strip)
    then have "find_map (rest_of u) ls = None"
      by (auto simp: find_map_None filter_empty_conv starts_with_strip)
    with Some map_filter_rest_none [of u ls] show ?thesis by (simp add: List.map_filter_def)
  qed
qed (simp add: List.map_filter_def)

lemma credentials_entries:
  assumes "registry_ok reg" and "user_ok user"
  shows "credentials (read_optional (keys_file reg)) user = List.map_filter entry_credential (entries user reg)"
proof -
  have "List.map_filter (rest_of user) (key_lines reg)
      = (case find_map (rest_of user) (key_lines reg) of None \<Rightarrow> [] | Some rest \<Rightarrow> [rest])"
    using assms by (intro map_filter_rest) (simp_all add: registry_ok_def user_ok_def)
  then show ?thesis
    by (simp add: credentials_def strip_two key_lines_def [symmetric] entries_def split: option.splits)
qed

lemma map_filter_append: "List.map_filter f (xs @ ys) = List.map_filter f xs @ List.map_filter f ys"
  by (simp add: List.map_filter_def)

text \<open>What a request asks for, in terms of the keys it may be answered with.\<close>

lemma allow_creds_Some: "allow_creds f creds ids = Some ids' \<Longrightarrow> ids' = ids @ map cid creds"
  by (induction creds arbitrary: ids) (fastforce split: if_splits)+

lemma assertion_new_Inr:
  "assertion_new f n org creds = Inr a \<Longrightarrow> a_origin a = org \<and> a_allow a = map cid creds
     \<and> a_hash a = f_random f n \<and> length (a_hash a) = 32"
  by (auto simp: assertion_new_def Let_def dest: allow_creds_Some split: option.splits if_splits)

text \<open>The device that is opened is the first of the virtual keys.\<close>

lemma find_first:
  "List.find P xs = Some x \<Longrightarrow> \<exists>us vs. xs = us @ x # vs \<and> P x \<and> list_all (\<lambda>u. \<not> P u) us"
proof (induction xs)
  case (Cons y ys)
  show ?case
  proof (cases "P y")
    case True
    then have "y # ys = [] @ x # ys \<and> P x \<and> list_all (\<lambda>u. \<not> P u) []" using Cons.prems by simp
    then show ?thesis by blast
  next
    case False
    with Cons obtain us vs where "ys = us @ x # vs \<and> P x \<and> list_all (\<lambda>u. \<not> P u) us" by auto
    with False have "y # ys = (y # us) @ x # vs \<and> P x \<and> list_all (\<lambda>u. \<not> P u) (y # us)" by simp
    then show ?thesis by blast
  qed
qed simp

lemma device_open_Inr:
  assumes "device_open f = Inr path"
  obtains us info vs where "f_manifest f MAX_DEVICES = Some (us @ info # vs)" "virtual_key info"
    "list_all (\<lambda>u. \<not> virtual_key u) us" "path = hd_path info" "f_open f path"
  using assms find_first [of virtual_key]
  by (fastforce simp: device_open_def Let_def split: option.splits if_splits)

lemmas set_flags_defs = set_up_def set_uv_def

lemma real_request_fields [simp]:
  "a_up (real_request uv a) = Some True" "a_uv (real_request uv a) = (if uv then Some True else a_uv a)"
  "a_allow (real_request uv a) = a_allow a" "a_origin (real_request uv a) = a_origin a"
  "a_hash (real_request uv a) = a_hash a"
  by (simp_all add: real_request_def set_flags_defs Let_def)

lemma verify_found:
  "verify f creds a got \<Longrightarrow> \<exists>c\<in>set creds. o_count got = 1 \<and> o_id got = Some (cid c) \<and> f_key f (ckey c)
     \<and> f_verify f a got (ckey c)"
  by (auto simp: verify_def split: if_splits option.splits dest!: find_Some_in)

abbreviation (input) no_options :: auth_options where
  "no_options \<equiv> \<lparr>authfile = None, origin = None, verification = False\<rparr>"

lemma run_approved:
  assumes "h_approved (run f files pipe (user # opts))"
  obtains path org content device a got where
    "authfile (fold auth_option opts no_options) = Some path" "origin (fold auth_option opts no_options) = Some org"
    "files path = Some content" "credentials content user \<noteq> []"
    "device_open f = Inr device" "assertion_new f 1 org (credentials content user) = Inr a"
    "f_get f device 1 (real_request (verification (fold auth_option opts no_options)
        \<or> list_ex cverification (credentials content user)) a) = Some got"
    "verify f (credentials content user) (real_request (verification (fold auth_option opts no_options)
        \<or> list_ex cverification (credentials content user)) a) got"
    "run f files pipe (user # opts) = \<lparr>h_result = Inr (), h_approved = True,
       h_requests = probe_request f org (credentials content user) @
         [real_request (verification (fold auth_option opts no_options)
           \<or> list_ex cverification (credentials content user)) a]\<rparr>"
  using assms unfolding run_def Let_def failed_def
  by (simp split: option.splits sum.splits if_splits)

section \<open>A library for the concrete runs\<close>

definition sample_devices :: "hid_device list" where
  "sample_devices = [\<lparr>hd_vendor = 0x1050, hd_product = 0x0407, hd_path = ''/dev/hidraw0''\<rparr>,
     \<lparr>hd_vendor = 0x1209, hd_product = 0x7ab1, hd_path = ''/dev/hidraw3''\<rparr>]"

definition sample_fido :: fido where
  "sample_fido = \<lparr>f_list = True, f_manifest = (\<lambda>n. Some (take n sample_devices)), f_new = True,
     f_open = (\<lambda>_. True), f_random = (\<lambda>n. replicate 32 (word_of_nat n)), f_assert = (\<lambda>_. True), f_rp = (\<lambda>_. True),
     f_hash = (\<lambda>_. True), f_allow = (\<lambda>_ _. True),
     f_get = (\<lambda>path n a. if path = ''/dev/hidraw3'' \<and> a_up a = Some True
       then Some \<lparr>o_count = 1, o_id = Some [0x69, 0x64, 0x31]\<rparr> else None),
     f_key = (\<lambda>k. k = [0x6b, 0x65, 0x79, 0x31, 0x31]), f_verify = (\<lambda>a got k. a_hash a = replicate 32 1)\<rparr>"

section \<open>Properties\<close>

text \<open>The decoder gives back every byte string from its base64 content, of both alphabets, with padding
  or without; the 32-bit accumulator, which loses its high bits, never shows in the result.\<close>

theorem base64_reads_encoding:
  "base64 (base64_encode url bs) = Some bs \<and> base64 (encode_digits url bs) = Some bs"
  using base64_padded [of url bs 0] by (simp add: base64_encode_def base64_padded)

text \<open>C27: the key a user registers is the key the helper uses: after registration the user's keys are the
  old ones and exactly the new one, decoded, with its verification flag; other users' keys are as
  before; after removal of its handle they are those of the remaining entries.\<close>

theorem registered_key_used:
  assumes "registry_ok reg" and "user_ok user" and "name_ok name" and "i \<noteq> []"
    and "CHR '','' \<notin> set flags" and "CHR '':'' \<notin> set flags" and "TAB \<notin> set flags"
    and "NL \<notin> set flags" and "CR \<notin> set flags"
  shows "let reg' = stored name user (entry_text i k flags) reg in
    credentials (read_optional (keys_file reg')) user = credentials (read_optional (keys_file reg)) user
      @ [\<lparr>cid = i, ckey = k, cverification = contains ''+verification'' flags\<rparr>]
    \<and> (\<forall>other. user_ok other \<and> other \<noteq> user \<longrightarrow>
        credentials (read_optional (keys_file reg')) other = credentials (read_optional (keys_file reg)) other)
    \<and> credentials (read_optional (keys_file (removed user handle reg'))) user
      = List.map_filter entry_credential (filter (\<lambda>e. first_field CHR '','' e \<noteq> handle)
          (entries user reg @ [entry_text i k flags]))"
proof -
  let ?e = "entry_text i k flags"
  let ?reg = "stored name user ?e reg"
  have e: "entry_ok ?e"
    using assms by (intro entry_text_ok)
  have ok: "registry_ok ?reg"
    using assms e by (intro stored_ok)
  have own: "entries user ?reg = entries user reg @ [?e]"
    using assms e by (intro entries_stored_own)
  have "List.map_filter entry_credential [?e] = [\<lparr>cid = i, ckey = k, cverification = contains ''+verification'' flags\<rparr>]"
    using assms by (simp add: List.map_filter_def entry_credential_text)
  then show ?thesis
    using own ok assms(1,2) entries_stored_other [OF assms(1,2) e assms(3)]
    by (simp add: Let_def credentials_entries removed_ok entries_removed_own map_filter_append)
qed

theorem registered_key_used_witness:
  "credentials (read_optional (keys_file (stored ''Pixel'' ''me'' (entry_text [1] [2, 3] ''+presence'') no_keys))) ''me''
    = [\<lparr>cid = [1], ckey = [2, 3], cverification = False\<rparr>]"
proof -
  have "credentials (read_optional (keys_file no_keys)) ''me'' = []"
    by (simp add: credentials_def read_optional_def no_keys_def List.map_filter_def)
  moreover have "\<not> contains ''+verification'' ''+presence''"
    by code_simp
  ultimately show ?thesis
    using registered_key_used [OF no_keys_ok sample_ok(1,3), of "[1]" "''+presence''" "[2, 3]" "[]"]
    by (simp add: Let_def)
qed

text \<open>C4: the helper approves only what was signed: it writes "y" only after the daemon's virtual key,
  the first device listed with its vendor and product and no other security key, answered one
  request, the second, which has a fresh 32-byte challenge, demands user presence (and verification
  when an option or any key of the user asks for it) and allows exactly the user's registered keys,
  with one assertion that names one of these keys and that verifies under that key for this request.\<close>

theorem approval_needs_signature:
  assumes "h_approved (run f files pipe (user # opts))"
  shows "\<exists>path content org us info vs a got. files path = Some content
    \<and> authfile (fold auth_option opts no_options) = Some path \<and> origin (fold auth_option opts no_options) = Some org
    \<and> f_manifest f MAX_DEVICES = Some (us @ info # vs) \<and> hd_vendor info = VENDOR \<and> hd_product info = PRODUCT
    \<and> list_all (\<lambda>u. \<not> (hd_vendor u = VENDOR \<and> hd_product u = PRODUCT)) us
    \<and> h_requests (run f files pipe (user # opts)) = probe_request f org (credentials content user) @ [a]
    \<and> a_up a = Some True \<and> a_origin a = org \<and> a_allow a = map cid (credentials content user)
    \<and> a_hash a = f_random f 1 \<and> length (a_hash a) = 32
    \<and> (verification (fold auth_option opts no_options) \<or> list_ex cverification (credentials content user)
        \<longrightarrow> a_uv a = Some True)
    \<and> f_get f (hd_path info) 1 a = Some got \<and> o_count got = 1
    \<and> (\<exists>c\<in>set (credentials content user). o_id got = Some (cid c) \<and> f_verify f a got (ckey c))"
  using assms
proof (rule run_approved)
  fix path org content device a got
  let ?creds = "credentials content user"
  let ?a = "real_request (verification (fold auth_option opts no_options) \<or> list_ex cverification ?creds) a"
  assume r: "authfile (fold auth_option opts no_options) = Some path"
    "origin (fold auth_option opts no_options) = Some org" "files path = Some content"
    "device_open f = Inr device" "assertion_new f 1 org ?creds = Inr a" "f_get f device 1 ?a = Some got"
    "verify f ?creds ?a got"
    "run f files pipe (user # opts) = \<lparr>h_result = Inr (), h_approved = True,
       h_requests = probe_request f org ?creds @ [?a]\<rparr>"
  from r(4) obtain us info vs where d: "f_manifest f MAX_DEVICES = Some (us @ info # vs)" "virtual_key info"
    "list_all (\<lambda>u. \<not> virtual_key u) us" "device = hd_path info"
    by (rule device_open_Inr)
  from verify_found [OF r(7)]
  have v: "o_count got = 1" "\<exists>c\<in>set ?creds. o_id got = Some (cid c) \<and> f_verify f ?a got (ckey c)"
    by blast+
  have a: "a_origin ?a = org" "a_allow ?a = map cid ?creds" "a_hash ?a = f_random f 1" "length (a_hash ?a) = 32"
    using assertion_new_Inr [OF r(5)] by auto
  show ?thesis
    by (intro exI [of _ path] exI [of _ content] exI [of _ org] exI [of _ us] exI [of _ info] exI [of _ vs]
        exI [of _ ?a] exI [of _ got] conjI impI r(1-3) a v d(1,3) [unfolded virtual_key_def]
        d(2) [unfolded virtual_key_def, THEN conjunct1] d(2) [unfolded virtual_key_def, THEN conjunct2]
        r(6) [unfolded d(4)]) (simp_all add: r(8))
qed

theorem approval_needs_signature_witness:
  "h_approved (run sample_fido (\<lambda>_. Some ''me:aWQx,a2V5MTE=,es256,+presence'') True
      [''me'', ''authfile=/etc/passkey/keys'', ''origin=pam://host''])
    \<and> (\<exists>path. authfile (fold auth_option [''authfile=/etc/passkey/keys'', ''origin=pam://host''] no_options) = Some path)"
proof -
  have "h_approved (run sample_fido (\<lambda>_. Some ''me:aWQx,a2V5MTE=,es256,+presence'') True
      [''me'', ''authfile=/etc/passkey/keys'', ''origin=pam://host''])"
    by code_simp
  from this approval_needs_signature [OF this] show ?thesis by blast
qed

end
