(* ===== verification/Pam_Module.thy ===== *)
theory Pam_Module
  imports Pam_Auth Pam_Stack
begin

text \<open>
  The PAM module (src/pam/src/lib.rs: \<open>authenticate\<close>, \<open>Ask\<close>, \<open>device_present\<close>).  libpam, the prompt
  and the processes are outside: what they answer is in \<open>module_env\<close> and, for each pass of the
  loop, in \<open>module_tick\<close>; one pass reads the clock once.  Times are in milliseconds.  What the module
  does to the outside is its log.
\<close>

section \<open>Constants and arguments\<close>

definition PAM_SUCCESS :: int where "PAM_SUCCESS = 0"
definition PAM_IGNORE :: int where "PAM_IGNORE = 25"
definition PAM_CONV_ERR :: int where "PAM_CONV_ERR = 19"
definition MAX_ARGS :: nat where "MAX_ARGS = 32"
definition ASK_PARALLEL :: nat where "ASK_PARALLEL = 600000"
definition ASK_ON_EMPTY :: nat where "ASK_ON_EMPTY = 45000"

record module_args =
  on_empty :: bool
  helper :: string
  keys_path :: "string option"
  options :: "string list"

definition module_arg :: "string \<Rightarrow> module_args \<Rightarrow> module_args" where
  "module_arg arg a =
     (if arg = ''mode=on-empty'' then a\<lparr>on_empty := True\<rparr>
      else if arg = ''mode=parallel'' then a
      else if starts_with ''helper='' arg then a\<lparr>helper := drop 7 arg\<rparr>
      else
        let a1 = (case strip_prefix ''authfile='' arg of Some path \<Rightarrow> a\<lparr>keys_path := Some path\<rparr> | None \<Rightarrow> a)
        in a1\<lparr>options := options a1 @ [arg]\<rparr>)"

definition read_args :: "string \<Rightarrow> string list \<Rightarrow> module_args" where
  "read_args default_helper argv =
     fold module_arg (take MAX_ARGS argv)
       \<lparr>on_empty = False, helper = default_helper, keys_path = None, options = []\<rparr>"

section \<open>The outside\<close>

text \<open>\<open>answered\<close> is what the one prompt ends with: its status and the text, if any; \<open>uevents\<close> are the
  readable uevent files of the hidraw devices; \<open>has_thread\<close>: the system gives the module a thread for
  the prompt.\<close>

record module_env =
  default_helper :: string
  pam_user :: "string option"
  uevents :: "string list"
  texts :: "string \<Rightarrow> string option"
  access_x :: "string \<Rightarrow> bool"
  has_thread :: bool
  first_spawn :: bool
  began :: nat
  answered :: "int \<times> string option"

text \<open>\<open>closes\<close>: the prompt ends within a second of the newline; \<open>tty\<close>: the terminal, if it can be opened,
  with its local flags, if they can be read.\<close>

record module_tick =
  arrived :: bool
  stored :: int
  spawned :: bool
  ready :: bool
  got :: "bytes option"
  closes :: bool
  tty :: "u32 option option"
  instant :: nat

definition device_present :: "string list \<Rightarrow> bool" where
  "device_present us = list_ex (\<lambda>t. list_ex (\<lambda>line. line = ''HID_ID=0003:00001209:00007AB1'') (str_lines t)) us"

definition is_executable :: "module_env \<Rightarrow> string \<Rightarrow> bool" where
  "is_executable e path \<longleftrightarrow> CHR 0x00 \<notin> set path \<and> access_x e path"

definition ECHO :: u32 where "ECHO = 8"

text \<open>\<open>end_tty_prompt\<close>: whether a newline is put into the terminal, for a prompt that does not echo.\<close>

definition end_tty_prompt :: "u32 option option \<Rightarrow> bool" where
  "end_tty_prompt t =
     (case t of
        None \<Rightarrow> False
      | Some flags \<Rightarrow> (case flags of None \<Rightarrow> False | Some lflag \<Rightarrow> lflag AND ECHO = 0))"

text \<open>\<open>Ask::answer\<close>: nothing yet, an error, or whether the one byte read is "y".\<close>

definition ask_answer :: "module_tick \<Rightarrow> unit + bool option" where
  "ask_answer t =
     (if \<not> ready t then Inr None
      else case got t of None \<Rightarrow> Inl () | Some bs \<Rightarrow> Inr (Some (bs = [0x79])))"

datatype module_event =
    Started "string list"
  | Stopped
  | Info
  | SetItem string
  | EndPrompt bool
  | Wiped

section \<open>The loop\<close>

record asking =
  ask :: "nat option"
  tries :: nat
  prompting :: bool
  log :: "module_event list"

definition note_event :: "module_event \<Rightarrow> asking \<Rightarrow> asking" where
  "note_event ev s = s\<lparr>log := log s @ [ev]\<rparr>"

text \<open>\<open>wipe\<close>: the prompt's text, if there is one, is overwritten and given back.\<close>

definition wipe :: "string option \<Rightarrow> asking \<Rightarrow> asking" where
  "wipe x s = (case x of None \<Rightarrow> s | Some _ \<Rightarrow> note_event Wiped s)"

text \<open>\<open>Ask::stop\<close>, when the value is dropped.\<close>

definition drop_ask :: "asking \<Rightarrow> asking" where
  "drop_ask s = (case ask s of None \<Rightarrow> s | Some _ \<Rightarrow> note_event Stopped (s\<lparr>ask := None\<rparr>))"

definition start_ask :: "string list \<Rightarrow> bool \<Rightarrow> nat \<Rightarrow> nat \<Rightarrow> asking \<Rightarrow> asking" where
  "start_ask command ok timeout now s =
     (if ok then note_event (Started command) (s\<lparr>ask := Some (now + timeout), tries := tries s + 1\<rparr>) else s)"

text \<open>The first half of a pass: the prompt's answer.  \<open>Some\<close> a result ends the loop.\<close>

definition on_prompt ::
    "string list \<Rightarrow> bool \<Rightarrow> nat \<Rightarrow> int \<times> string option \<Rightarrow> module_tick \<Rightarrow> asking \<Rightarrow> int option \<times> asking" where
  "on_prompt command at_once timeout answer t s =
     (if \<not> (prompting s \<and> (arrived t \<or> at_once)) then (None, s)
      else
        let s1 = s\<lparr>prompting := False\<rparr>; (status, reply) = answer in
        case reply of
          None \<Rightarrow> (Some (if status = PAM_SUCCESS then PAM_CONV_ERR else status), wipe reply s1)
        | Some typed \<Rightarrow>
            if status \<noteq> PAM_SUCCESS then (Some status, wipe reply s1)
            else if typed \<noteq> [] then
              (Some (if stored t = PAM_SUCCESS then PAM_IGNORE else stored t), wipe reply (note_event (SetItem typed) s1))
            else
              let s1 = wipe reply s1;
                  s2 = (if ask s1 = None \<and> tries s1 < 3
                        then start_ask command (spawned t) timeout (instant t) (note_event Info s1) else s1)
              in (if ask s2 = None then Some PAM_IGNORE else None, s2))"

text \<open>The second half: the helper's answer.\<close>

definition on_helper :: "int \<times> string option \<Rightarrow> module_tick \<Rightarrow> asking \<Rightarrow> int option \<times> asking" where
  "on_helper answer t s =
     (case ask s of
        None \<Rightarrow> (if \<not> prompting s then Some PAM_IGNORE else None, s)
      | Some deadline \<Rightarrow>
          (case ask_answer t of
             Inr (Some approved) \<Rightarrow>
               let s1 = drop_ask s in
               if approved then
                 (Some PAM_SUCCESS,
                  if prompting s then
                    let s2 = note_event (EndPrompt (end_tty_prompt (tty t))) s1 in if closes t then wipe (snd answer) s2 else s2
                  else s1)
               else (if \<not> prompting s then Some PAM_IGNORE else None, s1)
           | Inr None \<Rightarrow>
               if instant t \<ge> deadline then (if \<not> prompting s then Some PAM_IGNORE else None, drop_ask s)
               else (None, s)
           | Inl _ \<Rightarrow> (None, drop_ask s)))"

definition pass ::
    "string list \<Rightarrow> bool \<Rightarrow> nat \<Rightarrow> int \<times> string option \<Rightarrow> module_tick \<Rightarrow> asking \<Rightarrow> int option \<times> asking" where
  "pass command at_once timeout answer t s =
     (case on_prompt command at_once timeout answer t s of
        (Some r, s1) \<Rightarrow> (Some r, s1)
      | (None, s1) \<Rightarrow> on_helper answer t s1)"

text \<open>The loop over the passes that happen, with what is dropped after it; \<open>None\<close> when they do not
  end it.\<close>

fun module_loop ::
    "string list \<Rightarrow> bool \<Rightarrow> nat \<Rightarrow> int \<times> string option \<Rightarrow> module_tick list \<Rightarrow> asking
      \<Rightarrow> (int \<times> module_event list) option" where
  "module_loop command at_once timeout answer [] s = None"
| "module_loop command at_once timeout answer (t # ts) s =
     (case pass command at_once timeout answer t s of
        (Some r, s1) \<Rightarrow> Some (r, log (drop_ask s1))
      | (None, s1) \<Rightarrow> module_loop command at_once timeout answer ts s1)"

definition ask_start :: "string list \<Rightarrow> bool \<Rightarrow> nat \<Rightarrow> module_env \<Rightarrow> asking" where
  "ask_start command at_once timeout e =
     start_ask command (\<not> at_once \<and> first_spawn e) timeout (began e)
       \<lparr>ask = None, tries = 0, prompting = True, log = []\<rparr>"

definition authenticate ::
    "module_env \<Rightarrow> string list \<Rightarrow> module_tick list \<Rightarrow> (int \<times> module_event list) option" where
  "authenticate e argv ts =
     (let a = read_args (default_helper e) argv in
      case keys_path a of None \<Rightarrow> Some (PAM_IGNORE, []) | Some path \<Rightarrow>
      case pam_user e of None \<Rightarrow> Some (PAM_IGNORE, []) | Some user \<Rightarrow>
      if \<not> device_present (uevents e) \<or> \<not> user_registered user (texts e path) \<or> \<not> is_executable e (helper a)
      then Some (PAM_IGNORE, [])
      else
        let timeout = (if on_empty a then ASK_ON_EMPTY else ASK_PARALLEL);
            command = helper a # ''pam-auth'' # user # options a;
            s = ask_start command (on_empty a) timeout e
        in if \<not> on_empty a \<and> \<not> has_thread e then Some (PAM_IGNORE, log (drop_ask s))
           else module_loop command (on_empty a) timeout (answered e) ts s)"

text \<open>\<open>pam_sm_authenticate\<close> with its pointers: \<open>handle\<close> is not null, \<open>argv\<close> is \<open>None\<close> when it is.  A thread that
  is refused panics; the unwinding drops the helper and \<open>PAM_IGNORE\<close> is returned.\<close>

definition c_args :: "int \<Rightarrow> string list option \<Rightarrow> string list" where
  "c_args argc argv = (case argv of None \<Rightarrow> [] | Some words \<Rightarrow> take (nat argc) words)"

definition pam_sm_authenticate ::
    "bool \<Rightarrow> int \<Rightarrow> string list option \<Rightarrow> module_env \<Rightarrow> module_tick list \<Rightarrow> (int \<times> module_event list) option" where
  "pam_sm_authenticate handle argc argv e ts =
     (if \<not> handle \<or> argc < 0 \<or> argc > 0 \<and> argv = None then Some (PAM_IGNORE, [])
      else authenticate e (c_args argc argv) ts)"

section \<open>What holds in every pass\<close>

lemma module_loop_invariant:
  assumes run: "module_loop command at_once timeout answer ts s = Some (r, l)" and "good s"
    and step: "\<And>t s s1. t \<in> set ts \<Longrightarrow> good s \<Longrightarrow> pass command at_once timeout answer t s = (None, s1) \<Longrightarrow> good s1"
  obtains t s1 s2 where "t \<in> set ts" "good s1" "pass command at_once timeout answer t s1 = (Some r, s2)"
    "l = log (drop_ask s2)"
proof -
  have "\<exists>t\<in>set us. \<exists>s1 s2. good s1 \<and> pass command at_once timeout answer t s1 = (Some r, s2) \<and> l = log (drop_ask s2)"
    if "set us \<subseteq> set ts" "good s" "module_loop command at_once timeout answer us s = Some (r, l)" for us s
    using that
  proof (induction us arbitrary: s)
    case (Cons t us)
    obtain result s1 where p: "pass command at_once timeout answer t s = (result, s1)" by fastforce
    show ?case
    proof (cases result)
      case None
      then have "good s1" using step [of t s s1] p Cons.prems by simp
      then show ?thesis using Cons.IH [of s1] Cons.prems None p by simp
    next
      case (Some q)
      then have "q = r" "l = log (drop_ask s1)" using p Cons.prems(3) by simp_all
      then show ?thesis using Some p Cons.prems(2) by auto
    qed
  qed simp
  from this [OF subset_refl \<open>good s\<close> run] show ?thesis using that by blast
qed

definition starts :: "module_event list \<Rightarrow> string list list" where
  "starts l = List.map_filter (\<lambda>ev. case ev of Started command \<Rightarrow> Some command | _ \<Rightarrow> None) l"

definition typed_texts :: "module_event list \<Rightarrow> string list" where
  "typed_texts l = List.map_filter (\<lambda>ev. case ev of SetItem text \<Rightarrow> Some text | _ \<Rightarrow> None) l"

lemma starts_simps [simp]:
  "starts [] = []" "starts (a @ b) = starts a @ starts b" "starts (Started c # l) = c # starts l"
  "starts (Stopped # l) = starts l" "starts (Info # l) = starts l" "starts (SetItem x # l) = starts l"
  "starts (EndPrompt nl # l) = starts l" "starts (Wiped # l) = starts l"
  by (simp_all add: starts_def List.map_filter_def)

lemma typed_texts_simps [simp]:
  "typed_texts [] = []" "typed_texts (a @ b) = typed_texts a @ typed_texts b"
  "typed_texts (SetItem x # l) = x # typed_texts l"
  "typed_texts (Started c # l) = typed_texts l" "typed_texts (Stopped # l) = typed_texts l"
  "typed_texts (Info # l) = typed_texts l" "typed_texts (EndPrompt nl # l) = typed_texts l"
  "typed_texts (Wiped # l) = typed_texts l"
  by (simp_all add: typed_texts_def List.map_filter_def)

text \<open>Helpers run one at a time: \<open>running l b\<close> reads the log and keeps whether one runs; it is \<open>None\<close>
  when a second one is started or one is stopped that does not run.\<close>

fun running :: "module_event list \<Rightarrow> bool \<Rightarrow> bool option" where
  "running [] b = Some b"
| "running (Started c # l) b = (if b then None else running l True)"
| "running (Stopped # l) b = (if b then running l False else None)"
| "running (ev # l) b = running l b"

lemma running_append: "running (a @ c) b = (case running a b of None \<Rightarrow> None | Some b1 \<Rightarrow> running c b1)"
  by (induction a b rule: running.induct) simp_all

definition ask_inv :: "string list \<Rightarrow> string list \<Rightarrow> asking \<Rightarrow> bool" where
  "ask_inv command typed s \<longleftrightarrow>
     running (log s) False = Some (ask s \<noteq> None) \<and> (ask s \<noteq> None \<longrightarrow> tries s \<noteq> 0)
     \<and> starts (log s) = replicate (tries s) command \<and> tries s \<le> (if prompting s then 1 else 2)
     \<and> typed_texts (log s) = typed"

lemma replicate_Suc_append: "replicate n x @ [x] = replicate (Suc n) x"
  by (induction n) simp_all

lemma ask_inv_drop: "ask_inv command typed s \<Longrightarrow> ask_inv command typed (drop_ask s)"
  by (auto simp: ask_inv_def drop_ask_def note_event_def running_append split: option.split)

lemma ask_inv_note:
  "ask_inv command typed s \<Longrightarrow> ev \<in> {Info, Wiped} \<union> range EndPrompt \<Longrightarrow> ask_inv command typed (note_event ev s)"
  by (auto simp: ask_inv_def note_event_def running_append)

lemma ask_inv_wipe: "ask_inv command typed s \<Longrightarrow> ask_inv command typed (wipe x s)"
  by (simp add: wipe_def ask_inv_note split: option.split)

lemma wipe_fields [simp]: "prompting (wipe x s) = prompting s" "ask (wipe x s) = ask s" "tries (wipe x s) = tries s"
  by (simp_all add: wipe_def note_event_def split: option.splits)

lemma ask_inv_answered: "ask_inv command [] s \<Longrightarrow> ask_inv command [] (s\<lparr>prompting := False\<rparr>)"
  by (auto simp: ask_inv_def split: if_splits)

lemma ask_inv_start:
  "ask_inv command [] s \<Longrightarrow> ask s = None \<Longrightarrow> tries s < (if prompting s then 1 else 2) \<Longrightarrow>
    ask_inv command [] (start_ask command ok timeout now s)"
  by (auto simp: ask_inv_def start_ask_def note_event_def running_append replicate_Suc_append)

lemma ask_inv_initial: "ask_inv command [] (ask_start command at_once timeout e)"
  unfolding ask_start_def by (rule ask_inv_start) (simp_all add: ask_inv_def)

lemma ask_inv_on_prompt:
  assumes "ask_inv command [] s" and "on_prompt command at_once timeout answer t s = (q, s1)"
  shows "ask_inv command [] s1 \<or> (\<exists>typed s0. q = Some (if stored t = PAM_SUCCESS then PAM_IGNORE else stored t)
      \<and> answer = (PAM_SUCCESS, Some typed) \<and> typed \<noteq> [] \<and> ask_inv command [] s0 \<and> s1 = wipe (Some typed) (note_event (SetItem typed) s0))"
    and "q = Some r \<Longrightarrow> r \<noteq> PAM_SUCCESS"
proof -
  let ?s = "s\<lparr>prompting := False\<rparr>"
  let ?w = "wipe (snd answer) ?s" let ?i = "note_event Info ?w"
  have a: "ask_inv command [] ?s" using assms(1) by (rule ask_inv_answered)
  have w: "ask_inv command [] ?w" using a by (rule ask_inv_wipe)
  have i: "ask_inv command [] ?i" using w by (rule ask_inv_note) simp
  have "ask s = None \<Longrightarrow> prompting s \<Longrightarrow> ask_inv command [] (start_ask command (spawned t) timeout (instant t) ?i)"
    using i assms(1) by (intro ask_inv_start) (auto simp: note_event_def ask_inv_def)
  then show "ask_inv command [] s1 \<or> (\<exists>typed s0. q = Some (if stored t = PAM_SUCCESS then PAM_IGNORE else stored t)
      \<and> answer = (PAM_SUCCESS, Some typed) \<and> typed \<noteq> [] \<and> ask_inv command [] s0 \<and> s1 = wipe (Some typed) (note_event (SetItem typed) s0))"
    using assms a w i
    by (cases answer; cases "snd answer") (auto simp: on_prompt_def Let_def split: if_splits)
  show "q = Some r \<Longrightarrow> r \<noteq> PAM_SUCCESS"
    using assms(2) unfolding on_prompt_def Let_def
    by (cases answer; cases "snd answer") (auto simp: PAM_SUCCESS_def PAM_IGNORE_def PAM_CONV_ERR_def split: if_splits)
qed

lemma ask_inv_on_helper:
  assumes "ask_inv command [] s" and "on_helper answer t s = (q, s1)"
  shows "ask_inv command [] s1" and "q = Some r \<Longrightarrow> r = PAM_IGNORE \<or> r = PAM_SUCCESS"
    and "q = Some PAM_SUCCESS \<Longrightarrow> ready t \<and> got t = Some [0x79] \<and> tries s \<noteq> 0"
proof -
  have "ask_inv command [] (drop_ask s)" "ask_inv command [] (note_event (EndPrompt nl) (drop_ask s))"
    "ask_inv command [] (wipe x (note_event (EndPrompt nl) (drop_ask s)))" for nl x
    using assms(1) by (simp_all add: ask_inv_drop ask_inv_note ask_inv_wipe)
  then show "ask_inv command [] s1"
    using assms by (auto simp: on_helper_def Let_def split: option.splits sum.splits if_splits)
  show "q = Some r \<Longrightarrow> r = PAM_IGNORE \<or> r = PAM_SUCCESS"
    using assms(2) by (auto simp: on_helper_def Let_def split: option.splits sum.splits if_splits)
  show "q = Some PAM_SUCCESS \<Longrightarrow> ready t \<and> got t = Some [0x79] \<and> tries s \<noteq> 0"
    using assms
    by (auto simp: on_helper_def Let_def ask_answer_def PAM_IGNORE_def PAM_SUCCESS_def ask_inv_def
        split: option.splits sum.splits if_splits)
qed

lemma ask_inv_typed: "ask_inv command [] s \<Longrightarrow> ask_inv command [x] (wipe (Some x) (note_event (SetItem x) s))"
  by (rule ask_inv_wipe) (auto simp: ask_inv_def note_event_def running_append)

lemma pass_cases:
  assumes "pass command at_once timeout answer t s = (q, s2)"
  obtains (prompt) r where "q = Some r" "on_prompt command at_once timeout answer t s = (Some r, s2)"
  | (helper) s1 where "on_prompt command at_once timeout answer t s = (None, s1)" "on_helper answer t s1 = (q, s2)"
  using assms unfolding pass_def by (auto split: prod.splits option.splits)

lemma ask_inv_pass:
  assumes "ask_inv command [] s" and "pass command at_once timeout answer t s = (None, s1)"
  shows "ask_inv command [] s1"
  using assms(2)
proof (cases rule: pass_cases)
  case (helper s0)
  then show ?thesis using ask_inv_on_prompt(1) [OF assms(1) helper(1)] ask_inv_on_helper(1) by blast
qed simp

text \<open>How the log reads when the loop is over.\<close>

definition over :: "string list \<Rightarrow> string list \<Rightarrow> module_event list \<Rightarrow> bool" where
  "over command typed l \<longleftrightarrow> running l False = Some False \<and> typed_texts l = typed
     \<and> (\<exists>n \<le> 2. starts l = replicate n command)"

lemma over_drop: "ask_inv command typed s \<Longrightarrow> over command typed (log (drop_ask s))"
  using ask_inv_drop [of command typed s]
  by (auto simp: ask_inv_def over_def drop_ask_def note_event_def split: option.splits if_splits)

definition ended :: "string list \<Rightarrow> int \<times> string option \<Rightarrow> module_tick \<Rightarrow> int \<Rightarrow> module_event list \<Rightarrow> bool" where
  "ended command answer t r l \<longleftrightarrow>
     (\<exists>typed. answer = (PAM_SUCCESS, Some typed) \<and> typed \<noteq> [] \<and> over command [typed] l
        \<and> r = (if stored t = PAM_SUCCESS then PAM_IGNORE else stored t))
     \<or> (over command [] l \<and> (r = PAM_SUCCESS \<longrightarrow> ready t \<and> got t = Some [0x79] \<and> command \<in> set (starts l)))"

lemma ended_prompt:
  assumes "ask_inv command [] s" and "on_prompt command at_once timeout answer t s = (Some r, s1)"
  shows "ended command answer t r (log (drop_ask s1))"
  using ask_inv_on_prompt [OF assms] over_drop ask_inv_typed unfolding ended_def by blast

lemma ended_helper:
  assumes "ask_inv command [] s" and "on_helper answer t s = (Some r, s1)"
  shows "ended command answer t r (log (drop_ask s1))"
proof -
  have o: "over command [] (log (drop_ask s1))"
    using ask_inv_on_helper(1) [OF assms] by (rule over_drop)
  have "command \<in> set (starts (log (drop_ask s1)))" if "r = PAM_SUCCESS"
  proof -
    have "tries s1 = tries s" "starts (log (drop_ask s1)) = starts (log s1)"
      using assms(2) by (auto simp: on_helper_def Let_def drop_ask_def note_event_def
          split: option.splits sum.splits if_splits)
    then show ?thesis
      using ask_inv_on_helper(1) [OF assms] ask_inv_on_helper(3) [OF assms [unfolded that]] by (simp add: ask_inv_def)
  qed
  then show ?thesis using o ask_inv_on_helper(3) [OF assms] assms unfolding ended_def by auto
qed

lemma ended_pass:
  assumes "ask_inv command [] s" and "pass command at_once timeout answer t s = (Some r, s1)"
  shows "ended command answer t r (log (drop_ask s1))"
  using assms(2)
proof (cases rule: pass_cases)
  case (prompt q)
  then show ?thesis using assms(1) by (auto intro: ended_prompt)
next
  case (helper s0)
  then show ?thesis using ask_inv_on_prompt(1) [OF assms(1) helper(1)] ended_helper by blast
qed

lemma module_loop_ended:
  assumes "module_loop command at_once timeout answer ts (ask_start command at_once timeout e) = Some (r, l)"
  obtains t where "t \<in> set ts" "ended command answer t r l"
proof (rule module_loop_invariant [OF assms, of "ask_inv command []"])
  fix t s1 s2
  assume "t \<in> set ts" "ask_inv command [] s1" "pass command at_once timeout answer t s1 = (Some r, s2)"
    "l = log (drop_ask s2)"
  then show ?thesis using that ended_pass by blast
qed (auto intro: ask_inv_pass simp: ask_inv_initial)

lemma typed_drop: "typed_texts (log (drop_ask s)) = typed_texts (log s)"
  by (simp add: drop_ask_def note_event_def split: option.split)

text \<open>What the module asks, when it asks.\<close>

definition module_command :: "module_env \<Rightarrow> string list \<Rightarrow> string list" where
  "module_command e argv =
     (let a = read_args (default_helper e) argv
      in helper a # ''pam-auth'' # (case pam_user e of Some user \<Rightarrow> user | None \<Rightarrow> []) # options a)"

definition module_asks :: "module_env \<Rightarrow> string list \<Rightarrow> bool" where
  "module_asks e argv \<longleftrightarrow>
     (let a = read_args (default_helper e) argv in
      case (keys_path a, pam_user e) of
        (Some path, Some user) \<Rightarrow>
          device_present (uevents e) \<and> user_registered user (texts e path) \<and> is_executable e (helper a)
      | _ \<Rightarrow> False)"

definition module_timeout :: "module_env \<Rightarrow> string list \<Rightarrow> nat" where
  "module_timeout e argv = (if on_empty (read_args (default_helper e) argv) then ASK_ON_EMPTY else ASK_PARALLEL)"

definition prompts :: "module_env \<Rightarrow> string list \<Rightarrow> bool" where
  "prompts e argv \<longleftrightarrow> on_empty (read_args (default_helper e) argv) \<or> has_thread e"

abbreviation (input) module_start :: "module_env \<Rightarrow> string list \<Rightarrow> asking" where
  "module_start e argv \<equiv> ask_start (module_command e argv) (on_empty (read_args (default_helper e) argv))
     (module_timeout e argv) e"

lemmas authenticate_defs =
  authenticate_def module_asks_def module_command_def module_timeout_def prompts_def Let_def

lemma authenticate_asks:
  "module_asks e argv \<Longrightarrow> prompts e argv \<Longrightarrow> authenticate e argv ts =
    module_loop (module_command e argv) (on_empty (read_args (default_helper e) argv)) (module_timeout e argv)
      (answered e) ts (module_start e argv)"
  by (auto simp: authenticate_defs split: option.splits)

lemma authenticate_panics:
  "module_asks e argv \<Longrightarrow> \<not> prompts e argv \<Longrightarrow>
    authenticate e argv ts = Some (PAM_IGNORE, log (drop_ask (module_start e argv)))"
  by (auto simp: authenticate_defs split: option.splits)

lemma authenticate_refuses: "\<not> module_asks e argv \<Longrightarrow> authenticate e argv ts = Some (PAM_IGNORE, [])"
  by (auto simp: authenticate_defs split: option.splits)

lemma authenticate_cases:
  assumes "authenticate e argv ts = Some (r, l)"
  obtains (refused) "\<not> module_asks e argv" "r = PAM_IGNORE" "l = []"
  | (panicked) "module_asks e argv" "\<not> prompts e argv" "r = PAM_IGNORE" "over (module_command e argv) [] l"
      "l = log (drop_ask (module_start e argv))"
  | (asked) t where "module_asks e argv" "prompts e argv" "t \<in> set ts" "ended (module_command e argv) (answered e) t r l"
proof (cases "module_asks e argv"; cases "prompts e argv")
  assume "module_asks e argv" "prompts e argv"
  then show ?thesis
    using module_loop_ended assms asked by (simp add: authenticate_asks) metis
next
  assume a: "module_asks e argv" "\<not> prompts e argv"
  then have "r = PAM_IGNORE" "l = log (drop_ask (module_start e argv))"
    using assms by (simp_all add: authenticate_panics)
  with a panicked over_drop [OF ask_inv_initial] show ?thesis by simp
qed (use assms refused in \<open>simp_all add: authenticate_refuses\<close>)

section \<open>The module and its helper\<close>

text \<open>Both read the same key file: the module's \<open>authfile=\<close> is the helper's.\<close>

lemma module_arg_authfile:
  "authfile (fold auth_option (options a) no_options) = keys_path a \<Longrightarrow>
    authfile (fold auth_option (options (module_arg arg a)) no_options) = keys_path (module_arg arg a)"
  by (auto simp: module_arg_def Let_def split: option.splits)

lemma fold_module_arg_authfile:
  "authfile (fold auth_option (options a) no_options) = keys_path a \<Longrightarrow>
    authfile (fold auth_option (options (fold module_arg argv a)) no_options) = keys_path (fold module_arg argv a)"
  by (induction argv arbitrary: a) (simp_all add: module_arg_authfile del: auth_option.simps)

lemma read_args_authfile:
  "authfile (fold auth_option (options (read_args d argv)) no_options) = keys_path (read_args d argv)"
  unfolding read_args_def by (rule fold_module_arg_authfile) simp

text \<open>The contract of the helper: what it approves is vouched for.  The module takes over what a helper
  it asked approved.\<close>

locale asked_helper =
  fixes approves :: "string list \<Rightarrow> bool"
    and vouched :: "string list \<Rightarrow> bool"
  assumes sound: "approves args \<Longrightarrow> vouched args"
begin

lemma success_vouched:
  assumes "authenticate e argv ts = Some (PAM_SUCCESS, l)"
    and "\<forall>t\<in>set ts. ready t \<and> got t = Some [0x79] \<longrightarrow> approves (drop 2 (module_command e argv))"
  shows "module_asks e argv \<and> module_command e argv \<in> set (starts l) \<and> typed_texts l = []
    \<and> vouched (drop 2 (module_command e argv))"
  using assms(1)
proof (cases rule: authenticate_cases)
  case (asked t)
  then have "over (module_command e argv) [] l" "ready t \<and> got t = Some [0x79]" "module_command e argv \<in> set (starts l)"
    unfolding ended_def by (auto simp: PAM_SUCCESS_def PAM_IGNORE_def split: if_splits)
  with asked assms(2) sound show ?thesis by (auto simp: over_def)
qed (simp_all add: PAM_SUCCESS_def PAM_IGNORE_def)

end

definition signed :: "fido \<Rightarrow> (string \<Rightarrow> string option) \<Rightarrow> string list \<Rightarrow> bool" where
  "signed f files args \<longleftrightarrow>
     (\<exists>path content info infos a outcome. authfile (fold auth_option (tl args) no_options) = Some path
        \<and> files path = Some content \<and> f_manifest f MAX_DEVICES = Some infos \<and> info \<in> set infos \<and> virtual_key info
        \<and> a_up a = Some True \<and> f_get f (hd_path info) 1 a = Some outcome \<and> o_count outcome = 1
        \<and> (\<exists>c\<in>set (credentials content (hd args)). o_id outcome = Some (cid c) \<and> f_verify f a outcome (ckey c)))"

lemma run_signed: "h_approved (run f files pipe args) \<Longrightarrow> signed f files args"
proof (cases args)
  case (Cons user opts)
  assume "h_approved (run f files pipe args)"
  then have "h_approved (run f files pipe (user # opts))" by (simp add: Cons)
  then show ?thesis
  proof (rule run_approved)
    fix path org content device a outcome
    let ?creds = "credentials content user"
    let ?a = "real_request (verification (fold auth_option opts no_options) \<or> list_ex cverification ?creds) a"
    assume r: "authfile (fold auth_option opts no_options) = Some path" "files path = Some content"
      "device_open f = Inr device" "f_get f device 1 ?a = Some outcome" "verify f ?creds ?a outcome"
    from r(3) obtain us info vs where d: "f_manifest f MAX_DEVICES = Some (us @ info # vs)" "virtual_key info"
      "device = hd_path info"
      by (rule device_open_Inr)
    have "info \<in> set (us @ info # vs)" "a_up ?a = Some True" by simp_all
    with verify_found [OF r(5)] r(1,2,4) d show ?thesis
      unfolding signed_def Cons list.sel by metis
  qed
qed (simp add: run_def failed_def)

interpretation pam_auth: asked_helper "\<lambda>args. h_approved (run f files pipe args)" "signed f files"
  for f files pipe
  by unfold_locales (rule run_signed)

text \<open>C3: The module lets a user in only on a signature: when libpam's call returns PAM_SUCCESS, and "y"
  comes out of the pipe only when the helper it started wrote it, then the daemon's virtual key
  answered a request for the user's presence with a signature that verifies under a key registered
  for that user in the key file of the stack's line, the helper was started with that user and the
  line's options, and no typed password was handed on.\<close>

theorem success_means_signature:
  assumes "pam_sm_authenticate handle argc argv e ts = Some (PAM_SUCCESS, l)"
    and "\<forall>t\<in>set ts. ready t \<and> got t = Some [0x79] \<longrightarrow>
      h_approved (run f (texts e) pipe (drop 2 (module_command e (c_args argc argv))))"
  shows "\<exists>user path content info infos a outcome. pam_user e = Some user
    \<and> keys_path (read_args (default_helper e) (c_args argc argv)) = Some path \<and> texts e path = Some content
    \<and> f_manifest f MAX_DEVICES = Some infos \<and> info \<in> set infos \<and> hd_vendor info = VENDOR \<and> hd_product info = PRODUCT
    \<and> a_up a = Some True \<and> f_get f (hd_path info) 1 a = Some outcome \<and> o_count outcome = 1
    \<and> (\<exists>c\<in>set (credentials content user). o_id outcome = Some (cid c) \<and> f_verify f a outcome (ckey c))
    \<and> module_command e (c_args argc argv) \<in> set (starts l) \<and> typed_texts l = []"
proof -
  let ?argv = "c_args argc argv"
  have "authenticate e ?argv ts = Some (PAM_SUCCESS, l)"
    using assms(1) by (auto simp: pam_sm_authenticate_def PAM_SUCCESS_def PAM_IGNORE_def split: if_splits)
  from pam_auth.success_vouched [OF this assms(2)]
  have v: "module_asks e ?argv" "module_command e ?argv \<in> set (starts l)" "typed_texts l = []"
    "signed f (texts e) (drop 2 (module_command e ?argv))"
    by simp_all
  then obtain user where u: "pam_user e = Some user" by (auto simp: module_asks_def Let_def split: option.splits)
  show ?thesis
    using v u read_args_authfile [of "default_helper e" ?argv]
    by (auto simp: signed_def module_command_def virtual_key_def Let_def numeral_2_eq_2)
qed

definition sample_module :: "int \<times> string option \<Rightarrow> module_env" where
  "sample_module reply = \<lparr>default_helper = ''/usr/bin/passkey'', pam_user = Some ''me'',
     uevents = [''HID_ID=0003:00001209:00007AB1''], texts = [''/k'' \<mapsto> ''me:aWQx,a2V5MTE=,es256,+presence''],
     access_x = (\<lambda>_. True), has_thread = True, first_spawn = True, began = 0, answered = reply\<rparr>"

definition sample_args :: "string list" where
  "sample_args = [''mode=parallel'', ''authfile=/k'', ''origin=pam://pc'']"

definition quiet_tick :: "nat \<Rightarrow> module_tick" where
  "quiet_tick now = \<lparr>arrived = False, stored = 0, spawned = True, ready = False, got = None,
     closes = True, tty = Some (Some 0), instant = now\<rparr>"

definition approving_tick :: "nat \<Rightarrow> module_tick" where
  "approving_tick now = (quiet_tick now)\<lparr>ready := True, got := Some [0x79]\<rparr>"

theorem success_means_signature_witness:
  "pam_sm_authenticate True 3 (Some sample_args) (sample_module (0, None)) [quiet_tick 20, approving_tick 40]
      = Some (PAM_SUCCESS, [Started [''/usr/bin/passkey'', ''pam-auth'', ''me'', ''authfile=/k'', ''origin=pam://pc''],
          Stopped, EndPrompt True])
    \<and> (\<exists>user. pam_user (sample_module (0, None)) = Some user)"
proof -
  have r: "pam_sm_authenticate True 3 (Some sample_args) (sample_module (0, None)) [quiet_tick 20, approving_tick 40]
      = Some (PAM_SUCCESS, [Started [''/usr/bin/passkey'', ''pam-auth'', ''me'', ''authfile=/k'', ''origin=pam://pc''],
          Stopped, EndPrompt True])"
    by code_simp
  have a: "h_approved (run sample_fido (texts (sample_module (0, None))) True
      (drop 2 (module_command (sample_module (0, None)) (c_args 3 (Some sample_args)))))"
    by code_simp
  from r success_means_signature [OF r, of sample_fido True] a show ?thesis by blast
qed

text \<open>C28: A typed password goes to the next module: when there is a prompt and it ends with a text that is not
  empty, the module either returns PAM_SUCCESS for an approval that came first, and has handed on
  nothing, or it sets exactly that text as the password, once, and returns PAM_IGNORE (or the status
  with which libpam refused it); it never succeeds on a password.\<close>

theorem typed_password_handed_on:
  assumes "module_asks e argv" and "prompts e argv" and "answered e = (PAM_SUCCESS, Some typed)" and "typed \<noteq> []"
    and "authenticate e argv ts = Some (r, l)"
  shows "r = PAM_SUCCESS \<and> typed_texts l = []
    \<or> r \<noteq> PAM_SUCCESS \<and> typed_texts l = [typed]
      \<and> (\<exists>t\<in>set ts. r = (if stored t = PAM_SUCCESS then PAM_IGNORE else stored t))"
proof -
  let ?c = "module_command e argv" and ?b = "on_empty (read_args (default_helper e) argv)"
    and ?w = "module_timeout e argv"
  have prompt: "q \<noteq> None \<and> s1 = wipe (Some typed) (note_event (SetItem typed) (s\<lparr>prompting := False\<rparr>)) \<or> q = None \<and> s1 = s"
    if "on_prompt ?c ?b ?w (answered e) t s = (q, s1)" for t s s1 q
    using that assms(3,4) by (auto simp: on_prompt_def Let_def split: if_splits)
  have loop: "module_loop ?c ?b ?w (answered e) ts (ask_start ?c ?b ?w e) = Some (r, l)"
    using assms(1,2,5) by (simp add: authenticate_asks)
  show ?thesis
  proof (rule module_loop_invariant [OF loop, of "\<lambda>s. ask_inv ?c [] s \<and> prompting s"])
    show "ask_inv ?c [] (ask_start ?c ?b ?w e) \<and> prompting (ask_start ?c ?b ?w e)"
      using ask_inv_initial by (auto simp: ask_start_def start_ask_def note_event_def)
  next
    fix t s s1
    assume s: "ask_inv ?c [] s \<and> prompting s" and p: "pass ?c ?b ?w (answered e) t s = (None, s1)"
    from p obtain s0 where "on_prompt ?c ?b ?w (answered e) t s = (None, s0)" "on_helper (answered e) t s0 = (None, s1)"
      by (cases rule: pass_cases) auto
    moreover from this have "s0 = s" using prompt by blast
    ultimately have "prompting s1 = prompting s"
      by (auto simp: on_helper_def Let_def drop_ask_def note_event_def split: option.splits sum.splits if_splits)
    then show "ask_inv ?c [] s1 \<and> prompting s1" using s p ask_inv_pass by blast
  next
    fix t s s1
    assume t: "t \<in> set ts" and s: "ask_inv ?c [] s \<and> prompting s"
      and p: "pass ?c ?b ?w (answered e) t s = (Some r, s1)" and l: "l = log (drop_ask s1)"
    from p show ?thesis
    proof (cases rule: pass_cases)
      case (prompt q)
      then have "s1 = wipe (Some typed) (note_event (SetItem typed) (s\<lparr>prompting := False\<rparr>))"
          "r = (if stored t = PAM_SUCCESS then PAM_IGNORE else stored t)"
        using s assms(3,4) by (auto simp: on_prompt_def Let_def split: if_splits)
      moreover from this have "typed_texts l = [typed]"
        using l s by (simp add: typed_drop ask_inv_def note_event_def wipe_def)
      ultimately show ?thesis
        using t prompt(1) ask_inv_on_prompt(2) [OF conjunct1 [OF s] prompt(2) refl] by auto
    next
      case (helper s0)
      then have "s0 = s" using prompt by blast
      then have h: "on_helper (answered e) t s = (Some r, s1)" using helper(2) by simp
      then have "r = PAM_SUCCESS"
        using s by (auto simp: on_helper_def Let_def split: option.splits sum.splits if_splits)
      moreover have "typed_texts l = []"
        using over_drop [OF ask_inv_on_helper(1) [OF conjunct1 [OF s] h]] l by (simp add: over_def)
      ultimately show ?thesis by blast
    qed
  qed
qed

theorem typed_password_handed_on_witness:
  "authenticate (sample_module (0, Some ''pw'')) sample_args [quiet_tick 20, (quiet_tick 40)\<lparr>arrived := True\<rparr>]
      = Some (PAM_IGNORE, [Started [''/usr/bin/passkey'', ''pam-auth'', ''me'', ''authfile=/k'', ''origin=pam://pc''],
          SetItem ''pw'', Wiped, Stopped])"
proof -
  have a: "module_asks (sample_module (PAM_SUCCESS, Some ''pw'')) sample_args"
    by code_simp
  have r: "authenticate (sample_module (0, Some ''pw'')) sample_args [quiet_tick 20, (quiet_tick 40)\<lparr>arrived := True\<rparr>]
      = Some (PAM_IGNORE, [Started [''/usr/bin/passkey'', ''pam-auth'', ''me'', ''authfile=/k'', ''origin=pam://pc''],
          SetItem ''pw'', Wiped, Stopped])"
    by code_simp
  have "answered (sample_module (0, Some ''pw'')) = (PAM_SUCCESS, Some ''pw'')"
    by (simp add: sample_module_def PAM_SUCCESS_def)
  moreover have "prompts (sample_module (PAM_SUCCESS, Some ''pw'')) sample_args"
    by (simp add: prompts_def sample_module_def)
  ultimately show ?thesis
    using typed_password_handed_on [OF _ _ _ _ r] a r
    by (simp add: PAM_SUCCESS_def)
qed

text \<open>What the prompt gave is wiped once: the log counts it.\<close>

definition wipes :: "module_event list \<Rightarrow> nat" where
  "wipes l = length (filter (\<lambda>ev. ev = Wiped) l)"

definition wipe_inv :: "int \<times> string option \<Rightarrow> asking \<Rightarrow> bool" where
  "wipe_inv answer s \<longleftrightarrow> wipes (log s) = (if prompting s \<or> snd answer = None then 0 else 1)"

lemma wipes_simps [simp]: "wipes [] = 0" "wipes (a @ b) = wipes a + wipes b"
  "wipes [ev] = (if ev = Wiped then 1 else 0)"
  by (simp_all add: wipes_def)

lemma wipes_drop [simp]: "wipes (log (drop_ask s)) = wipes (log s)"
  by (simp add: drop_ask_def note_event_def split: option.split)

lemma wipes_note: "wipes (log (note_event ev s)) = wipes (log s) + (if ev = Wiped then 1 else 0)"
  by (simp add: note_event_def)

lemma wipes_wipe: "wipes (log (wipe x s)) = wipes (log s) + (if x = None then 0 else 1)"
  by (auto simp: wipe_def wipes_note split: option.split)

lemma wipes_start: "wipes (log (start_ask command ok timeout now s)) = wipes (log s)"
  by (simp add: start_ask_def note_event_def)

lemma prompting_note [simp]: "prompting (note_event ev s) = prompting s"
  by (simp add: note_event_def)

lemma prompting_drop [simp]: "prompting (drop_ask s) = prompting s"
  by (simp add: drop_ask_def split: option.split)

lemma prompting_start [simp]: "prompting (start_ask command ok timeout now s) = prompting s"
  by (simp add: start_ask_def note_event_def)

lemmas wipes_all = wipes_note wipes_wipe wipes_start

lemma wipe_inv_prompt:
  assumes "wipe_inv answer s" and "on_prompt command at_once timeout answer t s = (q, s1)"
  shows "wipe_inv answer s1" and "q \<noteq> None \<Longrightarrow> \<not> prompting s1"
  using assms unfolding on_prompt_def Let_def
  by (cases answer; cases "snd answer"; auto simp: wipe_inv_def wipes_all split: if_splits)+

lemma wipe_inv_helper:
  assumes "wipe_inv answer s" and "on_helper answer t s = (q, s1)"
  shows "q \<noteq> Some PAM_SUCCESS \<Longrightarrow> wipe_inv answer s1"
    and "q = Some r \<Longrightarrow> r \<noteq> PAM_SUCCESS \<Longrightarrow> \<not> prompting s1" and "wipes (log s1) \<le> 1"
  using assms
  by (auto simp: on_helper_def wipe_inv_def wipes_all Let_def PAM_SUCCESS_def PAM_IGNORE_def
      split: option.splits sum.splits if_splits)

lemma wipe_inv_pass:
  assumes "wipe_inv answer s" and "pass command at_once timeout answer t s = (q, s1)"
  shows "q = None \<Longrightarrow> wipe_inv answer s1" and "wipes (log s1) \<le> 1"
    and "q = Some r \<Longrightarrow> r \<noteq> PAM_SUCCESS \<Longrightarrow> wipes (log s1) = (if snd answer = None then 0 else 1)"
proof -
  have "(q = None \<longrightarrow> wipe_inv answer s1) \<and> wipes (log s1) \<le> 1
      \<and> (q = Some r \<and> r \<noteq> PAM_SUCCESS \<longrightarrow> wipes (log s1) = (if snd answer = None then 0 else 1))"
    using assms(2)
  proof (cases rule: pass_cases)
    case (prompt q')
    then show ?thesis using wipe_inv_prompt [OF assms(1) prompt(2)] by (auto simp: wipe_inv_def)
  next
    case (helper s0)
    note h = wipe_inv_helper [OF wipe_inv_prompt(1) [OF assms(1) helper(1)] helper(2)]
    then show ?thesis using h(2) [of r] by (auto simp: wipe_inv_def)
  qed
  then show "q = None \<Longrightarrow> wipe_inv answer s1" "wipes (log s1) \<le> 1"
    "q = Some r \<Longrightarrow> r \<noteq> PAM_SUCCESS \<Longrightarrow> wipes (log s1) = (if snd answer = None then 0 else 1)"
    by blast+
qed

lemma wipe_inv_start: "wipe_inv answer (ask_start command at_once timeout e)"
  by (simp add: wipe_inv_def ask_start_def wipes_start)

lemma module_loop_wipes:
  assumes "module_loop command at_once timeout answer ts (ask_start command at_once timeout e) = Some (r, l)"
  shows "wipes l \<le> 1 \<and> (r \<noteq> PAM_SUCCESS \<longrightarrow> wipes l = (if snd answer = None then 0 else 1))"
proof (rule module_loop_invariant [OF assms, of "wipe_inv answer"])
  fix t s1 s2
  assume "wipe_inv answer s1" "pass command at_once timeout answer t s1 = (Some r, s2)" "l = log (drop_ask s2)"
  then show ?thesis using wipe_inv_pass(2,3) by auto
qed (auto intro: wipe_inv_pass(1) simp: wipe_inv_start)

text \<open>C23: However the module ends, it leaves nothing behind: in the log helpers are started one at a time
  and every one is stopped before the next and before the return; there are at most two, one beside
  the prompt and one after Enter (so the limit of three tries is never reached), all with the same
  command.  What was typed at the prompt is wiped at most once, and exactly once when the prompt gave
  it and no approval came.  When the module does not ask at all, for want of a key file, a user, a
  device, a registered key or the helper, it does nothing and returns PAM_IGNORE; so it does, after
  stopping the helper, when it gets no thread for the prompt.\<close>

theorem helpers_stopped:
  assumes "authenticate e argv ts = Some (r, l)"
  shows "running l False = Some False \<and> (\<exists>n \<le> 2. starts l = replicate n (module_command e argv)) \<and> wipes l \<le> 1
    \<and> (module_asks e argv \<and> prompts e argv \<and> r \<noteq> PAM_SUCCESS \<longrightarrow>
        wipes l = (if snd (answered e) = None then 0 else 1))
    \<and> (\<not> module_asks e argv \<longrightarrow> r = PAM_IGNORE \<and> l = [])
    \<and> (module_asks e argv \<and> \<not> prompts e argv \<longrightarrow> r = PAM_IGNORE)"
  using assms
proof (cases rule: authenticate_cases)
  case panicked
  have "wipes l = 0" by (simp add: panicked(5) ask_start_def wipes_start)
  then show ?thesis using panicked by (auto simp: over_def)
next
  case (asked t)
  then have "module_loop (module_command e argv) (on_empty (read_args (default_helper e) argv)) (module_timeout e argv)
      (answered e) ts (module_start e argv) = Some (r, l)"
    using assms by (simp add: authenticate_asks)
  from module_loop_wipes [OF this] asked show ?thesis by (auto simp: ended_def over_def)
qed simp

theorem helpers_stopped_witness:
  "\<exists>r l. authenticate (sample_module (0, Some [])) sample_args
      [approving_tick 20\<lparr>got := Some []\<rparr>, quiet_tick 30\<lparr>arrived := True\<rparr>, approving_tick 40] = Some (r, l)
    \<and> running l False = Some False \<and> length (starts l) = 2 \<and> wipes l \<le> 1"
proof -
  let ?run = "authenticate (sample_module (0, Some [])) sample_args
      [approving_tick 20\<lparr>got := Some []\<rparr>, quiet_tick 30\<lparr>arrived := True\<rparr>, approving_tick 40]"
  have "(case ?run of Some (r, l) \<Rightarrow> length (starts l) = 2 | None \<Rightarrow> False)"
    by code_simp
  then obtain r l where "?run = Some (r, l)" "length (starts l) = 2"
    by (auto split: option.splits)
  with helpers_stopped [OF this(1)] show ?thesis by blast
qed

section \<open>The module returns\<close>

definition due_by :: "nat \<Rightarrow> asking \<Rightarrow> bool" where
  "due_by b s \<longleftrightarrow> (\<forall>d. ask s = Some d \<longrightarrow> d \<le> b)"

lemma due_drop: "due_by b (drop_ask s)"
  by (simp add: due_by_def drop_ask_def note_event_def split: option.split)

lemma due_note [simp]: "due_by b (note_event ev s) = due_by b s"
  by (simp add: due_by_def note_event_def)

lemma due_on_helper:
  "due_by b s \<Longrightarrow> on_helper answer t s = (q, s1) \<Longrightarrow> due_by b s1 \<and> prompting s1 = prompting s"
  by (auto simp: on_helper_def Let_def due_drop drop_ask_def note_event_def due_by_def
      split: option.splits sum.splits if_splits)

lemma due_on_prompt:
  assumes "due_by b s" and "instant t + timeout \<le> b" and "on_prompt command at_once timeout answer t s = (q, s1)"
  shows "due_by b s1"
  using assms unfolding on_prompt_def Let_def
  by (cases answer; cases "snd answer") (auto simp: due_by_def start_ask_def note_event_def split: if_splits)

lemma due_pass:
  assumes "due_by b s" and "instant t + timeout \<le> b" and "pass command at_once timeout answer t s = (q, s1)"
  shows "due_by b s1"
  using assms(3) by (cases rule: pass_cases) (blast dest: due_on_prompt [OF assms(1,2)] due_on_helper)+

lemma pass_answered: "\<not> prompting s \<Longrightarrow> pass command at_once timeout answer t s = on_helper answer t s"
  by (simp add: pass_def on_prompt_def)

lemma pass_unasked: "\<not> prompting s \<Longrightarrow> ask s = None \<Longrightarrow> fst (on_helper answer t s) \<noteq> None"
  by (simp add: on_helper_def)

lemma pass_late:
  "\<not> prompting s \<Longrightarrow> due_by (instant t) s \<Longrightarrow> fst (on_helper answer t s) = None \<Longrightarrow> ask (snd (on_helper answer t s)) = None"
  by (auto simp: on_helper_def due_by_def Let_def drop_ask_def note_event_def split: option.splits sum.splits)

lemma loop_waits:
  "\<not> prompting s \<Longrightarrow> due_by b s \<Longrightarrow> b \<le> instant u \<Longrightarrow>
    module_loop command at_once timeout answer (vs @ [u, v]) s \<noteq> None"
proof (induction vs arbitrary: s)
  case Nil
  have u: "due_by (instant u) s" using Nil.prems by (auto simp: due_by_def)
  obtain q s1 where h: "on_helper answer u s = (q, s1)" by fastforce
  have "q = None \<Longrightarrow> fst (on_helper answer v s1) \<noteq> None"
    using pass_late [OF Nil.prems(1) u, of answer] due_on_helper [OF Nil.prems(2) h] h Nil.prems(1) pass_unasked [of s1 answer v] by simp
  then show ?case
    using h due_on_helper [OF Nil.prems(2) h] Nil.prems(1)
    by (cases q) (auto simp: pass_answered split: option.split prod.split)
next
  case (Cons x vs)
  obtain q s1 where h: "on_helper answer x s = (q, s1)" by fastforce
  show ?case
    using h due_on_helper [OF Cons.prems(2) h] Cons.prems Cons.IH [of s1]
    by (cases q) (simp_all add: pass_answered)
qed

lemma answered_pass:
  assumes "prompting s" and "arrived t \<or> at_once" and "pass command at_once timeout answer t s = (None, s1)"
  shows "\<not> prompting s1"
  using assms(3)
proof (cases rule: pass_cases)
  case (helper s0)
  then have "\<not> prompting s0"
    using assms(1,2) unfolding on_prompt_def Let_def
    by (cases answer; cases "snd answer") (auto simp: start_ask_def note_event_def split: if_splits)
  then show ?thesis using helper(2)
    by (auto simp: on_helper_def Let_def drop_ask_def note_event_def split: option.splits sum.splits if_splits)
qed simp

lemma loop_returns:
  "due_by b s \<Longrightarrow> \<forall>x\<in>set before. instant x + timeout \<le> b \<Longrightarrow> instant t + timeout \<le> b \<Longrightarrow> b \<le> instant u \<Longrightarrow>
    arrived t \<or> at_once \<Longrightarrow>
    module_loop command at_once timeout answer (before @ t # after @ [u, v]) s \<noteq> None"
proof (induction before arbitrary: s)
  case Nil
  show ?case
  proof (cases "prompting s")
    case True
    obtain q s1 where p: "pass command at_once timeout answer t s = (q, s1)" by fastforce
    show ?thesis
    proof (cases q)
      case None
      then have "\<not> prompting s1" "due_by b s1"
        using answered_pass [OF True Nil.prems(5)] due_pass [OF Nil.prems(1,3)] p by blast+
      then show ?thesis using p None loop_waits [of s1 b u] Nil.prems(4) by simp
    qed (use p in simp)
  qed (use Nil.prems loop_waits [of s b u command at_once timeout answer "t # after" v] in simp)
next
  case (Cons x before)
  obtain q s1 where p: "pass command at_once timeout answer x s = (q, s1)" by fastforce
  have "due_by b s1" using due_pass [OF Cons.prems(1) _ p] Cons.prems(2) by simp
  then show ?case using p Cons.IH [of s1] Cons.prems by (cases q) simp_all
qed

text \<open>C16: The module returns: once the prompt has ended (in on-empty mode it ends before the loop), it is back
  at the latest two passes after the time a helper is given, 10 minutes beside the prompt and 45
  seconds after it, whatever the helper does, also one started for the answer itself.\<close>

theorem module_returns:
  assumes "arrived t \<or> on_empty (read_args (default_helper e) argv)"
    and "\<forall>x\<in>set before. instant x \<le> instant t" and "began e \<le> instant t"
    and "instant t + module_timeout e argv \<le> instant u"
  shows "\<exists>r l. authenticate e argv (before @ t # after @ [u, v]) = Some (r, l)"
proof (cases "module_asks e argv \<and> prompts e argv")
  case True
  have "due_by (instant t + module_timeout e argv) (ask_start (module_command e argv)
      (on_empty (read_args (default_helper e) argv)) (module_timeout e argv) e)"
    using assms(3) by (simp add: due_by_def ask_start_def start_ask_def note_event_def)
  from loop_returns [OF this, of before "module_timeout e argv" t u] show ?thesis
    using True assms by (auto simp: authenticate_asks)
qed (cases "module_asks e argv"; simp add: authenticate_refuses authenticate_panics)

theorem module_returns_witness:
  "\<exists>r l. authenticate (sample_module (0, Some [])) (''mode=on-empty'' # sample_args)
    (quiet_tick 10 # [quiet_tick 20, quiet_tick 45010, quiet_tick 45030]) = Some (r, l)"
proof -
  have t: "module_timeout (sample_module (0, Some [])) (''mode=on-empty'' # sample_args) = 45000"
    "on_empty (read_args (default_helper (sample_module (0, Some []))) (''mode=on-empty'' # sample_args))"
    by code_simp+
  show ?thesis
    using module_returns [of "quiet_tick 10" "sample_module (0, Some [])" "''mode=on-empty'' # sample_args" "[]"
        "quiet_tick 45010" "[quiet_tick 20]" "quiet_tick 45030"] t
    by (simp add: sample_module_def quiet_tick_def)
qed

section \<open>The line in the stack\<close>

lemma word_text: "\<forall>c\<in>set KEYS. word_char c" "\<forall>c\<in>set ''origin=pam://''. word_char c"
  "\<forall>c\<in>set ''appid=pam://''. word_char c" "\<forall>c\<in>set ''authfile=''. word_char c"
  "\<forall>c\<in>set ''mode=on-empty''. word_char c" "\<forall>c\<in>set ''mode=parallel''. word_char c"
  "\<forall>c\<in>set ''-auth''. word_char c" "\<forall>c\<in>set ''sufficient''. word_char c" "\<forall>c\<in>set ''pam_passkey.so''. word_char c"
  "\<forall>c\<in>set ''userverification=1''. word_char c" "\<forall>c\<in>set ''nouserok''. word_char c"
  by (simp_all add: KEYS_def word_char_def ascii_space_def)

definition line_words :: "string \<Rightarrow> string \<Rightarrow> string list" where
  "line_words host service =
     [''-auth'', ''sufficient'', ''pam_passkey.so'',
      if service \<in> set ON_EMPTY then ''mode=on-empty'' else ''mode=parallel'', ''authfile='' @ KEYS,
      ''origin=pam://'' @ host, ''appid=pam://'' @ host, ''userverification=1'', ''nouserok'']"

lemma pam_line_words:
  assumes "\<forall>c\<in>set host. word_char c"
  shows "split_whitespace (pam_line host True True service) = line_words host service"
proof -
  let ?rest = "drop 2 (line_words host service)"
  have l: "pam_line host True True service = ''-auth'' @ CHR '' '' # ''     '' @ ''sufficient'' @ CHR '' '' # ''  ''
      @ join_with '' '' ?rest"
    by (simp add: pam_line_def line_words_def Let_def)
  have "split_whitespace (join_with '' '' ?rest) = ?rest"
    using assms word_text by (intro split_words) (auto simp: line_words_def)
  moreover have "split_whitespace (''-auth'' @ CHR '' '' # x) = ''-auth'' # split_whitespace x"
    "split_whitespace (''sufficient'' @ CHR '' '' # x) = ''sufficient'' # split_whitespace x" for x
    by (rule split_whitespace_word; use word_text space_is_space in simp)+
  moreover have "split_whitespace (''     '' @ x) = split_whitespace x" "split_whitespace (''  '' @ x) = split_whitespace x" for x
    by (simp_all add: split_whitespace_skip space_is_space)
  ultimately have "split_whitespace (pam_line host True True service) = ''-auth'' # ''sufficient'' # ?rest"
    unfolding l by (metis append_Cons)
  then show ?thesis by (simp add: line_words_def)
qed

text \<open>The line \<open>pam_line\<close> puts into a stack runs the module as it is meant to run: split at its blanks, it
  is the module's file and arguments from which \<open>authenticate\<close> takes the service's mode, the default
  helper and the key file that \<open>root_store\<close> writes, and from the options it hands on the helper takes
  that same key file, this host's origin and the demand for user verification.\<close>

theorem line_runs_module:
  assumes "\<forall>c\<in>set host. word_char c"
  shows "\<exists>argv. split_whitespace (pam_line host True True service) = ''-auth'' # ''sufficient'' # ''pam_passkey.so'' # argv
    \<and> on_empty (read_args d argv) = (service \<in> set ON_EMPTY) \<and> helper (read_args d argv) = d
    \<and> keys_path (read_args d argv) = Some KEYS
    \<and> fold auth_option (options (read_args d argv)) no_options
      = \<lparr>authfile = Some KEYS, origin = Some (''pam://'' @ host), verification = True\<rparr>"
  unfolding pam_line_words [OF assms] line_words_def
  by (auto simp: read_args_def MAX_ARGS_def module_arg_def starts_with_def strip_prefix_def Let_def)

theorem line_runs_module_witness:
  "\<exists>argv. split_whitespace (pam_line ''pc-1'' True True ''sddm'') = ''-auth'' # ''sufficient'' # ''pam_passkey.so'' # argv
    \<and> on_empty (read_args [] argv)"
proof -
  have "\<forall>c\<in>set ''pc-1''. word_char c" "''sddm'' \<in> set ON_EMPTY"
    by (simp_all add: word_char_def ascii_space_def ON_EMPTY_def)
  then show ?thesis
    using line_runs_module [of "''pc-1''" "''sddm''" "[]"] by auto
qed

end
