(* ===== verification/Commands.thy ===== *)
theory Commands
  imports Enroll Environment Wifi Pam_Module
begin

text \<open>
  The commands (src/src/main.rs: \<open>run\<close>; src/src/cli.rs: \<open>run\<close>, \<open>wifi_command\<close>, \<open>pairing_input\<close>,
  \<open>privileged\<close>, \<open>require_root\<close>, \<open>configure\<close>, \<open>uninstall\<close>) on everything the program keeps outside
  /run: the registry and the chosen device, the paired phones, the PAM stacks and the systemd drop-in.
  What the kernel, systemd and sudo answer is an argument.
\<close>

section \<open>Programs\<close>

datatype program = Run_Daemon | Run_Pam_Auth "string list" | Run_Cli string "string list"

definition main_run :: "string list \<Rightarrow> program" where
  "main_run args =
     (let command = (case args of [] \<Rightarrow> ''status'' | c # _ \<Rightarrow> c); rest = tl args in
      if command = ''daemon'' then Run_Daemon
      else if command = ''pam-auth'' then Run_Pam_Auth rest
      else Run_Cli command rest)"

section \<open>What is kept\<close>

record system =
  the_desk :: desk
  pairings :: profile_dir
  stacks :: pam_files
  drop_in :: "string option"

datatype outcome = Done | Waiting | Not_Root | Bad_Usage | Unknown_Command | Refused | Failed

text \<open>What is outside when a command runs as root.\<close>

record root_world =
  r_v6 :: v6_text
  r_session :: "peer \<Rightarrow> tls_session"
  r_pid :: nat
  r_profile_written :: bool
  r_profile_renamed :: bool
  r_pam_dir :: bool
  r_uhid :: bool
  r_systemd :: bool
  r_drop_in_written :: bool
  r_reloaded :: bool
  r_enabled :: bool
  r_stack_written :: "string \<Rightarrow> bool"
  r_stack_marked :: "string \<Rightarrow> bool"
  r_host :: string
  r_module_there :: bool
  r_takes_password :: bool
  r_use_changed :: bool
  r_keys_written :: bool
  r_names_written :: bool
  r_drop_in_gone :: bool
  r_etc_gone :: bool

section \<open>As root\<close>

definition drop_in_text :: "string \<Rightarrow> string" where
  "drop_in_text user = ''[Service]'' @ NL # ''Environment=PASSKEY_ADB_USER='' @ user @ [NL]"

text \<open>\<open>r_uhid\<close>: /dev/uhid is there, if need be after modprobe.\<close>

definition configure :: "root_world \<Rightarrow> string \<Rightarrow> system \<Rightarrow> bool \<times> system" where
  "configure w user s =
     (if \<not> r_pam_dir w \<or> \<not> r_uhid w then (False, s)
      else if r_systemd w \<and> \<not> r_drop_in_written w then (False, s)
      else
        let s1 = (if r_systemd w then s\<lparr>drop_in := Some (drop_in_text user)\<rparr> else s) in
        if r_systemd w \<and> (\<not> r_reloaded w \<or> \<not> r_enabled w) then (False, s1)
        else
          let (ok, fs) = add_each (r_stack_written w) (r_stack_marked w)
            (pam_line (r_host w) (r_module_there w) (r_takes_password w)) services (stacks s1)
          in (ok, s1\<lparr>stacks := fs\<rparr>))"

text \<open>\<open>remove_dir_all\<close> on /etc/passkey takes the keys, the names, the profiles and the marks of the copies.\<close>

definition uninstall :: "root_world \<Rightarrow> system \<Rightarrow> bool \<times> system" where
  "uninstall w s =
     (let (ok, fs) = remove_each (r_stack_written w) services (stacks s); s1 = s\<lparr>stacks := fs\<rparr> in
      if \<not> ok then (False, s1)
      else
        let s2 = (if r_drop_in_gone w then s1\<lparr>drop_in := None\<rparr> else s1) in
        (True, if r_etc_gone w
          then s2\<lparr>the_desk := (the_desk s2)\<lparr>registered := \<lparr>keys_file = None, names_file = None\<rparr>\<rparr>, pairings := [],
                 stacks := (stacks s2)\<lparr>copied := {}\<rparr>\<rparr>
          else s2))"

definition root_wifi_add :: "root_world \<Rightarrow> string \<Rightarrow> system \<Rightarrow> outcome \<times> system" where
  "root_wifi_add w input s =
     (if length (take 513 input) > 512 then (Failed, s)
      else case peer_decode (r_v6 w) (take 513 input) of
          None \<Rightarrow> (Failed, s)
        | Some p \<Rightarrow>
            (case fst (connect p (r_session w p)) of
               Inl _ \<Rightarrow> (Failed, s)
             | Inr _ \<Rightarrow>
                 (let (ok, dir) = save (r_v6 w) (r_pid w) (r_profile_written w) (r_profile_renamed w) p (pairings s)
                  in (if ok then Done else Failed, s\<lparr>pairings := dir\<rparr>))))"

definition root_command :: "root_world \<Rightarrow> string \<Rightarrow> string list \<Rightarrow> string \<Rightarrow> system \<Rightarrow> outcome \<times> system" where
  "root_command w command args input s =
     (if command = ''root-wifi-add'' then root_wifi_add w input s
      else if command = ''root-wifi-list'' then
        (if load_from (r_v6 w) (pairings s) = None then Failed else Done, s)
      else if command = ''root-wifi-remove'' then
        (case args of
           [] \<Rightarrow> (Bad_Usage, s)
         | addr # _ \<Rightarrow>
             (let (ok, dir) = remove_peer (r_v6 w) addr (pairings s) in (if ok then Done else Failed, s\<lparr>pairings := dir\<rparr>)))
      else if command = ''root-configure'' then
        (case args of [] \<Rightarrow> (Bad_Usage, s)
         | user # _ \<Rightarrow> (let (ok, s1) = configure w user s in (if ok then Done else Failed, s1)))
      else if command = ''root-use'' then
        (let (ok, f) = root_use (r_use_changed w) (case args of [] \<Rightarrow> None | d # _ \<Rightarrow> Some d)
               (case args of _ # p # _ \<Rightarrow> Some p | _ \<Rightarrow> None) (use_file (the_desk s))
         in (if ok then Done else Failed, s\<lparr>the_desk := (the_desk s)\<lparr>use_file := f\<rparr>\<rparr>))
      else if command = ''root-store'' then
        (case args of [] \<Rightarrow> (Bad_Usage, s)
         | user # _ \<Rightarrow>
             (let (e, reg) = root_store (r_keys_written w) (r_names_written w) user input (registered (the_desk s))
              in (if e = None then Done else Failed, s\<lparr>the_desk := (the_desk s)\<lparr>registered := reg\<rparr>\<rparr>)))
      else if command = ''root-remove'' then
        (case args of
           user # handle # _ \<Rightarrow>
             (let (e, reg) = root_remove (r_keys_written w) (r_names_written w) user handle (registered (the_desk s))
              in (if e = None then Done else Failed, s\<lparr>the_desk := (the_desk s)\<lparr>registered := reg\<rparr>\<rparr>))
         | _ \<Rightarrow> (Bad_Usage, s))
      else if command = ''root-uninstall'' then (let (ok, s1) = uninstall w s in (if ok then Done else Failed, s1))
      else (Unknown_Command, s))"

definition root_commands :: "string list" where
  "root_commands =
     [''root-wifi-add'', ''root-wifi-list'', ''root-wifi-remove'', ''root-configure'', ''root-use'', ''root-store'',
      ''root-remove'', ''root-uninstall'']"

section \<open>As anyone\<close>

text \<open>\<open>is_root\<close>: the effective user is root; \<open>sudo_ok\<close>: sudo runs what it is given.\<close>

record user_world =
  is_root :: bool
  sudo_ok :: bool
  as_root :: root_world
  machine :: machine
  me :: "string option"
  adding :: add_world

definition may_root :: "user_world \<Rightarrow> bool" where
  "may_root u \<longleftrightarrow> is_root u \<or> sudo_ok u"

definition privileged :: "user_world \<Rightarrow> string \<Rightarrow> string list \<Rightarrow> string \<Rightarrow> system \<Rightarrow> outcome \<times> system" where
  "privileged u command args input s =
     (if \<not> may_root u then (Refused, s)
      else let (r, s1) = root_command (as_root u) command args input s in (if r = Done then Done else Refused, s1))"

text \<open>\<open>pairing_input\<close>: one line of at most 256 bytes.\<close>

definition pairing_input :: "string \<Rightarrow> string" where
  "pairing_input input = trim (takeWhile (\<lambda>c. c \<noteq> NL) (take 256 input))"

text \<open>The terminal while the code is pasted: \<open>restore\<close>, dropped on every way out, puts its old settings back.
  The result and the settings it goes through; \<open>None\<close>: an error.\<close>

record tty =
  tty_echo :: bool
  tty_signals :: bool

definition hidden_input :: "bool \<Rightarrow> bool \<Rightarrow> bool \<Rightarrow> string option \<Rightarrow> tty \<Rightarrow> string option \<times> tty list" where
  "hidden_input at_terminal read_ok hid_ok line original =
     (let code = map_option pairing_input line in
      if \<not> at_terminal then (code, [])
      else if \<not> read_ok \<or> \<not> hid_ok then (None, [])
      else (code, [original\<lparr>tty_echo := False, tty_signals := False\<rparr>, original]))"

lemma terminal_restored: "last (t # snd (hidden_input at_terminal read_ok hid_ok line t)) = t"
  by (simp add: hidden_input_def Let_def)

text \<open>The lines \<open>status\<close> prints, apart from the errors of the check.\<close>

definition status_lines :: "bool \<Rightarrow> string option \<Rightarrow> string option \<Rightarrow> (string \<Rightarrow> string option) \<Rightarrow> string \<Rightarrow> registry \<Rightarrow> string list" where
  "status_lines up printed devices stack user reg =
     [''service: '' @ (if up then ''running'' else ''not running''),
      ''device: '' @ (case virtual_device printed of Some d \<Rightarrow> d | None \<Rightarrow> ''not connected'')]
     @ map (\<lambda>p. ''connected: '' @ snd p) (connected_devices (case devices of Some t \<Rightarrow> t | None \<Rightarrow> []))
     @ map (\<lambda>service. ''PAM: '' @ service)
         (filter (\<lambda>service. case stack service of None \<Rightarrow> False | Some t \<Rightarrow> list_ex is_ours (str_lines t)) services)
     @ [''registered:''] @ print_devices user reg"

definition wifi_command :: "user_world \<Rightarrow> string list \<Rightarrow> string \<Rightarrow> system \<Rightarrow> outcome \<times> system" where
  "wifi_command u args input s =
     (case args of
        [sub, addr] \<Rightarrow>
          if sub = ''add'' then
            (if endpoint (r_v6 (as_root u)) addr = None then (Failed, s)
             else case peer_parse (r_v6 (as_root u)) addr (pairing_input input) of
                 None \<Rightarrow> (Failed, s)
               | Some p \<Rightarrow> privileged u ''root-wifi-add'' [] (peer_encode (r_v6 (as_root u)) p) s)
          else if sub = ''remove'' then
            (if endpoint (r_v6 (as_root u)) addr = None then (Failed, s)
             else privileged u ''root-wifi-remove'' [addr] [] s)
          else (Bad_Usage, s)
      | [sub] \<Rightarrow> if sub = ''list'' then privileged u ''root-wifi-list'' [] [] s else (Bad_Usage, s)
      | _ \<Rightarrow> (Bad_Usage, s))"

text \<open>\<open>add\<close>: \<open>enroll\<close> after the check and the configuration; each privileged step needs root again.\<close>

definition add_world_for :: "user_world \<Rightarrow> string list \<Rightarrow> string \<Rightarrow> add_world" where
  "add_world_for u args user =
     (let w = adding u in
      w\<lparr>cur_user := Some user, env_ok := True, configured := True,
        given_name := (case args of [] \<Rightarrow> None | n # _ \<Rightarrow> Some n),
        use_sudo := (use_sudo w \<and> may_root u), store_sudo := (store_sudo w \<and> may_root u),
        clear_sudo := (clear_sudo w \<and> may_root u)\<rparr>)"

definition add_command :: "user_world \<Rightarrow> string list \<Rightarrow> system \<Rightarrow> outcome \<times> system" where
  "add_command u args s =
     (case me u of
        None \<Rightarrow> (Failed, s)
      | Some user \<Rightarrow>
          if snd (check_environment (machine u)) \<noteq> None then (Failed, s)
          else
            let (r, s1) = privileged u ''root-configure'' [user] [] s in
            if r \<noteq> Done then (r, s1)
            else
              (case enroll (add_world_for u args user) (the_desk s1) of
                 None \<Rightarrow> (Waiting, s1)
               | Some (Inl _, d) \<Rightarrow> (Failed, s1\<lparr>the_desk := d\<rparr>)
               | Some (Inr _, d) \<Rightarrow> (Done, s1\<lparr>the_desk := d\<rparr>)))"

definition remove_command :: "user_world \<Rightarrow> string list \<Rightarrow> system \<Rightarrow> outcome \<times> system" where
  "remove_command u args s =
     (case args of
        [] \<Rightarrow> (Bad_Usage, s)
      | which # _ \<Rightarrow>
          (case me u of
             None \<Rightarrow> (Failed, s)
           | Some user \<Rightarrow>
               (case remove_handle user which (registered (the_desk s)) of
                  Inl _ \<Rightarrow> (Failed, s)
                | Inr handle \<Rightarrow> privileged u ''root-remove'' [user, handle] [] s)))"

definition run_command :: "user_world \<Rightarrow> string \<Rightarrow> string list \<Rightarrow> string \<Rightarrow> system \<Rightarrow> outcome \<times> system" where
  "run_command u command args input s =
     (if command = ''add'' then add_command u args s
      else if command = ''wifi'' then wifi_command u args input s
      else if command = ''list'' \<or> command = ''status'' then (if me u = None then Failed else Done, s)
      else if command = ''remove'' then remove_command u args s
      else if command = ''uninstall'' then privileged u ''root-uninstall'' [] [] s
      else if command \<in> set root_commands then
        (if is_root u then root_command (as_root u) command args input s else (Not_Root, s))
      else if command \<in> set [''help'', ''--help'', ''-h''] then (Done, s)
      else (Unknown_Command, s))"

section \<open>Without root\<close>

lemma privileged_refused: "\<not> may_root u \<Longrightarrow> privileged u command args input s = (Refused, s)"
  by (simp add: privileged_def)

lemma privileged_done: "privileged u command args input s = (Done, s') \<Longrightarrow> root_command (as_root u) command args input s = (Done, s')"
  by (cases "root_command (as_root u) command args input s") (auto simp: privileged_def Let_def split: if_splits)

lemma wifi_command_refused: "\<not> may_root u \<Longrightarrow> snd (wifi_command u args input s) = s"
  by (auto simp: wifi_command_def privileged_refused split: list.splits option.splits)

lemma add_command_refused: "\<not> may_root u \<Longrightarrow> snd (add_command u args s) = s"
  by (simp add: add_command_def privileged_refused split: option.splits)

lemma remove_command_refused: "\<not> may_root u \<Longrightarrow> snd (remove_command u args s) = s"
  by (simp add: remove_command_def privileged_refused split: list.splits option.splits sum.splits)

section \<open>Pairing\<close>

lemma root_wifi_add_done:
  assumes "root_wifi_add w input s = (Done, s')"
  obtains p label where "peer_decode (r_v6 w) input = Some p" and "fst (connect p (r_session w p)) = Inr label"
    and "fst (save (r_v6 w) (r_pid w) (r_profile_written w) (r_profile_renamed w) p (pairings s))"
    and "s' = s\<lparr>pairings := saved (r_v6 w) p (pairings s)\<rparr>"
proof -
  have len: "\<not> length (take 513 input) > 512" using assms by (auto simp: root_wifi_add_def)
  then have t: "take 513 input = input" by simp
  obtain p where p: "peer_decode (r_v6 w) input = Some p"
    using assms len unfolding root_wifi_add_def t by (auto split: option.splits)
  obtain label where l: "fst (connect p (r_session w p)) = Inr label"
    using assms len unfolding root_wifi_add_def t p by (auto split: sum.splits)
  let ?save = "save (r_v6 w) (r_pid w) (r_profile_written w) (r_profile_renamed w) p (pairings s)"
  have "fst ?save" "s' = s\<lparr>pairings := snd ?save\<rparr>"
    using assms len l unfolding root_wifi_add_def t p by (auto simp: Let_def split_def split: if_splits)
  then show ?thesis using that p l save_result(3) by metis
qed

lemma connect_pin: "fst (connect p ses) = Inr label \<Longrightarrow> digest ses = Some (pin p)"
  by (auto simp: connect_def Let_def split: if_splits option.splits)

lemma wifi_add_done:
  assumes "v6_ok (r_v6 (as_root u))" and "wifi_command u [''add'', addr] input s = (Done, s')"
  obtains p where "peer_parse (r_v6 (as_root u)) addr (pairing_input input) = Some p" and "peer_ok p"
    and "digest (r_session (as_root u) p) = Some (pin p)"
    and "s' = s\<lparr>pairings := saved (r_v6 (as_root u)) p (pairings s)\<rparr>"
proof -
  let ?w = "as_root u"
  obtain p where p: "peer_parse (r_v6 ?w) addr (pairing_input input) = Some p"
    and r: "privileged u ''root-wifi-add'' [] (peer_encode (r_v6 ?w) p) s = (Done, s')"
    using assms(2) by (auto simp: wifi_command_def split: if_splits option.splits)
  have ok: "peer_ok p" using p by (rule peer_parse_ok [OF assms(1)])
  have w: "root_wifi_add ?w (peer_encode (r_v6 ?w) p) s = (Done, s')"
    using privileged_done [OF r] by (simp add: root_command_def)
  from root_wifi_add_done [OF w] obtain q label where q: "peer_decode (r_v6 ?w) (peer_encode (r_v6 ?w) p) = Some q"
    "fst (connect q (r_session ?w q)) = Inr label" "s' = s\<lparr>pairings := saved (r_v6 ?w) q (pairings s)\<rparr>" by metis
  have "q = p" using q(1) peer_decode_encode [OF assms(1) ok] by simp
  with that p ok q connect_pin show ?thesis by metis
qed

section \<open>Configuring and uninstalling\<close>

lemma configure_stacks:
  "stacks (snd (configure w user s)) = stacks s
    \<or> stacks (snd (configure w user s)) = snd (add_each (r_stack_written w) (r_stack_marked w)
        (pam_line (r_host w) (r_module_there w) (r_takes_password w)) services (stacks s))"
  by (simp add: configure_def Let_def split_def)

lemma uninstall_done:
  assumes "uninstall w s = (True, s')"
  shows "etc (stacks s') = etc (snd (remove_each (r_stack_written w) services (stacks s)))"
    and "fst (remove_each (r_stack_written w) services (stacks s))"
    and "r_etc_gone w \<Longrightarrow> registered (the_desk s') = \<lparr>keys_file = None, names_file = None\<rparr> \<and> pairings s' = []"
  using assms by (auto simp: uninstall_def Let_def split_def split: if_splits)

text \<open>The result of \<open>remove_dir_all\<close> is not looked at: when /etc/passkey stays, so do keys and pairings, and the command
  says that it is done all the same.\<close>

lemma uninstall_unchecked:
  assumes "\<not> r_etc_gone w" and "fst (remove_each (r_stack_written w) services (stacks s))"
  shows "fst (uninstall w s) \<and> the_desk (snd (uninstall w s)) = the_desk s \<and> pairings (snd (uninstall w s)) = pairings s"
  using assms by (simp add: uninstall_def Let_def split_def)

lemma not_registered_ignored:
  assumes "keys_path (read_args (default_helper e) argv) = Some path"
    and "\<And>user. \<not> user_registered user (texts e path)"
  shows "authenticate e argv ts = Some (PAM_IGNORE, [])"
  using assms by (simp add: authenticate_def Let_def split: option.splits)

definition sample_root :: root_world where
  "sample_root = \<lparr>r_v6 = full_v6,
     r_session = (\<lambda>p. \<lparr>tls_up = True, digest = Some (pin p), room = 100,
        incoming = [0, 0, 0, 1, 0x22, 0, 2, 0x4D, 0x65], settled = True\<rparr>),
     r_pid = 7, r_profile_written = True, r_profile_renamed = True, r_pam_dir = True, r_uhid = True, r_systemd = True,
     r_drop_in_written = True, r_reloaded = True, r_enabled = True, r_stack_written = (\<lambda>_. True),
     r_stack_marked = (\<lambda>_. True), r_host = ''pc'', r_module_there = True, r_takes_password = True,
     r_use_changed = True, r_keys_written = True, r_names_written = True, r_drop_in_gone = True, r_etc_gone = True\<rparr>"

definition bare_machine :: machine where
  "bare_machine = \<lparr>is_dir = (\<lambda>_. False), is_file = (\<lambda>_. False), search_path = None, os_release = None,
     euid_root = False, bluetooth_active = False, login = Some ''me'', own_exe = None\<rparr>"

definition sample_user :: user_world where
  "sample_user = \<lparr>is_root = False, sudo_ok = True, as_root = sample_root, machine = bare_machine, me = Some ''me'',
     adding = sample_add\<rparr>"

definition sample_system :: system where
  "sample_system = \<lparr>the_desk = empty_desk, pairings = [], stacks = sample_files, drop_in = None\<rparr>"

section \<open>Properties\<close>

text \<open>C5: Nothing the program keeps on the machine changes without root: whatever command is run, with
  whatever arguments and input, by someone who is not root and whom sudo refuses, the registry, the chosen device,
  the pairings, the PAM stacks and the drop-in stay what they were; and an internal command run without root
  is refused even when sudo would have let it through.\<close>

theorem nothing_without_root:
  assumes "\<not> is_root u"
  shows "(\<not> sudo_ok u \<longrightarrow> snd (run_command u command args input s) = s)
    \<and> (command \<in> set root_commands \<longrightarrow> run_command u command args input s = (Not_Root, s))"
proof -
  have "run_command u command args input s = (Not_Root, s)" if "command \<in> set root_commands"
    using that assms by (auto simp: run_command_def root_commands_def)
  moreover have "snd (run_command u command args input s) = s" if "\<not> sudo_ok u"
  proof -
    have "\<not> may_root u" using assms that by (simp add: may_root_def)
    then show ?thesis
      using assms add_command_refused wifi_command_refused remove_command_refused
      by (simp add: run_command_def privileged_refused)
  qed
  ultimately show ?thesis by blast
qed

theorem nothing_without_root_witness:
  "run_command sample_user ''root-uninstall'' [] [] sample_system = (Not_Root, sample_system)
    \<and> snd (run_command (sample_user\<lparr>sudo_ok := False\<rparr>) ''uninstall'' [] [] sample_system) = sample_system"
  using nothing_without_root [of sample_user "''root-uninstall''" "[]" "[]" sample_system]
    nothing_without_root [of "sample_user\<lparr>sudo_ok := False\<rparr>" "''uninstall''" "[]" "[]" sample_system]
  by (simp add: sample_user_def root_commands_def)

text \<open>C17: Pairing by Wi-Fi stores exactly the phone whose code was pasted: when \<open>passkey wifi add\<close> succeeds, the
  code and the address typed were a phone's, the certificate seen on the connection was the one the code
  names, and the profiles root's side stores (having read them back from the text sent to it) are the
  old ones with this phone in place of its earlier address; nothing else the program keeps changes.\<close>

theorem wifi_add_pairs:
  assumes "run_command u ''wifi'' [''add'', addr] input s = (Done, s')" and "dir_ok (r_v6 (as_root u)) (pairings s)"
  shows "\<exists>p ps. peer_parse (r_v6 (as_root u)) addr (pairing_input input) = Some p
    \<and> local_ip (ip (address p)) \<and> digest (r_session (as_root u) p) = Some (pin p)
    \<and> load_from (r_v6 (as_root u)) (pairings s') = Some ps
    \<and> set ps = insert p {q \<in> profiles (r_v6 (as_root u)) (pairings s). pin q \<noteq> pin p}
    \<and> s' = s\<lparr>pairings := pairings s'\<rparr>"
proof -
  have v: "v6_ok (r_v6 (as_root u))" using assms(2) by (simp add: dir_ok_def)
  have "wifi_command u [''add'', addr] input s = (Done, s')"
    using assms(1) by (simp add: run_command_def)
  from wifi_add_done [OF v this] obtain p where p: "peer_parse (r_v6 (as_root u)) addr (pairing_input input) = Some p"
    "peer_ok p" "digest (r_session (as_root u) p) = Some (pin p)"
    "s' = s\<lparr>pairings := saved (r_v6 (as_root u)) p (pairings s)\<rparr>" by blast
  have "load_from (r_v6 (as_root u)) (pairings s')
      = Some (List.map_filter (profile_of (r_v6 (as_root u))) (pairings s'))"
    using saved_ok(1) [OF assms(2) p(2)] p(4) by (simp add: load_from_profiles)
  moreover have "set (List.map_filter (profile_of (r_v6 (as_root u))) (pairings s'))
      = insert p {q \<in> profiles (r_v6 (as_root u)) (pairings s). pin q \<noteq> pin p}"
    using saved_ok(2) [OF assms(2) p(2)] p(4) by (simp add: set_loaded)
  moreover have "local_ip (ip (address p))" using p(2) by (simp add: peer_ok_def)
  ultimately show ?thesis using p by (intro exI conjI) auto
qed

definition sample_code :: string where
  "sample_code = ''pk1:'' @ peer_id sample_peer @ '':'' @ hex (secret sample_peer) @ [NL]"

lemma pairing_input_line:
  "NL \<notin> set code \<Longrightarrow> length code < 256 \<Longrightarrow> trim code = code \<Longrightarrow> pairing_input (code @ [NL]) = code"
  by (simp add: pairing_input_def takeWhile_append)

lemma sample_input: "pairing_input sample_code = ''pk1:'' @ peer_id sample_peer @ '':'' @ hex (secret sample_peer)"
proof -
  define p where "p = pin sample_peer"
  define x where "x = secret sample_peer"
  have len: "length p = 32" "length x = 32" using sample_peer_ok by (simp_all add: p_def x_def peer_ok_def)
  have e: "sample_code = (''pk1:'' @ hex p @ '':'' @ hex x) @ [NL]"
    by (simp add: sample_code_def peer_id_def p_def x_def)
  have "NL \<notin> set (hex y)" for y using hex_chars [of NL y] by (auto simp: word_char_def ascii_space_def)
  then have "NL \<notin> set (''pk1:'' @ hex p @ '':'' @ hex x)" by simp
  then show ?thesis
    unfolding e peer_id_def p_def [symmetric] x_def [symmetric]
    by (rule pairing_input_line) (simp add: len, rule code_words(1) [OF len(2)])
qed

lemma sample_pairing:
  "peer_parse full_v6 (show_socket full_v6 (address sample_peer)) (pairing_input sample_code) = Some sample_peer"
  "fst (run_command sample_user ''wifi'' [''add'', show_socket full_v6 (address sample_peer)] sample_code sample_system) = Done"
proof -
  show p: "peer_parse full_v6 (show_socket full_v6 (address sample_peer)) (pairing_input sample_code) = Some sample_peer"
    unfolding sample_input by (rule peer_parse_show [OF full_v6_ok sample_peer_ok])
  have e: "endpoint full_v6 (show_socket full_v6 (address sample_peer)) = Some (address sample_peer)"
    using sample_peer_ok by (simp add: endpoint_show full_v6_ok peer_ok_def)
  have l: "length (peer_encode full_v6 sample_peer) \<le> 512" using full_v6_ok sample_peer_ok by (rule encode_short)
  have v: "r_v6 sample_root = full_v6" "as_root sample_user = sample_root" "may_root sample_user"
    by (simp_all add: sample_root_def sample_user_def may_root_def)
  have c: "fst (connect sample_peer (r_session sample_root sample_peer)) = Inr ''Me (Wi-Fi)''" by code_simp
  have "fst (save full_v6 (r_pid sample_root) (r_profile_written sample_root) (r_profile_renamed sample_root) sample_peer
      (pairings sample_system))"
    by (simp add: save_result(2) sample_root_def sample_system_def)
  then have "fst (root_wifi_add sample_root (peer_encode full_v6 sample_peer) sample_system) = Done"
    using l peer_decode_encode [OF full_v6_ok sample_peer_ok] c by (simp add: root_wifi_add_def v split_def Let_def)
  then show "fst (run_command sample_user ''wifi'' [''add'', show_socket full_v6 (address sample_peer)] sample_code
      sample_system) = Done"
    by (simp add: run_command_def wifi_command_def v p e privileged_def root_command_def split_def Let_def)
qed

theorem wifi_add_pairs_witness:
  "\<exists>s' ps. run_command sample_user ''wifi'' [''add'', show_socket full_v6 (address sample_peer)] sample_code sample_system = (Done, s')
    \<and> load_from full_v6 (pairings s') = Some ps \<and> set ps = {sample_peer}"
proof -
  obtain s' where s: "run_command sample_user ''wifi'' [''add'', show_socket full_v6 (address sample_peer)] sample_code sample_system = (Done, s')"
    using sample_pairing(2) by (metis prod.collapse)
  have v: "r_v6 (as_root sample_user) = full_v6" by (simp add: sample_user_def sample_root_def)
  have e: "pairings sample_system = []" by (simp add: sample_system_def)
  have d: "dir_ok (r_v6 (as_root sample_user)) (pairings sample_system)"
    by (simp add: v e dir_ok_def full_v6_ok)
  obtain ps where "load_from full_v6 (pairings s') = Some ps" "set ps = {sample_peer}"
    using wifi_add_pairs [OF s d] unfolding v e sample_pairing(1) by (auto simp: profiles_def split: if_splits)
  with s show ?thesis by blast
qed

end
