(* ===== verification/System_Runs.thy ===== *)
theory System_Runs
  imports Commands
begin

text \<open>
  Every command of every user, one after the other (src/src/cli.rs: \<open>run\<close>): what holds of the files the
  program keeps after any number of them, with whatever steps of theirs failing, and what an uninstall then
  gives back.  A command is one step; commands that overlap in time are not considered.
\<close>

section \<open>The stacks\<close>

text \<open>A text with our lines in it, made from \<open>t0\<close>, which had none.\<close>

definition edited :: "string \<Rightarrow> string \<Rightarrow> bool" where
  "edited t0 t \<longleftrightarrow> plain_text t \<and> list_ex is_ours (str_lines t) \<and> str_lines t0 \<noteq> []
     \<and> filter (\<lambda>l. \<not> is_ours l) (str_lines t) = str_lines t0"

lemma edited_restored: "clean_text t0 \<Longrightarrow> edited t0 t \<Longrightarrow> restored_text t = t0"
  using plain_text_lines [of t0] by (simp add: edited_def clean_text_def restored_text_def unlines_join)

lemma edited_added:
  assumes "clean_text t0" and "line_ok wanted" and "snd (add_lines wanted (str_lines t0) [] False)"
  shows "edited t0 (added_text wanted t0)"
proof -
  have p: "plain_text t0" and c: "\<forall>l\<in>set (str_lines t0). \<not> is_ours l"
    using assms(1) by (simp_all add: clean_text_def)
  have n: "wanted \<notin> set (str_lines t0)" using c assms(2) by (auto simp: line_ok_def)
  have l: "str_lines (added_text wanted t0) = fst (add_lines wanted (str_lines t0) [] False)"
    using str_lines_added [OF p assms(2) n assms(3)] .
  have "plain_line x" if "x \<in> set (fst (add_lines wanted (str_lines t0) [] False))" for x
    using that set_add_lines [of wanted "str_lines t0" "[]" False] plain_text_lines [OF p] assms(2) MARK_plain
    by (auto simp: line_ok_def)
  moreover have "added_text wanted t0 = unlines (fst (add_lines wanted (str_lines t0) [] False))"
    using n assms(3) by (simp add: added_text_def)
  ultimately have "plain_text (added_text wanted t0)" unfolding plain_text_def by blast
  moreover have "str_lines t0 \<noteq> []" using assms(3) by auto
  ultimately show ?thesis
    using added_ours [OF assms] added_text_foreign [OF p assms(2)] c
    by (simp add: edited_def filter_id_conv)
qed

lemma edited_twice:
  assumes "edited t0 t" and "line_ok wanted"
  shows "edited t0 (added_text wanted t)"
proof (cases "added_text wanted t = t")
  case False
  have p: "plain_text t" using assms(1) by (simp add: edited_def)
  have s: "wanted \<notin> set (str_lines t)" "snd (add_lines wanted (str_lines t) [] False)"
    using False by (auto simp: added_text_def split: if_splits)
  have l: "str_lines (added_text wanted t) = fst (add_lines wanted (str_lines t) [] False)"
    using str_lines_added [OF p assms(2) s] .
  have "plain_line x" if "x \<in> set (fst (add_lines wanted (str_lines t) [] False))" for x
    using that set_add_lines [of wanted "str_lines t" "[]" False] plain_text_lines [OF p] assms(2) MARK_plain
    by (auto simp: line_ok_def)
  moreover have "added_text wanted t = unlines (fst (add_lines wanted (str_lines t) [] False))"
    using s by (simp add: added_text_def)
  ultimately have "plain_text (added_text wanted t)" unfolding plain_text_def by blast
  moreover have "wanted \<in> set (str_lines (added_text wanted t))"
    using add_lines_wanted [of False wanted "[]" "str_lines t"] s(2) assms(2) unfolding l by (simp add: line_ok_def)
  ultimately show ?thesis
    using assms added_text_foreign [OF p assms(2)] by (auto simp: edited_def list_ex_iff line_ok_def)
qed (use assms in simp)

text \<open>A service is as it was at first, or edited and marked as a copy exactly when it was one.\<close>

definition kept_service :: "pam_files \<Rightarrow> string \<Rightarrow> pam_files \<Rightarrow> bool" where
  "kept_service fs0 s fs \<longleftrightarrow> vendor fs s = vendor fs0 s
     \<and> (etc fs s = etc fs0 s \<and> s \<notin> copied fs
        \<or> (\<exists>t0 t. source_text fs0 s = Some t0 \<and> etc fs s = Some t \<and> edited t0 t
             \<and> (s \<in> copied fs \<longleftrightarrow> etc fs0 s = None)))"

lemma kept_cases [consumes 1, case_names same edited]:
  assumes "kept_service fs0 s fs"
  obtains "vendor fs s = vendor fs0 s" "etc fs s = etc fs0 s" "s \<notin> copied fs"
  | t0 t where "vendor fs s = vendor fs0 s" "source_text fs0 s = Some t0" "etc fs s = Some t" "edited t0 t"
      "(s \<in> copied fs) = (etc fs0 s = None)"
  using assms unfolding kept_service_def by (elim conjE disjE exE) simp_all

lemma kept_start: "clean_service fs0 s \<Longrightarrow> kept_service fs0 s fs0"
  by (simp add: kept_service_def clean_service_def)

lemma kept_other:
  "etc g s = etc f s \<Longrightarrow> vendor g s = vendor f s \<Longrightarrow> (s \<in> copied g) = (s \<in> copied f)
    \<Longrightarrow> kept_service fs0 s g = kept_service fs0 s f"
  by (simp add: kept_service_def)

lemma kept_add_own:
  assumes "clean_service fs0 s" and "kept_service fs0 s fs" and "line_ok wanted"
  shows "kept_service fs0 s (snd (pam_add True True wanted s fs))"
  using assms(2)
proof (cases rule: kept_cases)
  case same
  have edit: "snd (add_lines wanted (str_lines t0) [] False) \<Longrightarrow> source_text fs0 s = Some t0
      \<Longrightarrow> edited t0 (added_text wanted t0)" for t0
    using edited_added assms(1,3) by (simp add: clean_service_def)
  show ?thesis
  proof (cases "etc fs s")
    case (Some t)
    then have src: "source_text fs0 s = Some t" using same by (simp add: source_text_def)
    show ?thesis
    proof (cases "added_text wanted t = t")
      case True
      then show ?thesis using pam_add_etc [of fs s t wanted] Some same by (simp add: kept_service_def)
    next
      case False
      then have "snd (add_lines wanted (str_lines t) [] False)" by (auto simp: added_text_def split: if_splits)
      from edit [OF this src] show ?thesis
        using pam_add_etc [of fs s t wanted] Some same src by (simp add: kept_service_def)
    qed
  next
    case none: None
    show ?thesis
    proof (cases "vendor fs s")
      case None
      then show ?thesis using none same by (simp add: pam_add_def kept_service_def)
    next
      case (Some t)
      then have src: "source_text fs0 s = Some t" using same none by (simp add: source_text_def)
      show ?thesis
        using pam_add_vendor [OF none Some, of wanted] edit [OF _ src] same src none
        by (auto simp: kept_service_def)
    qed
  qed
next
  case (edited t0 t)
  then show ?thesis
    using pam_add_etc [of fs s t wanted] edited_twice [of t0 t wanted] assms(3) by (simp add: kept_service_def)
qed

lemma kept_add:
  assumes "clean_service fs0 s" and "kept_service fs0 s fs" and "line_ok wanted"
  shows "kept_service fs0 s (snd (pam_add written True wanted s' fs))"
proof (cases "s' = s")
  case True
  then show ?thesis using pam_add_written [of written wanted s fs] kept_add_own [OF assms] assms(2) by auto
next
  case False
  then show ?thesis
    using add_other [of s' s written True wanted fs] kept_other [of "snd (pam_add written True wanted s' fs)" s fs] assms(2)
    by auto
qed

lemma kept_removal:
  assumes "clean_service fs0 s" and "kept_service fs0 s fs"
  shows "removal (etc fs s) (vendor fs s) (s \<in> copied fs)
    = (if etc fs s = etc fs0 s \<and> s \<notin> copied fs then None else Some (etc fs0 s))"
  using assms(2)
proof (cases rule: kept_cases)
  case same
  moreover have "\<not> list_ex is_ours (str_lines t)" if "etc fs0 s = Some t" for t
    using that assms(1) by (auto simp: clean_service_def source_text_def clean_text_def list_ex_iff)
  ultimately show ?thesis by (auto simp: removal_def split: option.split)
next
  case a: (edited t0 t)
  have c: "clean_text t0" using assms(1) a(2) by (simp add: clean_service_def)
  have ours: "list_ex is_ours (str_lines t)" using a(4) by (simp add: edited_def)
  have "t \<noteq> t0" using ours c by (auto simp: clean_text_def list_ex_iff)
  with a c edited_restored [OF c a(4)] ours show ?thesis
    by (cases "etc fs0 s") (auto simp: removal_def source_text_def)
qed

lemma kept_remove_own:
  assumes "clean_service fs0 s" and "kept_service fs0 s fs"
  shows "kept_service fs0 s (snd (pam_remove w s fs))"
    and "fst (pam_remove w s fs) \<Longrightarrow> etc (snd (pam_remove w s fs)) s = etc fs0 s \<and> s \<notin> copied (snd (pam_remove w s fs))"
    and "w \<Longrightarrow> fst (pam_remove w s fs)"
  using assms(2) unfolding pam_remove_form kept_removal [OF assms]
  by (auto simp: put_back_def kept_service_def split: option.splits if_splits)

lemma remove_other:
  "s' \<noteq> s \<Longrightarrow> etc (snd (pam_remove w s' fs)) s = etc fs s
    \<and> vendor (snd (pam_remove w s' fs)) s = vendor fs s
    \<and> (s \<in> copied (snd (pam_remove w s' fs))) = (s \<in> copied fs)"
  by (simp add: pam_remove_form put_back_def split: option.splits)

lemma kept_remove:
  assumes "clean_service fs0 s" and "kept_service fs0 s fs"
  shows "kept_service fs0 s (snd (pam_remove w s' fs))"
proof (cases "s' = s")
  case False
  then show ?thesis using remove_other [OF False, of w fs] kept_other assms(2) by blast
qed (use kept_remove_own(1) [OF assms] in simp)

lemma kept_add_each:
  assumes "clean_service fs0 s" and "\<And>x. line_ok (line x)"
  shows "kept_service fs0 s fs \<Longrightarrow> kept_service fs0 s (snd (add_each written (\<lambda>_. True) line ss fs))"
  by (induction ss arbitrary: fs) (auto simp: Let_def split_def kept_add [OF assms(1)] assms(2))

lemma kept_remove_each:
  assumes "clean_service fs0 s"
  shows "kept_service fs0 s fs \<Longrightarrow> kept_service fs0 s (snd (remove_each written ss fs))"
  by (induction ss arbitrary: fs) (auto simp: Let_def split_def kept_remove [OF assms])

text \<open>What \<open>remove_each\<close> leaves when it reports no failure: every service as it was.\<close>

lemma remove_each_other:
  "s \<notin> set ss \<Longrightarrow> etc (snd (remove_each written ss fs)) s = etc fs s
    \<and> (s \<in> copied (snd (remove_each written ss fs))) = (s \<in> copied fs)"
proof (induction ss arbitrary: fs)
  case (Cons s' ss)
  then show ?case using remove_other [of s' s "written s'" fs] by (auto simp: Let_def split_def)
qed simp

lemma remove_each_restores:
  assumes "\<And>x. x \<in> set ss \<Longrightarrow> clean_service fs0 x"
  shows "distinct ss \<Longrightarrow> s \<in> set ss \<Longrightarrow> kept_service fs0 s fs \<Longrightarrow> fst (remove_each written ss fs) \<Longrightarrow>
    etc (snd (remove_each written ss fs)) s = etc fs0 s \<and> s \<notin> copied (snd (remove_each written ss fs))"
  using assms
proof (induction ss arbitrary: fs)
  case (Cons s' ss)
  let ?fs = "snd (pam_remove (written s') s' fs)"
  have c: "clean_service fs0 s" using Cons.prems by blast
  have ok: "fst (pam_remove (written s') s' fs)" "fst (remove_each written ss ?fs)"
    and r: "snd (remove_each written (s' # ss) fs) = snd (remove_each written ss ?fs)"
    using Cons.prems(4) by (auto simp: Let_def split_def split: if_splits)
  show ?case
  proof (cases "s = s'")
    case True
    then have "s \<notin> set ss" using Cons.prems(1) by simp
    then show ?thesis
      using remove_each_other [of s ss written ?fs] kept_remove_own(2) [OF c Cons.prems(3)] ok(1) True
      unfolding r by simp
  next
    case False
    then have "s \<in> set ss" using Cons.prems(2) by simp
    then show ?thesis
      using Cons.IH [of ?fs] Cons.prems kept_remove [OF c Cons.prems(3)] ok(2) unfolding r by simp
  qed
qed simp

lemma remove_each_succeeds:
  assumes "\<And>x. x \<in> set ss \<Longrightarrow> clean_service fs0 x"
  shows "\<forall>x\<in>set ss. kept_service fs0 x fs \<Longrightarrow> fst (remove_each (\<lambda>_. True) ss fs)"
  using assms
proof (induction ss arbitrary: fs)
  case (Cons s ss)
  have "kept_service fs0 x (snd (pam_remove True s fs))" if "x \<in> set ss" for x
    using Cons.prems that kept_remove [of fs0 x fs True s] by simp
  then show ?case
    using Cons.IH [of "snd (pam_remove True s fs)"] Cons.prems kept_remove_own(3) [of fs0 s fs True]
    by (auto simp: Let_def split_def)
qed simp

section \<open>The registry\<close>

lemma registry_mix: "registry_ok a \<Longrightarrow> registry_ok b \<Longrightarrow> registry_ok (b\<lparr>keys_file := keys_file a\<rparr>)"
  by (simp add: registry_ok_def key_lines_def)

lemma store_ok:
  assumes "registry_ok reg" and "user_ok user" and "entry_ok entry" and "name_ok name"
  shows "registry_ok (snd (root_store kw nw user (store_input entry name) reg))"
proof -
  have st: "Registry.stored name user entry reg = snd (root_store True True user (store_input entry name) reg)"
    by (simp add: Registry.stored_def)
  have "snd (root_store kw nw user (store_input entry name) reg)
      \<in> {reg, reg\<lparr>keys_file := keys_file (Registry.stored name user entry reg)\<rparr>, Registry.stored name user entry reg}"
    unfolding st root_store_lines [OF assms(3,4)] by (simp add: Let_def)
  then show ?thesis using stored_ok [OF assms] registry_mix [OF stored_ok [OF assms] assms(1)] assms(1) by auto
qed

lemma remove_ok:
  assumes "registry_ok reg" and "user_ok user"
  shows "registry_ok (snd (root_remove kw nw user handle reg))"
proof (cases "keys_file reg")
  case None
  then show ?thesis using assms by (simp add: root_remove_def)
next
  case (Some keys)
  have "snd (root_remove kw nw user handle reg)
      \<in> {reg, reg\<lparr>keys_file := keys_file (removed user handle reg)\<rparr>, removed user handle reg}"
    by (simp add: root_remove_def removed_def Some Let_def)
  then show ?thesis using removed_ok [OF assms] registry_mix [OF removed_ok [OF assms] assms(1)] assms(1) by auto
qed

text \<open>What pamu2fcfg prints, if it prints a credential at all: one entry.\<close>

definition made_ok :: "string option \<Rightarrow> bool" where
  "made_ok m \<longleftrightarrow> (case m of None \<Rightarrow> True | Some printed \<Rightarrow>
     credential_ok (trim printed) \<longrightarrow> (\<exists>entry. trim printed = CHR '':'' # entry \<and> entry_ok entry))"

lemma register_ok:
  assumes "registry_ok reg" and "user_ok user" and "made_ok (made w)"
  shows "registry_ok (snd (register w user label reg))"
proof -
  obtain r reg' where reg: "register w user label reg = (r, reg')" by fastforce
  show ?thesis
  proof (cases "reg' = reg")
    case False
    then obtain name printed where n: "made w = Some printed" "name_ok name"
      and e: "(r, reg') = (case root_store (keys_taken w) (names_taken w) user (trim printed @ NL # name @ [NL]) reg of
             (None, reg1) \<Rightarrow> (Inr name, reg1) | (Some _, reg1) \<Rightarrow> (Inl NotStored, reg1))"
      using register_cases [OF reg] by blast
    have r': "reg' = snd (root_store (keys_taken w) (names_taken w) user (trim printed @ NL # name @ [NL]) reg)"
      using e by (auto split: prod.splits option.splits)
    have "credential_ok (trim printed)"
      using reg n(1) False by (auto simp: register_def Let_def split: option.splits if_splits)
    with assms(3) n(1) obtain entry where "trim printed = CHR '':'' # entry" "entry_ok entry"
      by (auto simp: made_ok_def)
    then show ?thesis
      using store_ok [OF assms(1,2) _ n(2), of entry "keys_taken w" "names_taken w"] reg r' by (simp add: store_input_eq)
  qed (use assms reg in simp)
qed

lemma enroll_ok:
  assumes "enroll w s = Some (r, s')" and "registry_ok (registered s)" and "made_ok (made w)"
    and "\<And>user. cur_user w = Some user \<Longrightarrow> user_ok user"
  shows "registry_ok (registered s')"
proof -
  have reg: "registry_ok reg'" if "register w user label (registered s) = (r', reg')" "cur_user w = Some user"
    for user label r' reg'
    using register_ok [OF assms(2) assms(4) [OF that(2)] assms(3), of label] that(1) by simp
  show ?thesis
    using assms(1,2) reg
    by (auto simp: enroll_def clear_use_def Let_def split: option.splits if_splits bool.splits sum.splits prod.splits)
qed

section \<open>One command\<close>

text \<open>The commands of people: the internal ones are run by these only.  Host names have no line break, the
  marks of copied stacks are written, pamu2fcfg prints entries, and the account has a plain name.\<close>

definition fair_root :: "v6_text \<Rightarrow> root_world \<Rightarrow> bool" where
  "fair_root v6 w \<longleftrightarrow> r_v6 w = v6 \<and> NL \<notin> set (r_host w) \<and> r_stack_marked w = (\<lambda>_. True)"

definition fair :: "v6_text \<Rightarrow> user_world \<Rightarrow> bool" where
  "fair v6 u \<longleftrightarrow> fair_root v6 (as_root u) \<and> made_ok (made (adding u)) \<and> (\<forall>user. me u = Some user \<longrightarrow> user_ok user)"

text \<open>What holds of the system: relative to the stacks \<open>fs0\<close> of the beginning.\<close>

definition system_ok :: "v6_text \<Rightarrow> pam_files \<Rightarrow> system \<Rightarrow> bool" where
  "system_ok v6 fs0 s \<longleftrightarrow> registry_ok (registered (the_desk s)) \<and> dir_ok v6 (pairings s)
     \<and> (\<forall>x\<in>set services. kept_service fs0 x (stacks s))"

definition clean_start :: "pam_files \<Rightarrow> bool" where
  "clean_start fs0 \<longleftrightarrow> (\<forall>x\<in>set services. clean_service fs0 x)"

lemma configure_ok:
  assumes "clean_start fs0" and "system_ok v6 fs0 s" and "fair_root v6 w"
  shows "system_ok v6 fs0 (snd (configure w user s))"
proof -
  have line: "line_ok (pam_line (r_host w) a b x)" for a b x
    using assms(3) by (simp add: fair_root_def pam_line_ok)
  have "kept_service fs0 x (stacks (snd (configure w user s)))" if "x \<in> set services" for x
    using configure_stacks [of w user s] kept_add_each [of fs0 x
        "pam_line (r_host w) (r_module_there w) (r_takes_password w)" "stacks s" "r_stack_written w" services, OF _ line]
      assms that
    by (auto simp: system_ok_def clean_start_def fair_root_def)
  moreover have "the_desk (snd (configure w user s)) = the_desk s" "pairings (snd (configure w user s)) = pairings s"
    by (simp_all add: configure_def Let_def split_def)
  ultimately show ?thesis using assms(2) by (simp add: system_ok_def)
qed

lemma uninstall_ok:
  assumes "clean_start fs0" and "system_ok v6 fs0 s" and "v6_ok v6"
  shows "system_ok v6 fs0 (snd (uninstall w s))"
proof -
  let ?fs = "snd (remove_each (r_stack_written w) services (stacks s))"
  have k: "kept_service fs0 x ?fs" if "x \<in> set services" for x
    using kept_remove_each assms(1,2) that by (simp add: system_ok_def clean_start_def)
  have emptied: "kept_service fs0 x (?fs\<lparr>copied := {}\<rparr>)"
    if "x \<in> set services" "fst (remove_each (r_stack_written w) services (stacks s))" for x
  proof -
    have "etc ?fs x = etc fs0 x"
      using remove_each_restores [of services fs0 x "stacks s"] assms(1,2) that distinct_services
      by (simp add: system_ok_def clean_start_def)
    then show ?thesis using k [OF that(1)] by (simp add: kept_service_def)
  qed
  have "registry_ok \<lparr>keys_file = None, names_file = None\<rparr>" "dir_ok v6 []"
    using no_keys_ok assms(3) by (simp_all add: no_keys_def dir_ok_def)
  then show ?thesis
    using assms(2) k emptied by (simp add: system_ok_def uninstall_def Let_def split_def)
qed

lemma save_dir_ok:
  assumes "dir_ok v6 dir" and "peer_ok p"
  shows "dir_ok v6 (snd (save v6 pid written renamed p dir))"
  using save_result(1) [of v6 pid written renamed p dir] saved_ok(1) [OF assms] dir_ok_without [OF assms(1)] assms(1)
  by auto

lemma wifi_add_ok:
  assumes "system_ok v6 fs0 s" and "r_v6 w = v6"
  shows "system_ok v6 fs0 (snd (root_wifi_add w input s))"
proof -
  have d: "dir_ok v6 (pairings s)" "v6_ok v6" using assms(1) by (simp_all add: system_ok_def dir_ok_def)
  have "dir_ok v6 (snd (save v6 (r_pid w) (r_profile_written w) (r_profile_renamed w) p (pairings s)))"
    if "peer_decode v6 (take 513 input) = Some p" for p
    using save_dir_ok [OF d(1) peer_decode_ok [OF d(2) that]] .
  then show ?thesis
    using assms by (auto simp: root_wifi_add_def system_ok_def Let_def split_def split: option.split sum.split)
qed

lemma remove_peer_ok:
  assumes "dir_ok v6 dir"
  shows "dir_ok v6 (snd (remove_peer v6 addr dir))"
proof (cases "endpoint v6 addr")
  case (Some a)
  then show ?thesis using remove_peer_result(1) [OF assms Some] unpaired_ok(1) [OF assms] by simp
qed (use assms in \<open>simp add: remove_peer_def\<close>)

lemma privileged_snd:
  "snd (privileged u command args input s) = (if may_root u then snd (root_command (as_root u) command args input s) else s)"
  by (simp add: privileged_def Let_def split_def)

lemma privileged_ok:
  assumes "may_root u \<Longrightarrow> system_ok v6 fs0 (snd (root_command (as_root u) command args input s))" and "system_ok v6 fs0 s"
  shows "system_ok v6 fs0 (snd (privileged u command args input s))"
  using assms by (simp add: privileged_snd)

lemma wifi_command_ok:
  assumes "system_ok v6 fs0 s" and "fair v6 u"
  shows "system_ok v6 fs0 (snd (wifi_command u args input s))"
proof -
  have w: "r_v6 (as_root u) = v6" using assms(2) by (simp add: fair_def fair_root_def)
  have "system_ok v6 fs0 (snd (root_command (as_root u) ''root-wifi-remove'' [addr] [] s))" for addr
    using assms(1) remove_peer_ok [of v6 "pairings s" addr] by (simp add: root_command_def w system_ok_def Let_def split_def)
  moreover have "system_ok v6 fs0 (snd (root_command (as_root u) ''root-wifi-add'' [] x s))" for x
    using wifi_add_ok [OF assms(1) w] by (simp add: root_command_def)
  moreover have "system_ok v6 fs0 (snd (root_command (as_root u) ''root-wifi-list'' [] [] s))"
    using assms(1) by (simp add: root_command_def)
  ultimately have p: "system_ok v6 fs0 (snd (privileged u ''root-wifi-add'' [] x s))"
    "system_ok v6 fs0 (snd (privileged u ''root-wifi-list'' [] [] s))"
    "system_ok v6 fs0 (snd (privileged u ''root-wifi-remove'' [addr] [] s))" for x addr
    using assms(1) by (simp_all add: privileged_ok)
  show ?thesis using assms(1) p by (auto simp: wifi_command_def split: list.split option.split)
qed

lemma add_command_ok:
  assumes "clean_start fs0" and "system_ok v6 fs0 s" and "fair v6 u"
  shows "system_ok v6 fs0 (snd (add_command u args s))"
proof (cases "me u")
  case (Some user)
  have f: "fair_root v6 (as_root u)" "made_ok (made (adding u))" "user_ok user"
    using assms(3) Some by (simp_all add: fair_def)
  let ?p = "privileged u ''root-configure'' [user] [] s"
  have c: "system_ok v6 fs0 (snd ?p)"
    using configure_ok [OF assms(1,2) f(1), of user] assms(2)
    by (intro privileged_ok) (simp_all add: root_command_def Let_def split_def)
  have e: "system_ok v6 fs0 ((snd ?p)\<lparr>the_desk := d\<rparr>)"
    if "enroll (add_world_for u args user) (the_desk (snd ?p)) = Some (r, d)" for r d
  proof -
    have "registry_ok (registered d)"
      using enroll_ok [OF that] c f(2,3) by (simp add: system_ok_def add_world_for_def Let_def)
    with c show ?thesis by (simp add: system_ok_def)
  qed
  show ?thesis
    using c e assms(2) Some by (auto simp: add_command_def Let_def split_def split: option.split sum.split)
qed (use assms in \<open>simp add: add_command_def\<close>)

lemma remove_command_ok:
  assumes "system_ok v6 fs0 s" and "fair v6 u"
  shows "system_ok v6 fs0 (snd (remove_command u args s))"
proof -
  have "system_ok v6 fs0 (snd (privileged u ''root-remove'' [user, handle] [] s))" if "me u = Some user" for user handle
  proof (rule privileged_ok [OF _ assms(1)])
    have u: "user_ok user" using assms(2) that by (simp add: fair_def)
    have "registry_ok (registered (the_desk s))" using assms(1) by (simp add: system_ok_def)
    from remove_ok [OF this u] show "system_ok v6 fs0 (snd (root_command (as_root u) ''root-remove'' [user, handle] [] s))"
      using assms(1) by (simp add: root_command_def system_ok_def Let_def split_def)
  qed
  then show ?thesis using assms(1) by (auto simp: remove_command_def split: list.split option.split sum.split)
qed

lemma run_command_ok:
  assumes "clean_start fs0" and "system_ok v6 fs0 s" and "fair v6 u" and "command \<notin> set root_commands"
  shows "system_ok v6 fs0 (snd (run_command u command args input s))"
proof -
  have v: "v6_ok v6" using assms(2) by (simp add: system_ok_def dir_ok_def)
  have "system_ok v6 fs0 (snd (privileged u ''root-uninstall'' [] [] s))"
    using uninstall_ok [OF assms(1,2) v] assms(2)
    by (intro privileged_ok) (simp_all add: root_command_def Let_def split_def)
  then show ?thesis
    using assms add_command_ok [OF assms(1-3)] wifi_command_ok [OF assms(2,3)] remove_command_ok [OF assms(2,3)]
    by (simp add: run_command_def)
qed

section \<open>Runs\<close>

inductive system_run :: "v6_text \<Rightarrow> pam_files \<Rightarrow> system \<Rightarrow> bool" for v6 fs0 where
  start: "stacks s = fs0 \<Longrightarrow> registered (the_desk s) = no_keys \<Longrightarrow> pairings s = [] \<Longrightarrow> system_run v6 fs0 s"
| command: "system_run v6 fs0 s \<Longrightarrow> fair v6 u \<Longrightarrow> command \<notin> set root_commands
    \<Longrightarrow> system_run v6 fs0 (snd (run_command u command args input s))"

lemma system_run_ok:
  assumes "clean_start fs0" and "v6_ok v6"
  shows "system_run v6 fs0 s \<Longrightarrow> system_ok v6 fs0 s"
proof (induction rule: system_run.induct)
  case (start s)
  then show ?case
    using assms by (simp add: system_ok_def clean_start_def kept_start no_keys_ok dir_ok_def)
next
  case (command s u command args input)
  then show ?case using run_command_ok [OF assms(1)] by blast
qed

section \<open>Properties\<close>


lemma sample_fair: "fair full_v6 sample_user"
proof -
  have "trim (CHR '':'' # sample_entry @ [NL]) = CHR '':'' # sample_entry" by code_simp
  then have "made_ok (made sample_add)" using sample_ok(2) by (auto simp: made_ok_def sample_add_def)
  then show ?thesis using sample_ok(1) by (simp add: fair_def fair_root_def sample_user_def sample_root_def)
qed

lemma sample_start: "clean_start sample_files"
  by (simp add: clean_start_def sample_service)

lemma sample_run:
  "system_run full_v6 sample_files (snd (run_command sample_user ''wifi'' [''add'', show_socket full_v6 (address sample_peer)]
      sample_code sample_system))"
  by (intro system_run.intros sample_fair) (simp_all add: sample_system_def empty_desk_def root_commands_def)




end
