(* ===== verification/Adb.thy ===== *)
theory Adb
  imports Wifi
begin

text \<open>
  The USB transport's side of the adb server (src/src/daemon.rs: \<open>proc_tcp\<close>, \<open>adb_server_trusted\<close>,
  \<open>adb_peer_trusted\<close>, \<open>adb_request\<close>, \<open>adb_devices\<close>, \<open>adb_setting\<close>, \<open>adb_device_id\<close>,
  \<open>is_bt_address\<close>).  The kernel's table of connections is a text; what the server answers is a
  list of bytes.
\<close>

section \<open>Who is at the other end\<close>

definition upper_digit :: "nat \<Rightarrow> char" where
  "upper_digit n = (if n < 10 then char_of (48 + n) else char_of (55 + n))"

text \<open>\<open>{:0wX}\<close> and \<open>{:0wx}\<close> of a number below \<open>16 ^ w\<close>.\<close>

fun padded :: "(nat \<Rightarrow> char) \<Rightarrow> nat \<Rightarrow> nat \<Rightarrow> string" where
  "padded digit 0 n = []"
| "padded digit (Suc w) n = padded digit w (n div 16) @ [digit (n mod 16)]"

record tcp_row =
  row_local :: string
  row_remote :: string
  row_state :: string
  row_uid :: nat

definition tcp_row_of :: "string \<Rightarrow> tcp_row option" where
  "tcp_row_of line =
     (let fields = split_whitespace line in
      if length fields \<le> 7 then None
      else case parse_unsigned (2 ^ 32 - 1) (fields ! 7) of
          None \<Rightarrow> None
        | Some uid \<Rightarrow> Some \<lparr>row_local = fields ! 1, row_remote = fields ! 2, row_state = fields ! 3, row_uid = uid\<rparr>)"

definition proc_tcp :: "string option \<Rightarrow> tcp_row list option" where
  "proc_tcp file = map_option (\<lambda>text. List.map_filter tcp_row_of (drop 1 (str_lines text))) file"

text \<open>\<open>allowed_adb_uids\<close>; \<open>adb_user\<close> is the uid of the user named in the environment, if there is one.\<close>

definition allowed_adb_uids :: "nat \<Rightarrow> nat option \<Rightarrow> nat set" where
  "allowed_adb_uids euid adb_user = {0, euid} \<union> (case adb_user of None \<Rightarrow> {} | Some uid \<Rightarrow> {uid})"

definition adb_server_trusted :: "nat set \<Rightarrow> string option \<Rightarrow> bool" where
  "adb_server_trusted allowed file =
     (case proc_tcp file of
        None \<Rightarrow> False
      | Some rows \<Rightarrow> list_ex (\<lambda>row. (row_local row = ''0100007F:13AD'' \<or> row_local row = ''00000000:13AD'')
          \<and> row_state row = ''0A'' \<and> row_uid row \<in> allowed) rows)"

text \<open>The kernel prints an IPv4 address as a little-endian number.\<close>

definition tcp_end :: "u8 \<times> u8 \<times> u8 \<times> u8 \<Rightarrow> u16 \<Rightarrow> string" where
  "tcp_end octets p =
     (case octets of (a, b, c, d) \<Rightarrow> padded upper_digit 8 (le_dec [a, b, c, d]) @ '':'' @ padded upper_digit 4 (unat p))"

definition adb_peer_trusted :: "nat set \<Rightarrow> (socket_addr \<times> string option) option \<Rightarrow> bool" where
  "adb_peer_trusted allowed local =
     (case local of
        None \<Rightarrow> False
      | Some (here, file) \<Rightarrow>
          (case ip here of
             V6 _ _ _ _ _ _ _ _ \<Rightarrow> False
           | V4 a b c d \<Rightarrow>
               (case proc_tcp file of
                  None \<Rightarrow> False
                | Some rows \<Rightarrow> list_ex (\<lambda>row. row_local row = ''0100007F:13AD''
                    \<and> row_remote row = tcp_end (a, b, c, d) (port here) \<and> row_uid row \<in> allowed) rows)))"

section \<open>Requests\<close>

text \<open>The bytes of an ASCII text; sizes of services stay below 65536.\<close>

definition bytes_of :: "string \<Rightarrow> bytes" where
  "bytes_of s = map (\<lambda>c. word_of_nat (of_char c)) s"

definition adb_frame :: "string \<Rightarrow> bytes" where
  "adb_frame service = bytes_of (padded hex_digit 4 (length service) @ service)"

datatype adb_error = NoServer | Untrusted | NotWritten | Short | RejectedService

text \<open>\<open>adb_request\<close> on a connection: how many bytes it takes and what comes back; the rest of what comes
  back stays on the stream.  Without a stream it opens one, to a server that must be trusted.\<close>

definition adb_ask :: "string \<Rightarrow> nat \<Rightarrow> bytes \<Rightarrow> (adb_error + bytes) \<times> bytes" where
  "adb_ask service capacity answer =
     (let sent = take capacity (adb_frame service) in
      if length sent < length (adb_frame service) then (Inl NotWritten, sent)
      else if length answer < 4 then (Inl Short, sent)
      else if take 4 answer \<noteq> bytes_of ''OKAY'' then (Inl RejectedService, sent)
      else (Inr (drop 4 answer), sent))"

definition adb_request ::
    "nat set \<Rightarrow> (socket_addr \<times> string option) option \<Rightarrow> bool \<Rightarrow> string \<Rightarrow> nat \<Rightarrow> bytes \<Rightarrow> (adb_error + bytes) \<times> bytes" where
  "adb_request allowed local connected service capacity answer =
     (if \<not> connected then (Inl NoServer, [])
      else if \<not> adb_peer_trusted allowed local then (Inl Untrusted, [])
      else adb_ask service capacity answer)"

text \<open>\<open>from_str_radix(_, 16)\<close> on four characters, 0 when it fails.\<close>

definition hex_number :: "string \<Rightarrow> nat" where
  "hex_number s =
     (let ds = (if s \<noteq> [] \<and> hd s = CHR ''+'' then tl s else s) in
      if ds = [] \<or> \<not> list_all is_ascii_hexdigit ds then 0 else fold (\<lambda>c v. 16 * v + hex_value c) ds 0)"

text \<open>The serials in an answer: a length, then a line for each device, read as UTF-8 with
  \<open>String::from_utf8_lossy\<close>.\<close>

definition adb_serials :: "bytes \<Rightarrow> adb_error + string list" where
  "adb_serials bs =
     (if length bs < 4 then Inl Short
      else
        let n = hex_number (text_of (take 4 bs)) in
        if length bs < 4 + n then Inl Short
        else Inr (List.map_filter (strip_suffix (TAB # ''device'')) (str_lines (text_of (utf8_lossy (take n (drop 4 bs)))))))"

definition adb_devices ::
    "nat set \<Rightarrow> (socket_addr \<times> string option) option \<Rightarrow> bool \<Rightarrow> nat \<Rightarrow> bytes \<Rightarrow> (adb_error + string list) \<times> bytes" where
  "adb_devices allowed local connected capacity answer =
     (let (got, sent) = adb_request allowed local connected ''host:devices'' capacity answer
      in (case got of Inl e \<Rightarrow> Inl e | Inr bs \<Rightarrow> adb_serials bs, sent))"

section \<open>Names of devices\<close>

text \<open>What adb answers on one connection: the ends of the socket and the kernel's table, how much is taken of
  the first and of the second request, all bytes that come back, and whether the stream ends in time.\<close>

record adb_wire =
  aw_connected :: bool
  aw_allowed :: "nat set"
  aw_local :: "(socket_addr \<times> string option) option"
  aw_first :: nat
  aw_second :: nat
  aw_answer :: bytes
  aw_ends :: bool

text \<open>A request for a device, then one for a service of it, on the same connection; what comes back after
  both is left.\<close>

definition adb_service :: "adb_wire \<Rightarrow> string \<Rightarrow> string \<Rightarrow> adb_error + bytes" where
  "adb_service w serial service =
     (case fst (adb_request (aw_allowed w) (aw_local w) (aw_connected w) (''host:transport:'' @ serial) (aw_first w) (aw_answer w)) of
        Inl e \<Rightarrow> Inl e
      | Inr rest \<Rightarrow> fst (adb_ask service (aw_second w) rest))"

definition setting_value :: "string \<Rightarrow> string" where
  "setting_value printed = (if trim printed = ''null'' then [] else trim printed)"

definition adb_setting :: "adb_wire \<Rightarrow> string \<Rightarrow> string \<Rightarrow> adb_error + string" where
  "adb_setting w serial setting =
     (case adb_service w serial (''shell:settings get '' @ setting) of
        Inl e \<Rightarrow> Inl e
      | Inr out \<Rightarrow> if \<not> aw_ends w \<or> \<not> utf8_valid out then Inl Short else Inr (setting_value (text_of out)))"

definition or_default :: "'e + string \<Rightarrow> string" where
  "or_default r = (case r of Inl _ \<Rightarrow> [] | Inr s \<Rightarrow> s)"

definition upper_char :: "char \<Rightarrow> char" where
  "upper_char c = (let n = of_char c :: nat in if 97 \<le> n \<and> n \<le> 122 then char_of (n - 32) else c)"

text \<open>\<open>to_uppercase\<close>, as far as \<open>is_bt_address\<close> can tell: of the characters beyond ASCII only U+FB00, the ligature
  ff, becomes hexadecimal digits alone; with any other the text is no address, in either case.\<close>

fun upper_text :: "string \<Rightarrow> string" where
  "upper_text (a # b # c # s) =
     (if of_char a = (0xEF :: nat) \<and> of_char b = (0xAC :: nat) \<and> of_char c = (0x80 :: nat) then ''FF'' @ upper_text s
      else upper_char a # upper_text (b # c # s))"
| "upper_text s = map upper_char s"

definition is_bt_address :: "string \<Rightarrow> bool" where
  "is_bt_address value =
     (let fields = split_on CHR '':'' value
      in length fields = 6 \<and> list_all (\<lambda>field. length field = 2 \<and> list_all is_ascii_hexdigit field) fields)"

text \<open>\<open>adb_device_id\<close>: the Bluetooth address the phone knows of itself, if the setting could be read.\<close>

definition adb_device_id :: "adb_wire \<Rightarrow> string \<Rightarrow> string" where
  "adb_device_id w serial =
     (let address = upper_text (or_default (adb_setting w serial ''secure bluetooth_address''))
      in if is_bt_address address then address else ''usb:'' @ serial)"

text \<open>Of an ASCII text it is the upper case.\<close>

lemma upper_text_ascii: "\<forall>c\<in>set s. of_char c < (0x80 :: nat) \<Longrightarrow> upper_text s = map upper_char s"
  by (induction s rule: upper_text.induct) auto

section \<open>The kernel's table\<close>

lemma padded_inject:
  assumes "\<And>x y. x < 16 \<Longrightarrow> y < 16 \<Longrightarrow> digit x = digit y \<Longrightarrow> x = y"
  shows "n < 16 ^ w \<Longrightarrow> m < 16 ^ w \<Longrightarrow> padded digit w n = padded digit w m \<Longrightarrow> n = m"
proof (induction w arbitrary: n m)
  case (Suc w)
  then have "n div 16 = m div 16" by (simp add: less_mult_imp_div_less mult.commute)
  moreover have "n mod 16 = m mod 16" using Suc.prems(3) by (intro assms) simp_all
  ultimately show ?case by (metis div_mult_mod_eq)
qed simp

lemma upper_digit_value: "x < 16 \<Longrightarrow> hex_value (upper_digit x) = x"
  by (simp add: hex_value_def upper_digit_def Let_def)

lemma upper_digit_inject: "x < 16 \<Longrightarrow> y < 16 \<Longrightarrow> upper_digit x = upper_digit y \<Longrightarrow> x = y"
  by (metis upper_digit_value)

lemma length_padded [simp]: "length (padded digit w n) = w"
  by (induction w arbitrary: n) simp_all

text \<open>What a request on a connection that adb granted leaves.\<close>

lemma adb_ask_Inr:
  "fst (adb_ask service capacity answer) = Inr rest \<Longrightarrow> answer = bytes_of ''OKAY'' @ rest"
proof -
  assume "fst (adb_ask service capacity answer) = Inr rest"
  then have "take 4 answer = bytes_of ''OKAY''" "drop 4 answer = rest"
    by (auto simp: adb_ask_def Let_def split: if_splits)
  then show ?thesis using append_take_drop_id [of 4 answer] by simp
qed

lemma adb_service_Inr:
  assumes "adb_service w serial service = Inr rest"
  shows "adb_peer_trusted (aw_allowed w) (aw_local w)" and "aw_answer w = bytes_of ''OKAYOKAY'' @ rest"
proof -
  have "adb_peer_trusted (aw_allowed w) (aw_local w) \<and> (\<exists>r. aw_answer w = bytes_of ''OKAY'' @ r \<and> r = bytes_of ''OKAY'' @ rest)"
    using assms by (auto simp: adb_service_def adb_request_def split: sum.splits if_splits dest!: adb_ask_Inr)
  then show "adb_peer_trusted (aw_allowed w) (aw_local w)" "aw_answer w = bytes_of ''OKAYOKAY'' @ rest"
    by (auto simp: bytes_of_def)
qed

lemma adb_service_granted:
  assumes "aw_connected w" and "adb_peer_trusted (aw_allowed w) (aw_local w)" and "aw_answer w = bytes_of ''OKAYOKAY'' @ rest"
    and "length serial + 20 \<le> aw_first w" and "length service + 4 \<le> aw_second w"
  shows "adb_service w serial service = Inr rest"
proof -
  have a: "fst (adb_ask x n (bytes_of ''OKAY'' @ r)) = Inr r" if "length x + 4 \<le> n" for x n r
    using that by (simp add: adb_ask_def adb_frame_def bytes_of_def Let_def)
  have w: "aw_answer w = bytes_of ''OKAY'' @ bytes_of ''OKAY'' @ rest" using assms(3) by (simp add: bytes_of_def)
  show ?thesis
    using assms(1,2,4,5) by (simp add: adb_service_def adb_request_def w a)
qed

lemma octets_inject:
  assumes "le_dec [a, b, c, d] = le_dec [a', b', c', d']"
  shows "[a, b, c, d] = [a', b', c', d']"
proof -
  have "le_enc 4 (le_dec [x, y, z, w]) = [x, y, z, w]" for x y z w by (rule le_enc_dec) simp
  then show ?thesis using arg_cong [OF assms, of "le_enc 4"] by metis
qed

lemma join_colon: "length x = length x' \<Longrightarrow> x @ '':'' @ y = x' @ '':'' @ y' \<Longrightarrow> x = x' \<and> y = y'"
  by simp

lemma octets_bound: "le_dec [a, b, c, d] < 16 ^ 8"
  using le_dec_bound [of "[a, b, c, d]"] by (simp del: le_dec.simps)

lemma padded_upper_inject:
  "n < 16 ^ w \<Longrightarrow> m < 16 ^ w \<Longrightarrow> padded upper_digit w n = padded upper_digit w m \<Longrightarrow> n = m"
  by (rule padded_inject [OF upper_digit_inject])

lemma tcp_end_inject: "tcp_end o1 p = tcp_end o2 q \<longleftrightarrow> o1 = o2 \<and> p = q"
proof
  assume eq: "tcp_end o1 p = tcp_end o2 q"
  obtain a b c d a' b' c' d' where o12: "o1 = (a, b, c, d)" "o2 = (a', b', c', d')" by (cases o1; cases o2) auto
  note eq1 = eq [unfolded o12 tcp_end_def prod.case]
  have e: "padded upper_digit 8 (le_dec [a, b, c, d]) = padded upper_digit 8 (le_dec [a', b', c', d'])"
    "padded upper_digit 4 (unat p) = padded upper_digit 4 (unat q)"
    using join_colon [OF _ eq1] length_padded by metis+
  have "[a, b, c, d] = [a', b', c', d']"
    by (rule octets_inject, rule padded_upper_inject [OF octets_bound octets_bound e(1)])
  moreover have "unat p = unat q"
    by (rule padded_upper_inject [of _ 4, OF _ _ e(2)]) (simp_all add: unat_u16_less)
  ultimately show "o1 = o2 \<and> p = q" by (simp add: o12 word_unat_eq_iff)
qed simp

lemma padded_numeral [simp]: "padded digit (numeral w) n = padded digit (pred_numeral w) (n div 16) @ [digit (n mod 16)]"
  by (simp only: numeral_eq_Suc padded.simps)

lemma tcp_end_literal: "''0100007F:13AD'' = tcp_end (127, 0, 0, 1) 5037" "''00000000:13AD'' = tcp_end (0, 0, 0, 0) 5037"
  by (simp_all add: tcp_end_def upper_digit_def char_of_def bit_0)

text \<open>A connection, and the line the kernel prints for it: its fields in this order, however padded.\<close>

record kernel_socket =
  k_local :: "(u8 \<times> u8 \<times> u8 \<times> u8) \<times> u16"
  k_remote :: "(u8 \<times> u8 \<times> u8 \<times> u8) \<times> u16"
  k_state :: string
  k_uid :: u32

definition kernel_line :: "string \<Rightarrow> kernel_socket \<Rightarrow> bool" where
  "kernel_line line s \<longleftrightarrow> plain_line line
     \<and> take 4 (split_whitespace line) = [hd (split_whitespace line), tcp_end (fst (k_local s)) (snd (k_local s)),
         tcp_end (fst (k_remote s)) (snd (k_remote s)), k_state s]
     \<and> length (split_whitespace line) > 7 \<and> split_whitespace line ! 7 = dec_string (unat (k_uid s))"

lemma parse_dec: "n \<le> limit \<Longrightarrow> parse_unsigned limit (dec_string n) = Some n"
proof -
  have "hd (dec_string n) \<noteq> CHR ''+''"
    using dec_string_reads [of n] by (cases "dec_string n") (auto simp: is_digit_def)
  then show "n \<le> limit \<Longrightarrow> ?thesis"
    using dec_string_reads [of n] by (simp add: parse_unsigned_def)
qed

lemma kernel_line_row:
  assumes "kernel_line line s"
  shows "tcp_row_of line = Some \<lparr>row_local = tcp_end (fst (k_local s)) (snd (k_local s)),
    row_remote = tcp_end (fst (k_remote s)) (snd (k_remote s)), row_state = k_state s, row_uid = unat (k_uid s)\<rparr>"
proof -
  let ?f = "split_whitespace line"
  have t: "take 4 ?f = [hd ?f, tcp_end (fst (k_local s)) (snd (k_local s)),
      tcp_end (fst (k_remote s)) (snd (k_remote s)), k_state s]" and l: "length ?f > 7"
    and u: "?f ! 7 = dec_string (unat (k_uid s))"
    using assms by (simp_all add: kernel_line_def)
  have "?f ! k = take 4 ?f ! k" if "k < 4" for k using that by simp
  from this [of 1] this [of 2] this [of 3] t
  have "?f ! 1 = tcp_end (fst (k_local s)) (snd (k_local s))" "?f ! 2 = tcp_end (fst (k_remote s)) (snd (k_remote s))"
    "?f ! 3 = k_state s" by simp_all
  moreover have "unat (k_uid s) \<le> 2 ^ 32 - 1" using unat_u32_less [of "k_uid s"] by simp
  ultimately show ?thesis using l u parse_dec [of "unat (k_uid s)" "2 ^ 32 - 1"] by (simp add: tcp_row_of_def Let_def)
qed

definition row_of :: "kernel_socket \<Rightarrow> tcp_row" where
  "row_of s = \<lparr>row_local = tcp_end (fst (k_local s)) (snd (k_local s)),
     row_remote = tcp_end (fst (k_remote s)) (snd (k_remote s)), row_state = k_state s, row_uid = unat (k_uid s)\<rparr>"

lemma proc_tcp_kernel:
  assumes "plain_line header" and "list_all2 kernel_line ls socks"
  shows "proc_tcp (Some (unlines (header # ls))) = Some (map row_of socks)"
proof -
  have "\<forall>l\<in>set ls. plain_line l"
    using assms(2) by (induction rule: list_all2_induct) (simp_all add: kernel_line_def)
  then have "\<forall>l\<in>set (header # ls). plain_line l" using assms(1) by simp
  then have "str_lines (unlines (header # ls)) = header # ls" by (rule lines_unlines)
  moreover have "List.map_filter tcp_row_of ls = map row_of socks"
    using assms(2) by (induction rule: list_all2_induct) (simp_all add: map_filter_simps kernel_line_row row_of_def)
  ultimately show ?thesis by (simp add: proc_tcp_def)
qed

lemma tcp_end_of: "tcp_end (fst x) (snd x) = tcp_end o1 p \<longleftrightarrow> x = (o1, p)"
  by (cases x) (simp add: tcp_end_inject)

section \<open>The list of devices\<close>

lemma text_of_bytes: "text_of (bytes_of s) = s"
  by (induction s) (simp_all add: text_of_def bytes_of_def unat_of_nat)

lemma bytes_of_append [simp]: "bytes_of (a @ b) = bytes_of a @ bytes_of b"
  and length_bytes_of [simp]: "length (bytes_of a) = length a"
  by (simp_all add: bytes_of_def)

lemma fold_padded:
  "n < 16 ^ w \<Longrightarrow> fold (\<lambda>c v. 16 * v + hex_value c) (padded hex_digit w n) acc = acc * 16 ^ w + n
    \<and> list_all is_ascii_hexdigit (padded hex_digit w n)"
proof (induction w arbitrary: n)
  case (Suc w)
  have "n div 16 < 16 ^ w" using Suc.prems by (simp add: less_mult_imp_div_less mult.commute)
  with Suc.IH [of "n div 16"] show ?case by (simp add: hex_digit_ok)
qed simp

lemma hex_number_digits:
  assumes "list_all is_ascii_hexdigit ds" and "ds \<noteq> []"
  shows "hex_number ds = fold (\<lambda>c v. 16 * v + hex_value c) ds 0"
proof -
  have "hd ds \<noteq> CHR ''+''"
    using assms by (cases ds) (auto simp: is_ascii_hexdigit_def Let_def)
  then show ?thesis using assms by (simp add: hex_number_def)
qed

lemma hex_number_padded:
  assumes "n < 65536"
  shows "hex_number (padded hex_digit 4 n) = n"
proof -
  have b: "n < 16 ^ 4" using assms by simp
  have "padded hex_digit 4 n \<noteq> []" using length_padded [of hex_digit 4 n] by (metis list.size(3) zero_neq_numeral)
  then have "hex_number (padded hex_digit 4 n) = fold (\<lambda>c v. 16 * v + hex_value c) (padded hex_digit 4 n) 0"
    using fold_padded [OF b] by (intro hex_number_digits) blast
  also have "\<dots> = 0 * 16 ^ 4 + n" using fold_padded [OF b] by blast
  finally show ?thesis by simp
qed

text \<open>The answer to host:devices: a line for each device, its serial and its state.\<close>

definition device_lines :: "(string \<times> string) list \<Rightarrow> string" where
  "device_lines ds = unlines (map (\<lambda>d. fst d @ TAB # snd d) ds)"

definition device_ok :: "string \<times> string \<Rightarrow> bool" where
  "device_ok d \<longleftrightarrow> TAB \<notin> set (fst d) \<and> TAB \<notin> set (snd d) \<and> plain_line (fst d @ TAB # snd d)"

lemma strip_suffix_iff: "strip_suffix p s = Some r \<longleftrightarrow> s = r @ p"
  by (auto simp: strip_suffix_def) (metis append_take_drop_id)

lemma strip_device:
  "device_ok d \<Longrightarrow> strip_suffix (TAB # ''device'') (fst d @ TAB # snd d) = (if snd d = ''device'' then Some (fst d) else None)"
proof -
  assume "device_ok d"
  then have "strip_suffix (TAB # ''device'') (fst d @ TAB # snd d) = Some r \<longleftrightarrow> r = fst d \<and> snd d = ''device''" for r
    unfolding strip_suffix_iff device_ok_def by (subst append_Cons_eq_iff) auto
  then show ?thesis by (cases "strip_suffix (TAB # ''device'') (fst d @ TAB # snd d)") auto
qed

lemma adb_serials_lines:
  assumes "\<forall>d\<in>set ds. device_ok d" and "length (device_lines ds) < 65536" and "utf8_valid (bytes_of (device_lines ds))"
  shows "adb_serials (bytes_of (padded hex_digit 4 (length (device_lines ds)) @ device_lines ds))
    = Inr (map fst (filter (\<lambda>d. snd d = ''device'') ds))"
proof -
  let ?p = "device_lines ds" and ?h = "padded hex_digit 4 (length (device_lines ds))"
  have t: "take 4 (bytes_of (?h @ ?p)) = bytes_of ?h" "drop 4 (bytes_of (?h @ ?p)) = bytes_of ?p"
    by (simp_all del: padded_numeral)
  have "str_lines ?p = map (\<lambda>d. fst d @ TAB # snd d) ds"
    using assms(1) unfolding device_lines_def by (intro lines_unlines) (auto simp: device_ok_def)
  moreover have "List.map_filter (strip_suffix (TAB # ''device'')) (map (\<lambda>d. fst d @ TAB # snd d) ds)
      = map fst (filter (\<lambda>d. snd d = ''device'') ds)"
    using assms(1) by (induction ds) (simp_all add: map_filter_simps strip_device)
  ultimately show ?thesis
    using t hex_number_padded [OF assms(2)] utf8_lossy_valid [OF assms(3)]
    by (simp add: adb_serials_def text_of_bytes Let_def del: padded_numeral)
qed

section \<open>A table for the concrete runs\<close>

definition sample_socket :: kernel_socket where
  "sample_socket = \<lparr>k_local = ((127, 0, 0, 1), 5037), k_remote = ((127, 0, 0, 1), 54000), k_state = ''01'', k_uid = 1000\<rparr>"

definition sample_words :: "string list" where
  "sample_words = [''1:'', ''0100007F:13AD'', ''0100007F:D2F0'', ''01'', ''00000000:00000000'', ''00:00000000'', ''00000000'',
     ''1000'', ''0'', ''77'']"

lemma sample_split: "split_whitespace (join_with '' '' sample_words) = sample_words"
  by (rule split_words) (simp add: sample_words_def word_char_def ascii_space_def)

lemma sample_line: "kernel_line (join_with '' '' sample_words) sample_socket"
proof -
  have "''0100007F:D2F0'' = tcp_end (127, 0, 0, 1) 54000"
    by (simp add: tcp_end_def upper_digit_def char_of_def bit_0)
  moreover have "dec_string 1000 = ''1000''"
    by (simp add: dec_string.simps char_of_def bit_0)
  moreover have "plain_line (join_with '' '' sample_words)"
    by (simp add: plain_line_def sample_words_def)
  ultimately show ?thesis
    unfolding kernel_line_def sample_split
    by (simp add: sample_socket_def tcp_end_literal [symmetric] sample_words_def)
qed

lemma sample_table: "plain_line ''header''" "list_all2 kernel_line [join_with '' '' sample_words] [sample_socket]"
  by (simp_all add: sample_line plain_line_def)

definition sample_local :: "(socket_addr \<times> string option) option" where
  "sample_local = Some (\<lparr>ip = V4 127 0 0 1, port = 54000, scope = 0\<rparr>,
     Some (unlines (''header'' # [join_with '' '' sample_words])))"

section \<open>Properties\<close>

text \<open>C38: The check of the adb server reads the kernel's table as it is meant: for a table of connections as
  the kernel prints it, the peer of our connection is trusted exactly when the table has the server's
  end of that very connection, from 127.0.0.1:5037 to our address and port and not to another's, and
  it belongs to an allowed user; a server is trusted exactly when such a user listens at port 5037 of
  127.0.0.1 or of every address.  Without the table nobody is trusted, and no peer is when the address of
  our connection is unknown or not of IPv4.\<close>

theorem adb_peer_is_ours:
  assumes "plain_line header" and "list_all2 kernel_line ls socks"
  shows "(adb_peer_trusted allowed (Some (\<lparr>ip = V4 a b c d, port = p, scope = 0\<rparr>, Some (unlines (header # ls))))
      \<longleftrightarrow> (\<exists>s\<in>set socks. k_local s = ((127, 0, 0, 1), 5037) \<and> k_remote s = ((a, b, c, d), p) \<and> unat (k_uid s) \<in> allowed))
    \<and> (adb_server_trusted allowed (Some (unlines (header # ls)))
      \<longleftrightarrow> (\<exists>s\<in>set socks. k_local s \<in> {((127, 0, 0, 1), 5037), ((0, 0, 0, 0), 5037)} \<and> k_state s = ''0A''
            \<and> unat (k_uid s) \<in> allowed))
    \<and> \<not> adb_server_trusted allowed None \<and> \<not> adb_peer_trusted allowed None
    \<and> (\<forall>here. \<not> adb_peer_trusted allowed (Some (here, None)))
    \<and> (\<forall>here file. (\<nexists>a b c d. ip here = V4 a b c d) \<longrightarrow> \<not> adb_peer_trusted allowed (Some (here, file)))"
  unfolding adb_peer_trusted_def adb_server_trusted_def tcp_end_literal
  by (auto simp: proc_tcp_kernel [OF assms] list_ex_iff row_of_def tcp_end_of proc_tcp_def [of None]
      split: ip_addr.splits simp del: unlines_simps)

theorem adb_peer_is_ours_witness:
  "adb_peer_trusted {0, 1000} sample_local \<and> \<not> adb_peer_trusted {0} sample_local"
proof -
  have "unat (1000 :: u32) = 1000" by simp
  then show ?thesis
    unfolding sample_local_def
    using adb_peer_is_ours [OF sample_table, of "{0, 1000}" 127 0 0 1 54000]
      adb_peer_is_ours [OF sample_table, of "{0}" 127 0 0 1 54000]
    by (simp add: sample_socket_def del: unlines_simps)
qed

lemma sample_trusted: "adb_peer_trusted {0, 1000} sample_local"
  unfolding adb_peer_trusted_def sample_local_def tcp_end_literal
  by (simp add: proc_tcp_kernel [OF sample_table] row_of_def sample_socket_def del: unlines_simps)

text \<open>Nothing is written to a server that is not trusted, and what is written is a beginning of the one
  framed service; an answer counts only after OKAY, and what follows it is left for the caller.\<close>

theorem adb_request_guarded:
  shows "(snd (adb_request allowed local connected service capacity answer) \<noteq> [] \<longrightarrow> connected \<and> adb_peer_trusted allowed local)
    \<and> (\<exists>rest. adb_frame service = snd (adb_request allowed local connected service capacity answer) @ rest)
    \<and> (\<forall>got. fst (adb_request allowed local connected service capacity answer) = Inr got \<longrightarrow>
        snd (adb_request allowed local connected service capacity answer) = adb_frame service
        \<and> answer = bytes_of ''OKAY'' @ got)"
proof -
  have "\<exists>rest. adb_frame service = take capacity (adb_frame service) @ rest" by (metis append_take_drop_id)
  moreover have "answer = bytes_of ''OKAY'' @ drop 4 answer" if "take 4 answer = bytes_of ''OKAY''"
    using that by (metis append_take_drop_id)
  ultimately show ?thesis
    by (auto simp: adb_request_def adb_ask_def Let_def split: if_splits)
qed

text \<open>The devices adb lists are the ones found: from a trusted server's answer to host:devices, a length and
  a line for each device, \<open>adb_devices\<close> returns the serials of exactly those in the state "device"
  (not offline or unauthorized ones), in order; the question on the wire is one that the same framing
  reads back.\<close>

theorem adb_devices_read:
  assumes "adb_peer_trusted allowed local" and "\<forall>d\<in>set ds. device_ok d" and "length (device_lines ds) < 65536"
    and "utf8_valid (bytes_of (device_lines ds))" and "16 \<le> capacity"
  shows "adb_devices allowed local True capacity
      (bytes_of (''OKAY'' @ padded hex_digit 4 (length (device_lines ds)) @ device_lines ds))
    = (Inr (map fst (filter (\<lambda>d. snd d = ''device'') ds)), bytes_of ''000chost:devices'')"
proof -
  let ?rest = "bytes_of (padded hex_digit 4 (length (device_lines ds)) @ device_lines ds)"
  have f: "adb_frame ''host:devices'' = bytes_of ''000chost:devices''"
    by (simp add: adb_frame_def hex_digit_def char_of_def bit_0)
  have "bytes_of (''OKAY'' @ padded hex_digit 4 (length (device_lines ds)) @ device_lines ds) = bytes_of ''OKAY'' @ ?rest"
    by (rule bytes_of_append)
  moreover have "adb_ask ''host:devices'' capacity (bytes_of ''OKAY'' @ ?rest) = (Inr ?rest, bytes_of ''000chost:devices'')"
    using assms(5) unfolding adb_ask_def f Let_def by (simp del: padded_numeral bytes_of_append add: bytes_of_def)
  ultimately show ?thesis
    using assms(1) adb_serials_lines [OF assms(2,3,4)]
    by (simp add: adb_devices_def adb_request_def del: padded_numeral bytes_of_append)
qed

theorem adb_devices_read_witness:
  "adb_devices {0, 1000} sample_local True 16
      (bytes_of (''OKAY'' @ padded hex_digit 4 (length (device_lines [(''A1'', ''device''), (''B2'', ''offline'')]))
        @ device_lines [(''A1'', ''device''), (''B2'', ''offline'')]))
    = (Inr [''A1''], bytes_of ''000chost:devices'')"
proof -
  have "\<forall>d\<in>set [(''A1'', ''device''), (''B2'', ''offline'')]. device_ok d"
    by (simp add: device_ok_def plain_line_def)
  moreover have "length (device_lines [(''A1'', ''device''), (''B2'', ''offline'')]) < 65536"
    by (simp add: device_lines_def)
  moreover have "utf8_valid (bytes_of (device_lines [(''A1'', ''device''), (''B2'', ''offline'')]))"
    by code_simp
  ultimately show ?thesis using adb_devices_read [OF sample_trusted] by (simp del: padded_numeral)
qed

theorem adb_request_guarded_witness:
  "snd (adb_request {} None True ''host:devices'' 16 []) = []"
proof -
  have "\<not> adb_peer_trusted {} None" by (simp add: adb_peer_trusted_def)
  then show ?thesis using adb_request_guarded [of "{}" None True "''host:devices''" 16 "[]"] by blast
qed

end
