(* ===== verification/Transports.thy ===== *)
theory Transports
  imports Connections Adb
begin

text \<open>
  The threads that find devices (src/src/daemon.rs: \<open>wifi_loop\<close>, \<open>adb_loop\<close>, \<open>Profile\<close>): one pass of
  each loop on the daemon's state, with what the outside answers as an argument.  A new \<open>Arc<Link>\<close>
  is an index that is not in the table; \<open>cloned\<close> says whether its stream could be duplicated.
\<close>

section \<open>A new connection\<close>

definition connect_link :: "nat \<Rightarrow> bool \<Rightarrow> string \<Rightarrow> u8 \<Rightarrow> string \<Rightarrow> string \<Rightarrow> daemon \<Rightarrow> daemon" where
  "connect_link i cloned name priority label device d =
     add cloned i (upd_link i (\<lambda>_. link_new name priority label device) d)"

definition live_names :: "daemon \<Rightarrow> string list" where
  "live_names d = map (\<lambda>i. lname (heap d i)) (live_links d)"

section \<open>Wi-Fi\<close>

definition wifi_name :: "v6_text \<Rightarrow> peer \<Rightarrow> string" where
  "wifi_name v6 p = ''wifi:'' @ peer_id p @ ''@'' @ show_socket v6 (address p)"

definition close_unpaired :: "string set \<Rightarrow> daemon \<Rightarrow> daemon" where
  "close_unpaired wanted d =
     fold (\<lambda>i d. if starts_with ''wifi:'' (lname (heap d i)) \<and> lname (heap d i) \<notin> wanted then upd_link i close d else d)
       (live_links d) d"

text \<open>What happens when a phone is tried: its session and the index of its link.\<close>

record attempt =
  at_session :: tls_session
  at_cloned :: bool
  at_index :: nat

definition wifi_peer :: "v6_text \<Rightarrow> (peer \<Rightarrow> attempt) \<Rightarrow> peer \<Rightarrow> daemon \<Rightarrow> daemon" where
  "wifi_peer v6 outside p d =
     (if wifi_name v6 p \<in> set (live_names d) then d
      else case fst (connect p (at_session (outside p))) of
          Inl _ \<Rightarrow> d
        | Inr label \<Rightarrow> connect_link (at_index (outside p)) (at_cloned (outside p)) (wifi_name v6 p) 1 label
            (''wifi:'' @ peer_id p) d)"

definition wifi_pass :: "v6_text \<Rightarrow> profile_dir \<Rightarrow> (peer \<Rightarrow> attempt) \<Rightarrow> daemon \<Rightarrow> daemon" where
  "wifi_pass v6 dir outside d =
     (case load_from v6 dir of
        None \<Rightarrow> d
      | Some ps \<Rightarrow> fold (wifi_peer v6 outside) ps (close_unpaired (set (map (wifi_name v6) ps)) d))"

section \<open>USB\<close>

definition adb_socket :: "string option \<Rightarrow> string" where
  "adb_socket var = (case var of Some s \<Rightarrow> s | None \<Rightarrow> ''passkey'')"

text \<open>What happens when a serial is tried: the connection to the app and its socket's name, whether the ping is
  taken, the connections that ask for the phone's settings, whether the timeout can be taken off.\<close>

record usb_attempt =
  us_socket :: "string option"
  us_wire :: adb_wire
  us_pinged :: bool
  us_label :: adb_wire
  us_address :: adb_wire
  us_settled :: bool
  us_cloned :: bool
  us_index :: nat

text \<open>The app answers the ping.\<close>

definition usb_hello :: "usb_attempt \<Rightarrow> string \<Rightarrow> bool" where
  "usb_hello a serial =
     (case adb_service (us_wire a) serial (''localabstract:'' @ adb_socket (us_socket a)) of
        Inl _ \<Rightarrow> False
      | Inr rest \<Rightarrow> us_pinged a \<and> take 5 rest = [0, 0, 0, 1, PONG])"

record usb_state =
  retry :: "string \<rightharpoonup> nat"
  usb_daemon :: daemon

definition usb_name :: "string \<Rightarrow> string" where
  "usb_name serial = ''usb:'' @ serial"

text \<open>One serial of the loop: \<open>names\<close> are the live links when the pass began, \<open>now\<close> is the time in
  milliseconds.\<close>

definition usb_serial :: "string set \<Rightarrow> nat \<Rightarrow> (string \<Rightarrow> usb_attempt) \<Rightarrow> string \<Rightarrow> usb_state \<Rightarrow> usb_state" where
  "usb_serial names now outside serial s =
     (let a = outside serial; later = s\<lparr>retry := (retry s)(serial \<mapsto> now + 10000)\<rparr> in
      if usb_name serial \<in> names \<or> (case retry s serial of None \<Rightarrow> False | Some until \<Rightarrow> until > now) then s
      else if usb_hello a serial then
        (if \<not> us_settled a then s
         else if us_cloned a then
           s\<lparr>retry := (retry s)(serial := None),
             usb_daemon := connect_link (us_index a) True (usb_name serial) 0
               (or_default (adb_setting (us_label a) serial ''global device_name'')) (adb_device_id (us_address a) serial)
               (usb_daemon s)\<rparr>
         else later)
      else later)"

definition usb_pass :: "nat \<Rightarrow> (string \<Rightarrow> usb_attempt) \<Rightarrow> string list \<Rightarrow> usb_state \<Rightarrow> usb_state" where
  "usb_pass now outside serials s =
     fold (usb_serial (set (live_names (usb_daemon s))) now outside) serials s"

text \<open>\<open>adb_start_server\<close>: the command that is run.\<close>

definition adb_start_command :: "bool \<Rightarrow> string option \<Rightarrow> string list" where
  "adb_start_command is_root user =
     (case user of
        Some u \<Rightarrow> if is_root \<and> u \<noteq> [] then [''runuser'', ''-u'', u, ''--'', ''adb'', ''start-server''] else [''adb'', ''start-server'']
      | None \<Rightarrow> [''adb'', ''start-server''])"

text \<open>How the thread begins: with USB switched off it ends; without adb in the path it says that USB is off and
  goes on.  \<open>off\<close> is PASSKEY_NO_USB, \<open>dirs\<close> the directories of PATH, if it is set.\<close>

definition adb_begin :: "string option \<Rightarrow> (string \<Rightarrow> bool) \<Rightarrow> string list option \<Rightarrow> bool \<times> bool" where
  "adb_begin off is_file dirs =
     (if off = Some ''1'' then (False, False)
      else
        let has_adb = (case dirs of None \<Rightarrow> False | Some ds \<Rightarrow> list_ex (\<lambda>dir. is_file (dir @ ''/adb'')) ds)
        in (True, \<not> has_adb))"

text \<open>What a turn finds of the adb server: the users allowed to run it, the kernel's table, and the connection on
  which it is asked for its devices.\<close>

record adb_server =
  ad_allowed :: "nat set"
  ad_table :: "string option"
  ad_connected :: bool
  ad_local :: "(socket_addr \<times> string option) option"
  ad_capacity :: nat
  ad_answer :: bytes

definition listed_serials :: "adb_server \<Rightarrow> string list" where
  "listed_serials server =
     (case fst (adb_devices (ad_allowed server) (ad_local server) (ad_connected server) (ad_capacity server)
         (ad_answer server)) of
        Inl _ \<Rightarrow> []
      | Inr serials \<Rightarrow> serials)"

text \<open>A turn of the loop: a server that is not trusted is not asked; it is started, at most once a minute.
  Times are in milliseconds.\<close>

record adb_state =
  usb :: usb_state
  last_start :: nat

definition adb_turn :: "nat \<Rightarrow> adb_server \<Rightarrow> (string \<Rightarrow> usb_attempt) \<Rightarrow> adb_state \<Rightarrow> bool \<times> adb_state" where
  "adb_turn now server outside s =
     (let trusted = adb_server_trusted (ad_allowed server) (ad_table server);
          start = \<not> trusted \<and> now - last_start s > 60000;
          serials = (if trusted then listed_serials server else [])
      in (start, s\<lparr>last_start := (if start then now else last_start s),
           usb := usb_pass now outside serials (usb s)\<rparr>))"

lemma adb_turn_untrusted:
  "\<not> adb_server_trusted (ad_allowed server) (ad_table server) \<Longrightarrow> usb (snd (adb_turn now server outside s)) = usb s"
  by (simp add: adb_turn_def usb_pass_def Let_def)

lemma adb_starts_spaced:
  "fst (adb_turn now server outside s) \<Longrightarrow>
    fst (adb_turn later server' outside' (snd (adb_turn now server outside s))) \<Longrightarrow> now + 60000 < later"
  by (auto simp: adb_turn_def Let_def)

lemma listed_serials_peer: "listed_serials server \<noteq> [] \<Longrightarrow> adb_peer_trusted (ad_allowed server) (ad_local server)"
  by (auto simp: listed_serials_def adb_devices_def adb_request_def split: if_splits)

section \<open>Bluetooth\<close>

text \<open>\<open>rsplit_once("dev_")\<close>, then underscores become colons.\<close>

definition after_dev :: "string \<Rightarrow> string option" where
  "after_dev path =
     (case filter (\<lambda>n. starts_with ''dev_'' (drop n path)) [0..<length path] of
        [] \<Rightarrow> None
      | ns \<Rightarrow> Some (drop (last ns + 4) path))"

definition bt_address :: "string \<Rightarrow> string option" where
  "bt_address path = map_option (map (\<lambda>c. if c = CHR ''_'' then CHR '':'' else c)) (after_dev path)"

text \<open>\<open>new_connection\<close>: \<open>alias\<close> is the name BlueZ has for the device; \<open>blocking\<close>: the descriptor could be
  made to wait.\<close>

definition new_connection :: "nat \<Rightarrow> bool \<Rightarrow> bool \<Rightarrow> string option \<Rightarrow> string \<Rightarrow> daemon \<Rightarrow> daemon" where
  "new_connection i blocking cloned alias path d =
     (let a = (case bt_address path of Some a \<Rightarrow> a | None \<Rightarrow> path);
          label = (case alias of Some l \<Rightarrow> l | None \<Rightarrow> a)
      in if \<not> blocking then d else connect_link i cloned (''bt:'' @ a) 2 label a d)"

definition request_disconnection :: "string \<Rightarrow> daemon \<Rightarrow> daemon" where
  "request_disconnection path d =
     (case bt_address path of
        None \<Rightarrow> d
      | Some a \<Rightarrow> fold (\<lambda>i d. if lname (heap d i) = ''bt:'' @ a then upd_link i close d else d) (live_links d) d)"

section \<open>The names of the live links\<close>

lemma quiet_heap:
  assumes "quiet_link l = quiet_link l'"
  shows "lname l = lname l'" "lalive l = lalive l'" "ldevice l = ldevice l'"
  using assms by (cases l; cases l'; simp add: quiet_link_def)+

lemma quiet_names:
  assumes "\<forall>j. quiet_link (heap e j) = quiet_link (heap d j)" and "links e = links d"
  shows "live_names e = live_names d" and "live_links e = live_links d"
proof -
  have "lalive (heap e j) = lalive (heap d j)" for j using assms(1) quiet_heap(2) by blast
  then show l: "live_links e = live_links d" by (simp add: live_links_def assms(2))
  have "lname (heap e j) = lname (heap d j)" for j using assms(1) quiet_heap(1) by blast
  then show "live_names e = live_names d" by (simp add: live_names_def l)
qed

lemma upd_link_links: "links (upd_link i f d) = links d"
  by (simp add: upd_link_def)

definition free_link :: "nat \<Rightarrow> daemon \<Rightarrow> bool" where
  "free_link i d \<longleftrightarrow> i \<notin> set (links d)"

lemma connect_link_view:
  assumes "free_link i d"
  shows "live_names (connect_link i cloned name priority label device d) = live_names d @ (if cloned then [name] else [])"
    and "links (connect_link i cloned name priority label device d) = links d @ (if cloned then [i] else [])"
proof -
  let ?u = "upd_link i (\<lambda>_. link_new name priority label device) d" let ?v = "?u\<lparr>links := links d @ [i]\<rparr>"
  have a: "live_links ?u = live_links d" "live_links ?v = live_links d @ [i]"
    using assms by (auto simp: live_links_def upd_link_def free_link_def link_new_def intro: filter_cong)
  have "heap ?u j = heap d j" if "j \<in> set (live_links d)" for j
    using that assms by (auto simp: upd_link_def free_link_def live_links_def)
  then have b: "map (\<lambda>j. lname (heap ?u j)) (live_links d) = live_names d"
    unfolding live_names_def by simp
  have u: "live_names ?u = live_names d" "links ?u = links d"
    using a(1) b by (simp_all add: live_names_def upd_link_links)
  have "lname (heap ?u i) = name" by (simp add: upd_link_def link_new_def)
  then have "live_names ?v = live_names d @ [name]"
    using a(2) b by (simp add: live_names_def)
  moreover have "live_names (sync_uhid (publish ?v)) = live_names ?v" "links (sync_uhid (publish ?v)) = links ?v"
    by (rule quiet_names(1); simp add: sync_uhid_fields) (simp add: sync_uhid_fields)
  moreover have "connect_link i True name priority label device d = sync_uhid (publish ?v)"
    "connect_link i False name priority label device d = ?u"
    by (simp_all add: connect_link_def add_def upd_link_def)
  ultimately show "live_names (connect_link i cloned name priority label device d) = live_names d @ (if cloned then [name] else [])"
    "links (connect_link i cloned name priority label device d) = links d @ (if cloned then [i] else [])"
    using u by (cases cloned; simp)+
qed

section \<open>The contract of a thread that finds devices\<close>

text \<open>One thing after another is tried: those seen already are left alone, each of the others leads to at
  most one new connection, under its own name, and to none when it is not accepted.\<close>

locale discovery =
  fixes names :: "'s \<Rightarrow> string list"
    and free :: "'k \<Rightarrow> 's \<Rightarrow> bool"
    and slot :: "'k \<Rightarrow> nat"
    and name_of :: "'k \<Rightarrow> string"
    and accepts :: "'k \<Rightarrow> bool"
    and visit :: "string set \<Rightarrow> 'k \<Rightarrow> 's \<Rightarrow> 's"
  assumes visit_names: "free k s \<Longrightarrow> names (visit seen k s) = names s \<or> names (visit seen k s) = names s @ [name_of k]"
    and visit_seen: "name_of k \<in> seen \<Longrightarrow> seen \<subseteq> set (names s) \<Longrightarrow> names (visit seen k s) = names s"
    and visit_refused: "\<not> accepts k \<Longrightarrow> names (visit seen k s) = names s"
    and visit_free: "free k s \<Longrightarrow> free k' s \<Longrightarrow> slot k \<noteq> slot k' \<Longrightarrow> free k' (visit seen k s)"
begin

lemma tried_all:
  assumes "distinct (map slot ks)" and "distinct (map name_of ks)" and "\<forall>k\<in>set ks. free k s" and "seen \<subseteq> set (names s)"
  shows "\<exists>new. names (fold (visit seen) ks s) = names s @ map name_of new \<and> set new \<subseteq> {k \<in> set ks. accepts k}
    \<and> distinct (map name_of new) \<and> name_of ` set new \<inter> seen = {}"
  using assms
proof (induction ks arbitrary: s)
  case Nil
  show ?case by (intro exI [of _ "[]"]) simp
next
  case (Cons k ks)
  let ?s = "visit seen k s"
  have k: "names ?s = names s \<or> names ?s = names s @ [name_of k] \<and> name_of k \<notin> seen \<and> accepts k"
  proof (cases "name_of k \<in> seen \<or> \<not> accepts k")
    case True
    then show ?thesis using visit_seen [of k seen s] visit_refused [of k seen s] Cons.prems(4) by blast
  next
    case False
    moreover have "free k s" using Cons.prems(3) by simp
    ultimately show ?thesis using visit_names [of k s seen] by blast
  qed
  have "\<forall>k'\<in>set ks. free k' ?s"
    using Cons.prems(1,3) visit_free [of k s] by fastforce
  moreover have "seen \<subseteq> set (names ?s)" using k Cons.prems(4) by auto
  moreover have "distinct (map slot ks)" "distinct (map name_of ks)" using Cons.prems(1,2) by simp_all
  ultimately obtain new where n: "names (fold (visit seen) ks ?s) = names ?s @ map name_of new" "set new \<subseteq> {k \<in> set ks. accepts k}"
      "distinct (map name_of new)" "name_of ` set new \<inter> seen = {}"
    using Cons.IH [of ?s] by blast
  have nk: "name_of k \<notin> name_of ` set new" using Cons.prems(2) n(2) by auto
  from k show ?case
  proof
    assume "names ?s = names s"
    with n show ?thesis by (intro exI [of _ new]) (simp, blast)
  next
    assume "names ?s = names s @ [name_of k] \<and> name_of k \<notin> seen \<and> accepts k"
    with n nk show ?thesis by (intro exI [of _ "k # new"]) (simp, blast)
  qed
qed

lemma one_link_each:
  assumes "distinct (map slot ks)" and "distinct (map name_of ks)" and "\<forall>k\<in>set ks. free k s"
    and "\<forall>k\<in>set ks. P (name_of k)" and "distinct (filter P (names s))" and "seen = set (names s)"
  shows "distinct (filter P (names (fold (visit seen) ks s)))"
    and "set (names (fold (visit seen) ks s)) \<subseteq> set (names s) \<union> name_of ` {k \<in> set ks. accepts k}"
    and "filter (\<lambda>n. \<not> P n) (names (fold (visit seen) ks s)) = filter (\<lambda>n. \<not> P n) (names s)"
proof -
  obtain new where n: "names (fold (visit seen) ks s) = names s @ map name_of new" "set new \<subseteq> {k \<in> set ks. accepts k}"
      "distinct (map name_of new)" "name_of ` set new \<inter> seen = {}"
    using tried_all [OF assms(1,2,3)] assms(6) by blast
  have p: "filter P (map name_of new) = map name_of new" "filter (\<lambda>n. \<not> P n) (map name_of new) = []"
    using n(2) assms(4) by (auto simp: filter_id_conv filter_empty_conv)
  show "distinct (filter P (names (fold (visit seen) ks s)))"
    using n p assms(5,6) by auto
  show "set (names (fold (visit seen) ks s)) \<subseteq> set (names s) \<union> name_of ` {k \<in> set ks. accepts k}"
    using n(1,2) by auto
  show "filter (\<lambda>n. \<not> P n) (names (fold (visit seen) ks s)) = filter (\<lambda>n. \<not> P n) (names s)"
    using n(1) p by simp
qed

end

section \<open>Both threads keep it\<close>

lemma free_after_connect:
  "free_link i d \<Longrightarrow> free_link j d \<Longrightarrow> i \<noteq> j \<Longrightarrow> free_link j (connect_link i cloned name priority label device d)"
  using connect_link_view(2) [of i d] by (simp add: free_link_def)

lemma wifi_peer_cases:
  obtains "wifi_peer v6 outside p d = d"
  | label where "wifi_name v6 p \<notin> set (live_names d)" "fst (connect p (at_session (outside p))) = Inr label"
      "wifi_peer v6 outside p d = connect_link (at_index (outside p)) (at_cloned (outside p)) (wifi_name v6 p) 1 label
        (''wifi:'' @ peer_id p) d"
  by (cases "wifi_name v6 p \<in> set (live_names d)"; cases "fst (connect p (at_session (outside p)))")
    (auto simp: wifi_peer_def)

interpretation wifi: discovery live_names "\<lambda>p. free_link (at_index (outside p))" "\<lambda>p. at_index (outside p)"
    "wifi_name v6" "\<lambda>p. \<not> isl (fst (connect p (at_session (outside p))))" "\<lambda>_. wifi_peer v6 outside"
  for v6 outside
proof
  fix p q :: peer and d and seen :: "string set"
  show "live_names (wifi_peer v6 outside p d) = live_names d \<or> live_names (wifi_peer v6 outside p d) = live_names d @ [wifi_name v6 p]"
    if "free_link (at_index (outside p)) d"
    using that by (cases rule: wifi_peer_cases [of v6 outside p d]) (simp_all add: connect_link_view)
  show "live_names (wifi_peer v6 outside p d) = live_names d" if "wifi_name v6 p \<in> seen" "seen \<subseteq> set (live_names d)"
    using that by (auto simp: wifi_peer_def)
  show "live_names (wifi_peer v6 outside p d) = live_names d" if "\<not> \<not> isl (fst (connect p (at_session (outside p))))"
    using that by (cases rule: wifi_peer_cases [of v6 outside p d]) auto
  show "free_link (at_index (outside q)) (wifi_peer v6 outside p d)"
    if "free_link (at_index (outside p)) d" "free_link (at_index (outside q)) d" "at_index (outside p) \<noteq> at_index (outside q)"
    using that by (cases rule: wifi_peer_cases [of v6 outside p d]) (simp_all add: free_after_connect)
qed

lemma usb_serial_cases:
  obtains "usb_daemon (usb_serial names now outside serial s) = usb_daemon s"
  | label device where "usb_name serial \<notin> names" "usb_hello (outside serial) serial"
      "usb_daemon (usb_serial names now outside serial s)
        = connect_link (us_index (outside serial)) True (usb_name serial) 0 label device (usb_daemon s)"
proof (cases "usb_daemon (usb_serial names now outside serial s) = usb_daemon s")
  case False
  then have "usb_name serial \<notin> names" "usb_hello (outside serial) serial"
    by (auto simp: usb_serial_def Let_def split: if_splits)
  with False that(2) show ?thesis
    by (auto simp: usb_serial_def Let_def split: if_splits)
qed (use that(1) in blast)

interpretation usb: discovery "\<lambda>s. live_names (usb_daemon s)" "\<lambda>serial s. free_link (us_index (outside serial)) (usb_daemon s)"
    "\<lambda>serial. us_index (outside serial)" usb_name "\<lambda>serial. usb_hello (outside serial) serial" "\<lambda>seen. usb_serial seen now outside"
  for now outside
proof
  fix a b :: string and s and seen :: "string set"
  show "live_names (usb_daemon (usb_serial seen now outside a s)) = live_names (usb_daemon s)
      \<or> live_names (usb_daemon (usb_serial seen now outside a s)) = live_names (usb_daemon s) @ [usb_name a]"
    if "free_link (us_index (outside a)) (usb_daemon s)"
    using that by (cases rule: usb_serial_cases [of seen now outside a s]) (simp_all add: connect_link_view)
  show "live_names (usb_daemon (usb_serial seen now outside a s)) = live_names (usb_daemon s)"
    if "usb_name a \<in> seen" "seen \<subseteq> set (live_names (usb_daemon s))"
    using that by (cases rule: usb_serial_cases [of seen now outside a s]) simp_all
  show "live_names (usb_daemon (usb_serial seen now outside a s)) = live_names (usb_daemon s)" if "\<not> usb_hello (outside a) a"
    using that by (cases rule: usb_serial_cases [of seen now outside a s]) simp_all
  show "free_link (us_index (outside b)) (usb_daemon (usb_serial seen now outside a s))"
    if "free_link (us_index (outside a)) (usb_daemon s)" "free_link (us_index (outside b)) (usb_daemon s)"
      "us_index (outside a) \<noteq> us_index (outside b)"
    using that by (cases rule: usb_serial_cases [of seen now outside a s]) (simp_all add: free_after_connect)
qed

section \<open>Closing what is no longer paired\<close>

definition close_named :: "(string \<Rightarrow> bool) \<Rightarrow> nat \<Rightarrow> daemon \<Rightarrow> daemon" where
  "close_named P i d = (if P (lname (heap d i)) then upd_link i close d else d)"

lemma close_named_fold:
  "links (fold (close_named P) is d) = links d \<and> lname (heap (fold (close_named P) is d) j) = lname (heap d j)
    \<and> lalive (heap (fold (close_named P) is d) j) = (lalive (heap d j) \<and> \<not> (j \<in> set is \<and> P (lname (heap d j))))"
proof (induction "is" arbitrary: d)
  case (Cons i "is")
  have "lname (heap (close_named P i d) k) = lname (heap d k)"
    "lalive (heap (close_named P i d) k) = (lalive (heap d k) \<and> \<not> (k = i \<and> P (lname (heap d k))))"
    "links (close_named P i d) = links d" for k
    by (auto simp: close_named_def upd_link_def close_def)
  with Cons show ?case by auto
qed simp

lemma close_named_names:
  "live_names (fold (close_named P) (live_links d) d) = filter (\<lambda>n. \<not> P n) (live_names d)"
proof -
  have "live_links (fold (close_named P) (live_links d) d) = filter (\<lambda>i. \<not> P (lname (heap d i))) (live_links d)"
    using close_named_fold [of P "live_links d" d]
    by (auto simp: live_links_def intro!: filter_cong)
  then show ?thesis
    using close_named_fold [of P "live_links d" d] by (simp add: live_names_def filter_map comp_def)
qed

lemma close_unpaired_named:
  "close_unpaired wanted d = fold (close_named (\<lambda>n. starts_with ''wifi:'' n \<and> n \<notin> wanted)) (live_links d) d"
  unfolding close_unpaired_def by (intro fold_cong refl ext) (simp add: close_named_def)

lemma close_unpaired_view:
  "live_names (close_unpaired wanted d) = filter (\<lambda>n. starts_with ''wifi:'' n \<longrightarrow> n \<in> wanted) (live_names d)"
  "links (close_unpaired wanted d) = links d"
  unfolding close_unpaired_named close_named_names using close_named_fold by (auto intro: filter_cong)

section \<open>Properties\<close>

lemma wifi_name_inject:
  assumes "peer_ok p" and "peer_ok q" and "wifi_name v6 p = wifi_name v6 q"
  shows "pin p = pin q"
  using assms by (simp add: wifi_name_def peer_id_def peer_ok_def append_eq_append_conv hex_inject)

lemma wifi_names_distinct:
  assumes "dir_ok v6 dir"
  shows "distinct (map (wifi_name v6) (List.map_filter (profile_of v6) dir))"
proof -
  let ?ps = "List.map_filter (profile_of v6) dir"
  have d: "distinct (map pin ?ps)" using assms by (rule pins_distinct)
  have "inj_on (wifi_name v6) (set ?ps)"
  proof (rule inj_onI)
    fix p q assume "p \<in> set ?ps" "q \<in> set ?ps" "wifi_name v6 p = wifi_name v6 q"
    moreover from this have "peer_ok p" "peer_ok q" using profile_ok [OF assms] set_loaded [of v6 dir] by auto
    ultimately have "pin p = pin q" using wifi_name_inject by blast
    then show "p = q" using d \<open>p \<in> set ?ps\<close> \<open>q \<in> set ?ps\<close> by (metis distinct_map inj_onD)
  qed
  then show ?thesis using d by (simp add: distinct_map)
qed

text \<open>C14: After a pass of the Wi-Fi thread the live Wi-Fi connections are those of paired phones, each over
  one connection: a phone that was unpaired, or paired again at another address, is cut off; no phone
  gets a second connection; connections of other kinds are left as they were.\<close>

theorem wifi_follows_pairings:
  assumes "dir_ok v6 dir" and "\<forall>p\<in>profiles v6 dir. at_index (outside p) \<notin> set (links d)"
    and "inj_on (\<lambda>p. at_index (outside p)) (profiles v6 dir)"
    and "distinct (filter (starts_with ''wifi:'') (live_names d))"
  shows "distinct (filter (starts_with ''wifi:'') (live_names (wifi_pass v6 dir outside d)))
    \<and> (\<forall>n\<in>set (live_names (wifi_pass v6 dir outside d)). starts_with ''wifi:'' n \<longrightarrow> n \<in> wifi_name v6 ` profiles v6 dir)
    \<and> filter (\<lambda>n. \<not> starts_with ''wifi:'' n) (live_names (wifi_pass v6 dir outside d))
      = filter (\<lambda>n. \<not> starts_with ''wifi:'' n) (live_names d)"
proof -
  let ?ps = "List.map_filter (profile_of v6) dir" let ?c = "close_unpaired (wifi_name v6 ` profiles v6 dir) d"
  let ?W = "starts_with ''wifi:'' :: string \<Rightarrow> bool"
  have pass: "wifi_pass v6 dir outside d = fold (wifi_peer v6 outside) ?ps ?c"
    using assms(1) by (simp add: wifi_pass_def load_from_profiles set_loaded)
  have "distinct ?ps" using pins_distinct [OF assms(1)] by (simp add: distinct_map)
  then have slots: "distinct (map (\<lambda>p. at_index (outside p)) ?ps)"
    using assms(3) by (simp add: distinct_map set_loaded)
  have free: "\<forall>p\<in>set ?ps. free_link (at_index (outside p)) ?c"
    using assms(2) by (simp add: set_loaded free_link_def close_unpaired_view)
  have w: "\<forall>p\<in>set ?ps. ?W (wifi_name v6 p)" by (simp add: wifi_name_def starts_with_def)
  have "filter ?W (live_names ?c)
      = filter (\<lambda>n. ?W n \<longrightarrow> n \<in> wifi_name v6 ` profiles v6 dir) (filter ?W (live_names d))"
    by (auto simp: close_unpaired_view intro: filter_cong)
  then have closed: "distinct (filter ?W (live_names ?c))"
    using distinct_filter [OF assms(4)] by simp
  have others: "filter (\<lambda>n. \<not> ?W n) (live_names ?c) = filter (\<lambda>n. \<not> ?W n) (live_names d)"
    "\<forall>n\<in>set (live_names ?c). ?W n \<longrightarrow> n \<in> wifi_name v6 ` profiles v6 dir"
    by (auto simp: close_unpaired_view intro: filter_cong)
  note one = wifi.one_link_each [OF slots wifi_names_distinct [OF assms(1)] free w closed refl]
  show ?thesis
    using one others by (auto simp: pass set_loaded)
qed

definition old_wifi :: daemon where
  "old_wifi = (daemon_new 5 (\<lambda>_. link_new ''wifi:old@192.168.1.9:40719'' 1 ''Old'' ''wifi:old''))\<lparr>links := [0]\<rparr>"

definition no_session :: "peer \<Rightarrow> attempt" where
  "no_session p = \<lparr>at_session = \<lparr>tls_up = False, digest = None, room = 0, incoming = [], settled = True\<rparr>,
     at_cloned = True, at_index = 1\<rparr>"

theorem wifi_follows_pairings_witness:
  "live_names old_wifi = [''wifi:old@192.168.1.9:40719'']
    \<and> {n \<in> set (live_names (wifi_pass full_v6 (saved full_v6 sample_peer []) no_session old_wifi)).
        starts_with ''wifi:'' n} \<subseteq> {wifi_name full_v6 sample_peer}"
proof -
  have e: "dir_ok full_v6 []" by (simp add: dir_ok_def full_v6_ok)
  have d: "dir_ok full_v6 (saved full_v6 sample_peer [])" using e sample_peer_ok by (rule saved_ok)
  have p: "profiles full_v6 (saved full_v6 sample_peer []) = {sample_peer}"
    using saved_ok(2) [OF e sample_peer_ok] by (simp add: profiles_def)
  have n: "live_names old_wifi = [''wifi:old@192.168.1.9:40719'']"
    by (simp add: old_wifi_def live_names_def live_links_def daemon_new_def link_new_def)
  have l: "links old_wifi = [0]" by (simp add: old_wifi_def)
  show ?thesis
    using wifi_follows_pairings [OF d, of no_session old_wifi] by (auto simp: p n l no_session_def)
qed

lemma usb_one_link_each:
  assumes "distinct serials" and "\<forall>a\<in>set serials. us_index (outside a) \<notin> set (links (usb_daemon s))"
    and "inj_on (\<lambda>a. us_index (outside a)) (set serials)"
    and "distinct (filter (starts_with ''usb:'') (live_names (usb_daemon s)))"
  shows "distinct (filter (starts_with ''usb:'') (live_names (usb_daemon (usb_pass now outside serials s))))"
    and "set (live_names (usb_daemon (usb_pass now outside serials s)))
      \<subseteq> set (live_names (usb_daemon s)) \<union> usb_name ` {a \<in> set serials. usb_hello (outside a) a}"
    and "filter (\<lambda>n. \<not> starts_with ''usb:'' n) (live_names (usb_daemon (usb_pass now outside serials s)))
      = filter (\<lambda>n. \<not> starts_with ''usb:'' n) (live_names (usb_daemon s))"
proof -
  have slots: "distinct (map (\<lambda>a. us_index (outside a)) serials)" using assms(1,3) by (simp add: distinct_map)
  have names: "distinct (map usb_name serials)" using assms(1) by (simp add: distinct_map inj_on_def usb_name_def)
  have free: "\<forall>a\<in>set serials. free_link (us_index (outside a)) (usb_daemon s)" using assms(2) by (simp add: free_link_def)
  have u: "\<forall>a\<in>set serials. starts_with ''usb:'' (usb_name a)" by (simp add: usb_name_def starts_with_def)
  note one = usb.one_link_each [OF slots names free u assms(4) refl]
  show "distinct (filter (starts_with ''usb:'') (live_names (usb_daemon (usb_pass now outside serials s))))"
    "set (live_names (usb_daemon (usb_pass now outside serials s)))
      \<subseteq> set (live_names (usb_daemon s)) \<union> usb_name ` {a \<in> set serials. usb_hello (outside a) a}"
    "filter (\<lambda>n. \<not> starts_with ''usb:'' n) (live_names (usb_daemon (usb_pass now outside serials s)))
      = filter (\<lambda>n. \<not> starts_with ''usb:'' n) (live_names (usb_daemon s))"
    using one unfolding usb_pass_def by blast+
qed

text \<open>What the app said, over a server of ours.\<close>

definition usb_greeted :: "usb_attempt \<Rightarrow> bool" where
  "usb_greeted a \<longleftrightarrow> adb_peer_trusted (aw_allowed (us_wire a)) (aw_local (us_wire a))
     \<and> starts_with (bytes_of ''OKAYOKAY'' @ [0, 0, 0, 1, PONG]) (aw_answer (us_wire a))"

lemma usb_hello_greeted: "usb_hello a serial \<Longrightarrow> usb_greeted a"
proof -
  assume "usb_hello a serial"
  then obtain rest where r: "adb_service (us_wire a) serial (''localabstract:'' @ adb_socket (us_socket a)) = Inr rest"
    "take 5 rest = [0, 0, 0, 1, PONG]"
    by (auto simp: usb_hello_def split: sum.splits)
  have "rest = [0, 0, 0, 1, PONG] @ drop 5 rest" using append_take_drop_id [of 5 rest] r(2) by simp
  then have "starts_with (bytes_of ''OKAYOKAY'' @ [0, 0, 0, 1, PONG]) (bytes_of ''OKAYOKAY'' @ rest)"
    by (metis append.assoc starts_with_append)
  then show ?thesis using adb_service_Inr [OF r(1)] by (simp add: usb_greeted_def)
qed


definition sample_wire :: "bytes \<Rightarrow> adb_wire" where
  "sample_wire answer = \<lparr>aw_connected = True, aw_allowed = {0, 1000}, aw_local = sample_local, aw_first = 100,
     aw_second = 100, aw_answer = bytes_of ''OKAYOKAY'' @ answer, aw_ends = True\<rparr>"

definition sample_usb :: "string \<Rightarrow> usb_attempt" where
  "sample_usb serial = \<lparr>us_socket = None, us_wire = sample_wire [0, 0, 0, 1, PONG],
     us_pinged = True, us_label = sample_wire (bytes_of (''Pixel'' @ [NL])), us_address = sample_wire (bytes_of (''null'' @ [NL])),
     us_settled = True, us_cloned = True, us_index = length serial\<rparr>"

text \<open>A server that listens at port 5037 for user 1000, and lists two phones.\<close>

definition sample_listener :: kernel_socket where
  "sample_listener = \<lparr>k_local = ((127, 0, 0, 1), 5037), k_remote = ((0, 0, 0, 0), 0), k_state = ''0A'', k_uid = 1000\<rparr>"

definition sample_server :: adb_server where
  "sample_server = \<lparr>ad_allowed = {0, 1000},
     ad_table = Some (unlines [''header'', join_with '' '' [''0:'', ''0100007F:13AD'', ''00000000:0000'', ''0A'',
       ''00000000:00000000'', ''00:00000000'', ''00000000'', ''1000'', ''0'', ''76'']]),
     ad_connected = True, ad_local = sample_local, ad_capacity = 100,
     ad_answer = bytes_of (''OKAY'' @ padded hex_digit 4 (length (device_lines [(''A'', ''device''), (''BC'', ''device'')]))
       @ device_lines [(''A'', ''device''), (''BC'', ''device'')])\<rparr>"

lemma sample_server_lists: "listed_serials sample_server = [''A'', ''BC'']"
proof -
  let ?ds = "[(''A'', ''device''), (''BC'', ''device'')]"
  have "\<forall>d\<in>set ?ds. device_ok d" by (simp add: device_ok_def plain_line_def)
  moreover have "length (device_lines ?ds) < 65536" by (simp add: device_lines_def)
  moreover have "utf8_valid (bytes_of (device_lines ?ds))" by code_simp
  ultimately have s: "adb_serials (bytes_of (padded hex_digit 4 (length (device_lines ?ds)) @ device_lines ?ds)) = Inr [''A'', ''BC'']"
    using adb_serials_lines [of ?ds] by (simp del: padded_numeral)
  have "adb_ask ''host:devices'' 100 (ad_answer sample_server)
      = (Inr (bytes_of (padded hex_digit 4 (length (device_lines ?ds)) @ device_lines ?ds)), adb_frame ''host:devices'')"
    by (simp add: adb_ask_def adb_frame_def sample_server_def bytes_of_def Let_def del: padded_numeral)
  then show ?thesis
    using s sample_trusted
    by (simp add: listed_serials_def adb_devices_def adb_request_def sample_server_def del: padded_numeral)
qed

lemma sample_server_trusted: "adb_server_trusted (ad_allowed sample_server) (ad_table sample_server)"
  by code_simp


text \<open>Without adb in the path the thread announces that USB is off and goes on, unless it was switched off.\<close>

lemma adb_missing_goes_on:
  "adb_begin None is_file None = (True, True)" "fst (adb_begin off is_file dirs) \<longleftrightarrow> off \<noteq> Some ''1''"
  by (simp_all add: adb_begin_def Let_def)

section \<open>One phone, two transports\<close>

lemma trim_end_line: "trim_end (s @ [NL]) = trim_end s"
  by (subst trim_end.simps) (simp add: space_at_end_def ascii_space_def)

lemma trim_line:
  assumes "s \<noteq> []" and "word_char (hd s)" and "word_char (last s)"
  shows "trim (s @ [NL]) = s"
proof -
  have "space_at_start (s @ [NL]) = 0" using assms by (cases s) (simp_all add: space_at_start_word)
  then have "trim_start (s @ [NL]) = s @ [NL]" by (subst trim_start.simps) simp
  moreover have "trim_end s = s" using space_at_end_word [OF assms(1,3)] by (subst trim_end.simps) simp
  ultimately show ?thesis by (simp add: trim_def trim_end_line)
qed

lemma upt_around: "k < n \<Longrightarrow> [0..<n] = [0..<k] @ k # [Suc k..<n]"
  using upt_add_eq_append [of 0 k "n - k"] upt_conv_Cons [of k n] by simp

lemma filter_last:
  assumes "k < n" and "P k" and "\<And>m. k < m \<Longrightarrow> m < n \<Longrightarrow> \<not> P m"
  shows "\<exists>ns. filter P [0..<n] = ns @ [k]"
proof -
  have "filter P [Suc k..<n] = []" using assms(3) by (auto simp: filter_empty_conv)
  then show ?thesis using assms(2) by (simp add: upt_around [OF assms(1)])
qed

lemma starts_dev: "starts_with ''dev_'' s \<Longrightarrow> hd s = CHR ''d''"
  by (cases s) (auto simp: starts_with_def)

lemma case_after:
  "drop (k + 4) p = a \<Longrightarrow>
     (case ns @ [k] of [] \<Rightarrow> None | m # ms \<Rightarrow> Some (drop (last (m # ms) + 4) p)) = Some a"
  by (cases ns) auto

lemma after_dev_last:
  assumes "CHR ''d'' \<notin> set a"
  shows "after_dev (pre @ ''dev_'' @ a) = Some a"
proof -
  let ?p = "pre @ ''dev_'' @ a" let ?k = "length pre"
  have no: "\<not> starts_with ''dev_'' (drop n ?p)" if n: "n > ?k" "n < length ?p" for n
  proof
    assume "starts_with ''dev_'' (drop n ?p)"
    then have "hd (drop n ?p) = CHR ''d''" by (rule starts_dev)
    then have "?p ! n = CHR ''d''" using n hd_drop_conv_nth [of n ?p] by simp
    moreover have "?p ! n = (''dev_'' @ a) ! (n - ?k)" using n by (simp add: nth_append)
    moreover have "(''dev_'' @ a) ! (n - ?k) \<in> set (''ev_'' @ a)"
    proof -
      obtain m where "n - ?k = Suc m" using n by (cases "n - ?k") auto
      moreover from this have "m < length (''ev_'' @ a)" using n by simp
      ultimately show ?thesis using nth_mem [of m "''ev_'' @ a"] by simp
    qed
    ultimately show False using assms by auto
  qed
  have "starts_with ''dev_'' (drop ?k ?p)" by (simp add: starts_with_def)
  then have "\<exists>ns. filter (\<lambda>n. starts_with ''dev_'' (drop n ?p)) [0..<length ?p] = ns @ [?k]"
    by (intro filter_last no) (simp_all del: append_Cons drop_append)
  then obtain ns where ns: "filter (\<lambda>n. starts_with ''dev_'' (drop n ?p)) [0..<length ?p] = ns @ [?k]" ..
  have "drop (?k + 4) ?p = a" by simp
  then show ?thesis unfolding after_dev_def ns by (rule case_after)
qed

definition dbus_text :: "string \<Rightarrow> string" where
  "dbus_text v = map (\<lambda>c. if c = CHR '':'' then CHR ''_'' else c) v"

lemma upper_no_d: "CHR ''d'' \<notin> set (map upper_char s)"
proof
  assume "CHR ''d'' \<in> set (map upper_char s)"
  then obtain c where c: "upper_char c = CHR ''d''" by auto
  then have "(of_char (upper_char c) :: nat) = 100" by simp
  then show False
    by (auto simp: upper_char_def Let_def split: if_splits)
qed

lemma bt_chars:
  assumes "is_bt_address v" and "c \<in> set v"
  shows "is_ascii_hexdigit c \<or> c = CHR '':''"
proof -
  have "c \<in> set (join_with '':'' (split_on CHR '':'' v))" using assms(2) by (simp add: join_split)
  then consider "c = CHR '':''" | f where "f \<in> set (split_on CHR '':'' v)" "c \<in> set f"
    using join_set [of c "'':''"] by auto
  then show ?thesis
  proof cases
    case 2
    then show ?thesis using assms(1) by (auto simp: is_bt_address_def Let_def list_all_iff)
  qed simp
qed

lemma bt_address_dbus:
  assumes "is_bt_address (map upper_char s)"
  shows "bt_address (pre @ ''dev_'' @ dbus_text (map upper_char s)) = Some (map upper_char s)"
proof -
  let ?a = "map upper_char s"
  have "CHR ''d'' \<notin> set (dbus_text ?a)" using upper_no_d [of s] by (auto simp: dbus_text_def)
  then have d: "after_dev (pre @ ''dev_'' @ dbus_text ?a) = Some (dbus_text ?a)" by (rule after_dev_last)
  have "c \<noteq> CHR ''_''" if "c \<in> set ?a" for c
    using bt_chars [OF assms that] by (auto simp: is_ascii_hexdigit_def Let_def)
  then have "map (\<lambda>c. if c = CHR ''_'' then CHR '':'' else c) (dbus_text ?a) = ?a"
    by (auto simp: dbus_text_def comp_def intro!: map_idI)
  then show ?thesis unfolding bt_address_def d by simp
qed

lemma hexdigit_upper: "is_ascii_hexdigit (upper_char c) \<or> upper_char c = CHR '':'' \<Longrightarrow> word_char c"
  by (auto simp: is_ascii_hexdigit_def upper_char_def word_char_def ascii_space_def Let_def split: if_splits)

lemma utf8_text: "\<forall>c\<in>set s. of_char c < (0x80 :: nat) \<Longrightarrow> utf8_valid (bytes_of s)"
  by (rule utf8_ascii) (auto simp: bytes_of_def word_le_nat_alt unat_of_nat)

lemma setting_printed:
  assumes "adb_service w serial (''shell:settings get '' @ setting) = Inr (bytes_of (printed @ [NL]))" and "aw_ends w"
    and "printed \<noteq> []" and "\<forall>c\<in>set printed. word_char c" and "printed \<noteq> ''null''"
  shows "adb_setting w serial setting = Inr printed"
proof -
  have "trim (printed @ [NL]) = printed" using assms(3,4) by (intro trim_line) simp_all
  moreover have "utf8_valid (bytes_of (printed @ [NL]))" using assms(4) by (intro utf8_text) (auto simp: word_char_def)
  ultimately show ?thesis
    using assms by (simp add: adb_setting_def setting_value_def text_of_bytes del: bytes_of_append)
qed

text \<open>C39: One phone is one device over the cable and over Bluetooth: the device id the USB thread takes from the
  address the phone prints (in either case, with its line end) is the one \<open>new_connection\<close> takes from the
  path BlueZ has for that address, so of two such links the daemon asks at most one.\<close>

theorem one_phone_one_device:
  assumes "is_bt_address (map upper_char printed)" and "aw_ends w"
    and "adb_service w serial (''shell:settings get '' @ ''secure bluetooth_address'') = Inr (bytes_of (printed @ [NL]))"
  shows "adb_device_id w serial = map upper_char printed
    \<and> bt_address (pre @ ''dev_'' @ dbus_text (map upper_char printed)) = Some (map upper_char printed)
    \<and> (\<forall>d i j. ldevice (heap d i) = adb_device_id w serial
        \<longrightarrow> Some (ldevice (heap d j)) = bt_address (pre @ ''dev_'' @ dbus_text (map upper_char printed))
        \<longrightarrow> i \<in> set (by_device d) \<longrightarrow> j \<in> set (by_device d) \<longrightarrow> i = j)"
proof -
  have ne: "printed \<noteq> []" using assms(1) by (auto simp: is_bt_address_def)
  have w: "\<forall>c\<in>set printed. word_char c"
    using bt_chars [OF assms(1)] hexdigit_upper by fastforce
  have "\<not> is_bt_address (map upper_char ''null'')" by code_simp
  then have "printed \<noteq> ''null''" using assms(1) by blast
  have "upper_text printed = map upper_char printed"
    using w by (intro upper_text_ascii) (simp add: word_char_def)
  then have a: "adb_device_id w serial = map upper_char printed"
    using \<open>printed \<noteq> ''null''\<close> assms(1) setting_printed [OF assms(3,2) ne w] by (simp add: adb_device_id_def or_default_def)
  have same: "i = j" if "ldevice (heap d i) = ldevice (heap d j)" "i \<in> set (by_device d)" "j \<in> set (by_device d)" for d i j
    using that by_device_distinct [of d] by (auto simp: distinct_map inj_on_def)
  note b = bt_address_dbus [OF assms(1), of pre]
  have "i = j" if "ldevice (heap d i) = adb_device_id w serial"
      and "Some (ldevice (heap d j)) = bt_address (pre @ ''dev_'' @ dbus_text (map upper_char printed))"
      and "i \<in> set (by_device d)" and "j \<in> set (by_device d)" for d i j
    using that(1,2) unfolding a b by (intro same [OF _ that(3,4)]) simp
  then show ?thesis using a b by blast
qed

theorem one_phone_one_device_witness:
  "adb_device_id (sample_wire (bytes_of (''a0:b1:c2:d3:e4:f5'' @ [NL]))) ''R5'' = ''A0:B1:C2:D3:E4:F5''
    \<and> bt_address ''/org/bluez/hci0/dev_A0_B1_C2_D3_E4_F5'' = Some ''A0:B1:C2:D3:E4:F5''"
proof -
  let ?w = "sample_wire (bytes_of (''a0:b1:c2:d3:e4:f5'' @ [NL]))"
  have u: "map upper_char ''a0:b1:c2:d3:e4:f5'' = ''A0:B1:C2:D3:E4:F5''" by code_simp
  have b: "is_bt_address (map upper_char ''a0:b1:c2:d3:e4:f5'')" by code_simp
  have d: "''/org/bluez/hci0/'' @ ''dev_'' @ dbus_text (map upper_char ''a0:b1:c2:d3:e4:f5'')
      = ''/org/bluez/hci0/dev_A0_B1_C2_D3_E4_F5''"
    by code_simp
  have e: "aw_ends ?w" by (simp add: sample_wire_def)
  have s: "adb_service ?w ''R5'' (''shell:settings get '' @ ''secure bluetooth_address'')
      = Inr (bytes_of (''a0:b1:c2:d3:e4:f5'' @ [NL]))"
    by (rule adb_service_granted) (simp_all add: sample_wire_def sample_trusted)
  note o = one_phone_one_device [OF b e s, of "''/org/bluez/hci0/''", unfolded d, unfolded u]
  show ?thesis by (rule conjI [OF conjunct1 [OF o] conjunct1 [OF conjunct2 [OF o]]])
qed

end
