(* ===== verification/Streams.thy ===== *)
theory Streams
  imports Wire
begin

text \<open>
  The byte streams under the wire protocol (src/src/daemon.rs: \<open>Stream\<close>, the loop of \<open>read_link\<close>;
  src/src/wifi.rs: \<open>TlsStream\<close>): a socket gives what has arrived, in pieces of any size; OpenSSL, on a socket that
  does not block, also asks to be called again once the socket is ready.  What the kernel and OpenSSL answer is
  a list of turns; when it is used up the reader still waits.
\<close>

section \<open>Waiting for the socket\<close>

datatype ssl_code = WANT_READ | WANT_WRITE | Other_Code

datatype poll_result = Poll_Ready | Poll_Zero | Poll_Interrupted | Poll_Failed

datatype stream_error = Tls_Failed | Timed_Out | Poll_Error | Socket_Error

fun poll_loop :: "poll_result list \<Rightarrow> (stream_error + unit) option" where
  "poll_loop [] = None"
| "poll_loop (p # ps) =
     (case p of
        Poll_Ready \<Rightarrow> Some (Inr ())
      | Poll_Zero \<Rightarrow> Some (Inl Timed_Out)
      | Poll_Interrupted \<Rightarrow> poll_loop ps
      | Poll_Failed \<Rightarrow> Some (Inl Poll_Error))"

definition tls_wait :: "ssl_code \<Rightarrow> poll_result list \<Rightarrow> (stream_error + unit) option" where
  "tls_wait code polls = (if code \<noteq> WANT_READ \<and> code \<noteq> WANT_WRITE then Some (Inl Tls_Failed) else poll_loop polls)"

section \<open>Reading and writing\<close>

text \<open>One call: what it gives and the stream after it; no bytes: the end of the stream.\<close>

datatype 's read_turn = Blocked | Broken stream_error | Bytes bytes 's

text \<open>One call of OpenSSL: at most so many more bytes than one, or its code and what \<open>poll\<close> then answers.\<close>

datatype ssl_turn = Ready nat | Not_Yet ssl_code "poll_result list"

type_synonym tls_state = "ssl_turn list \<times> bytes"

fun tls_read :: "nat \<Rightarrow> ssl_turn list \<Rightarrow> bytes \<Rightarrow> tls_state read_turn" where
  "tls_read n [] rest = Blocked"
| "tls_read n (Ready k # turns) rest =
     (let m = min n (Suc k) in Bytes (take m rest) (turns, drop m rest))"
| "tls_read n (Not_Yet code polls # turns) rest =
     (case tls_wait code polls of
        None \<Rightarrow> Blocked
      | Some (Inl e) \<Rightarrow> Broken e
      | Some (Inr _) \<Rightarrow> tls_read n turns rest)"

text \<open>\<open>write\<close>: the bytes of the buffer it takes.\<close>

fun tls_write :: "bytes \<Rightarrow> ssl_turn list \<Rightarrow> ssl_turn list read_turn" where
  "tls_write buffer [] = Blocked"
| "tls_write buffer (Ready k # turns) = Bytes (take (Suc k) buffer) turns"
| "tls_write buffer (Not_Yet code polls # turns) =
     (case tls_wait code polls of
        None \<Rightarrow> Blocked
      | Some (Inl e) \<Rightarrow> Broken e
      | Some (Inr _) \<Rightarrow> tls_write buffer turns)"

text \<open>A blocking socket: the sizes of the pieces in which the rest arrives, or an error.\<close>

type_synonym socket_state = "nat option list \<times> bytes"

definition socket_read :: "nat \<Rightarrow> socket_state \<Rightarrow> socket_state read_turn" where
  "socket_read n s =
     (case fst s of
        [] \<Rightarrow> Blocked
      | None # _ \<Rightarrow> Broken Socket_Error
      | Some k # ks \<Rightarrow> (let m = min n (Suc k) in Bytes (take m (snd s)) (ks, drop m (snd s))))"

definition socket_budget :: "socket_state \<Rightarrow> nat" where
  "socket_budget s = (if None \<in> set (fst s) then 0 else length (fst s))"

datatype stream = Tcp socket_state | Unix socket_state | Tls tls_state

definition map_turn :: "('s \<Rightarrow> 't) \<Rightarrow> 's read_turn \<Rightarrow> 't read_turn" where
  "map_turn f t = (case t of Blocked \<Rightarrow> Blocked | Broken e \<Rightarrow> Broken e | Bytes bs s \<Rightarrow> Bytes bs (f s))"

definition stream_read :: "nat \<Rightarrow> stream \<Rightarrow> stream read_turn" where
  "stream_read n s =
     (case s of
        Tcp t \<Rightarrow> map_turn Tcp (socket_read n t)
      | Unix t \<Rightarrow> map_turn Unix (socket_read n t)
      | Tls t \<Rightarrow> map_turn Tls (tls_read n (fst t) (snd t)))"

section \<open>Whole reads\<close>

text \<open>\<open>read_exact\<close> of the standard library over any \<open>read\<close>.\<close>

datatype 's exact = Full bytes 's | Waiting_Still | Ended | Lost stream_error

function read_exact :: "(nat \<Rightarrow> 's \<Rightarrow> 's read_turn) \<Rightarrow> nat \<Rightarrow> 's \<Rightarrow> 's exact" where
  "read_exact rd n s =
     (if n = 0 then Full [] s
      else case rd n s of
          Blocked \<Rightarrow> Waiting_Still
        | Broken e \<Rightarrow> Lost e
        | Bytes bs s1 \<Rightarrow>
            if bs = [] then Ended
            else (case read_exact rd (n - length bs) s1 of
                    Full cs s2 \<Rightarrow> Full (bs @ cs) s2
                  | other \<Rightarrow> other))"
  by pat_completeness auto
termination
  by (relation "measure (\<lambda>(rd, n, s). n)") auto

declare read_exact.simps [simp del]

lemma read_exact_0 [simp]: "read_exact rd 0 s = Full [] s"
  by (simp add: read_exact.simps)

text \<open>The loop of \<open>read_link\<close> on a stream, for at most so many frames.\<close>

datatype reader_end = Stopped link_end | Reading | Broke stream_error

fun link_reader :: "(nat \<Rightarrow> 's \<Rightarrow> 's read_turn) \<Rightarrow> nat \<Rightarrow> 's \<Rightarrow> link_event list \<times> reader_end" where
  "link_reader rd 0 s = ([], Reading)"
| "link_reader rd (Suc frames) s =
     (case read_exact rd 4 s of
        Waiting_Still \<Rightarrow> ([], Reading)
      | Lost e \<Rightarrow> ([], Broke e)
      | Ended \<Rightarrow> ([], Stopped Eof)
      | Full head s1 \<Rightarrow>
          (let len = unat (u32_from_be head) in
           if \<not> (1 \<le> len \<and> len \<le> 8192) then ([], Stopped (BadLength len))
           else
             (case read_exact rd len s1 of
                Waiting_Still \<Rightarrow> ([], Reading)
              | Lost e \<Rightarrow> ([], Broke e)
              | Ended \<Rightarrow> ([], Stopped Eof)
              | Full body s2 \<Rightarrow> (let (es, e) = link_reader rd frames s2 in (handle_body body @ es, e)))))"

section \<open>The contract of a byte source\<close>

text \<open>
  A source gives the bytes that are left in it, in order and without gaps, and says that it has ended only when
  none are left.  \<open>budget\<close> counts the calls that are sure to give something; each uses up at most one.
\<close>

locale byte_source =
  fixes rd :: "nat \<Rightarrow> 's \<Rightarrow> 's read_turn"
    and left :: "'s \<Rightarrow> bytes"
    and budget :: "'s \<Rightarrow> nat"
  assumes gives: "rd n s = Bytes bs s1 \<Longrightarrow> 0 < n \<Longrightarrow> left s = bs @ left s1 \<and> length bs \<le> n \<and> (bs = [] \<longrightarrow> left s = [])"
    and answers: "0 < budget s \<Longrightarrow> \<exists>bs s1. rd n s = Bytes bs s1 \<and> budget s \<le> Suc (budget s1)"
begin

lemma exact_full: "read_exact rd n s = Full bs s1 \<Longrightarrow> left s = bs @ left s1 \<and> length bs = n"
proof (induction n arbitrary: s bs rule: less_induct)
  case (less n)
  show ?case
  proof (cases "n = 0")
    case True
    with less.prems show ?thesis by simp
  next
    case False
    with less.prems obtain cs s2 ds where b: "rd n s = Bytes cs s2" "cs \<noteq> []"
      "read_exact rd (n - length cs) s2 = Full ds s1" "bs = cs @ ds"
      by (subst (asm) read_exact.simps) (auto split: read_turn.splits if_splits exact.splits)
    from less.IH [OF _ b(3)] b(1,2,4) gives [OF b(1)] False show ?thesis by simp
  qed
qed

lemma exact_ended: "read_exact rd n s = Ended \<Longrightarrow> length (left s) < n"
proof (induction n arbitrary: s rule: less_induct)
  case (less n)
  then have n: "n \<noteq> 0" by (cases "n = 0") simp_all
  with less.prems obtain cs s2 where b: "rd n s = Bytes cs s2"
    "cs = [] \<or> read_exact rd (n - length cs) s2 = Ended"
    by (subst (asm) read_exact.simps) (auto split: read_turn.splits if_splits exact.splits)
  note g = gives [OF b(1)]
  show ?case
  proof (cases "cs = []")
    case True
    with g n have "left s = []" by blast
    with n show ?thesis by simp
  next
    case False
    with less.IH [of "n - length cs" s2] b(2) n g show ?thesis by simp
  qed
qed

lemma exact_answers:
  "length (left s) < budget s \<Longrightarrow>
    (\<exists>bs s1. read_exact rd n s = Full bs s1 \<and> length (left s1) < budget s1) \<or> read_exact rd n s = Ended"
proof (induction n arbitrary: s rule: less_induct)
  case (less n)
  show ?case
  proof (cases "n = 0")
    case True
    with less.prems show ?thesis by simp
  next
    case False
    from less.prems obtain cs s2 where b: "rd n s = Bytes cs s2" "budget s \<le> Suc (budget s2)"
      using answers [of s n] by auto
    show ?thesis
    proof (cases "cs = []")
      case True
      with b False show ?thesis by (simp add: read_exact.simps [of rd n s])
    next
      case cs: False
      have "length (left s2) < length (left s)" using gives [OF b(1)] False cs by simp
      then have "length (left s2) < budget s2" using less.prems b(2) by simp
      from less.IH [OF _ this, of "n - length cs"] b(1) cs False show ?thesis
        by (auto simp: read_exact.simps [of rd n s])
    qed
  qed
qed

lemma next_frame_full:
  assumes "read_exact rd 4 s = Full head s1" and "1 \<le> unat (u32_from_be head)" and "unat (u32_from_be head) \<le> 8192"
  shows "read_exact rd (unat (u32_from_be head)) s1 = Full body s2 \<Longrightarrow> next_frame (left s) = Frame body (left s2)"
    and "read_exact rd (unat (u32_from_be head)) s1 = Ended \<Longrightarrow> next_frame (left s) = Stop Eof"
proof -
  have h: "left s = head @ left s1" "length head = 4" using exact_full [OF assms(1)] by simp_all
  show "next_frame (left s) = Frame body (left s2)" if b: "read_exact rd (unat (u32_from_be head)) s1 = Full body s2"
    using exact_full [OF b] h assms(2,3) by (simp add: next_frame_def Let_def)
  show "next_frame (left s) = Stop Eof" if b: "read_exact rd (unat (u32_from_be head)) s1 = Ended"
    using exact_ended [OF b] h assms(2,3) by (simp add: next_frame_def Let_def)
qed

lemma next_frame_head:
  "read_exact rd 4 s = Ended \<Longrightarrow> next_frame (left s) = Stop Eof"
  "read_exact rd 4 s = Full head s1 \<Longrightarrow> \<not> (1 \<le> unat (u32_from_be head) \<and> unat (u32_from_be head) \<le> 8192) \<Longrightarrow>
    next_frame (left s) = Stop (BadLength (unat (u32_from_be head)))"
  using exact_ended [of 4 s] exact_full [of 4 s head s1] by (simp_all add: next_frame_def Let_def)

text \<open>The loop on the stream sees what \<open>read_link\<close> sees on all the bytes: when it stops, exactly that, and
  until then a beginning of it.\<close>

lemma reader_refines:
  "link_reader rd frames s = (es, e) \<Longrightarrow>
    (case e of Stopped le \<Rightarrow> read_link (left s) = (es, le) | _ \<Rightarrow> \<exists>more. fst (read_link (left s)) = es @ more)"
proof (induction frames arbitrary: s es e)
  case (Suc frames)
  show ?case
  proof (cases "read_exact rd 4 s")
    case head: (Full head s1)
    let ?len = "unat (u32_from_be head)"
    show ?thesis
    proof (cases "1 \<le> ?len \<and> ?len \<le> 8192")
      case True
      show ?thesis
      proof (cases "read_exact rd ?len s1")
        case (Full body s2)
        obtain es2 e2 where r: "link_reader rd frames s2 = (es2, e2)" by fastforce
        have l: "es = handle_body body @ es2" "e = e2"
          using Suc.prems head True Full r by (simp_all add: Let_def)
        have n: "next_frame (left s) = Frame body (left s2)" using next_frame_full(1) [OF head] True Full by blast
        have "read_link (left s) = (handle_body body @ fst (read_link (left s2)), snd (read_link (left s2)))"
          by (subst read_link.simps) (simp add: n split_def Let_def)
        with Suc.IH [OF r] l show ?thesis by (cases e2) auto
      next
        case Ended
        then have "next_frame (left s) = Stop Eof" using next_frame_full(2) [OF head] True by blast
        then have "read_link (left s) = ([], Eof)" by (subst read_link.simps) simp
        with Suc.prems head True Ended show ?thesis by (auto simp: Let_def)
      qed (use Suc.prems head True in \<open>auto simp: Let_def\<close>)
    next
      case False
      then have "next_frame (left s) = Stop (BadLength ?len)" using next_frame_head(2) [OF head] by blast
      then have "read_link (left s) = ([], BadLength ?len)" by (subst read_link.simps) simp
      with Suc.prems head False show ?thesis by (auto simp: Let_def)
    qed
  next
    case Ended
    then have "next_frame (left s) = Stop Eof" by (rule next_frame_head(1))
    then have "read_link (left s) = ([], Eof)" by (subst read_link.simps) simp
    with Suc.prems Ended show ?thesis by auto
  qed (use Suc.prems in auto)
qed auto

lemma reader_stops:
  "length (left s) < budget s \<Longrightarrow> length (left s) < frames \<Longrightarrow> \<exists>es le. link_reader rd frames s = (es, Stopped le)"
proof (induction frames arbitrary: s)
  case (Suc frames)
  from exact_answers [OF Suc.prems(1), of 4]
  show ?case
  proof (elim disjE exE conjE)
    fix head s1
    let ?len = "unat (u32_from_be head)"
    assume h: "read_exact rd 4 s = Full head s1" "length (left s1) < budget s1"
    show ?thesis
    proof (cases "1 \<le> ?len \<and> ?len \<le> 8192")
      case True
      from exact_answers [OF h(2), of ?len] show ?thesis
      proof (elim disjE exE conjE)
        fix body s2
        assume b: "read_exact rd ?len s1 = Full body s2" "length (left s2) < budget s2"
        have "length (left s2) < length (left s)" using exact_full [OF h(1)] exact_full [OF b(1)] True by simp
        then have "length (left s2) < frames" using Suc.prems(2) by simp
        from Suc.IH [OF b(2) this] h(1) True b(1) show ?thesis by (auto simp: Let_def)
      qed (use h(1) True in \<open>simp add: Let_def\<close>)
    qed (use h(1) in \<open>auto simp: Let_def\<close>)
  qed simp
qed simp

end

section \<open>The streams of the daemon keep it\<close>

text \<open>Every time OpenSSL has to be called again it asks for the socket, and \<open>poll\<close> says it is ready.\<close>

fun calm :: "ssl_turn list \<Rightarrow> bool" where
  "calm [] = True"
| "calm (Ready k # turns) = calm turns"
| "calm (Not_Yet code polls # turns) = (tls_wait code polls = Some (Inr ()) \<and> calm turns)"

fun ready_turns :: "ssl_turn list \<Rightarrow> nat" where
  "ready_turns [] = 0"
| "ready_turns (Ready k # turns) = Suc (ready_turns turns)"
| "ready_turns (Not_Yet code polls # turns) = ready_turns turns"

definition tls_budget :: "tls_state \<Rightarrow> nat" where
  "tls_budget s = (if calm (fst s) then ready_turns (fst s) else 0)"

lemma tls_gives:
  "tls_read n turns rest = Bytes bs s1 \<Longrightarrow> 0 < n \<Longrightarrow> rest = bs @ snd s1 \<and> length bs \<le> n \<and> (bs = [] \<longrightarrow> rest = [])"
  by (induction n turns rest rule: tls_read.induct) (auto simp: Let_def split: option.splits sum.splits)

lemma tls_answers:
  "calm turns \<Longrightarrow> 0 < ready_turns turns \<Longrightarrow>
    \<exists>bs s1. tls_read n turns rest = Bytes bs s1 \<and> calm (fst s1) \<and> ready_turns turns = Suc (ready_turns (fst s1))"
  by (induction n turns rest rule: tls_read.induct) (auto simp: Let_def)

interpretation tls: byte_source "\<lambda>n s. tls_read n (fst s) (snd s)" snd tls_budget
proof
  show "snd s = bs @ snd s1 \<and> length bs \<le> n \<and> (bs = [] \<longrightarrow> snd s = [])"
    if "tls_read n (fst s) (snd s) = Bytes bs s1" "0 < n" for n s bs s1
    using tls_gives [OF that] .
  show "\<exists>bs s1. tls_read n (fst s) (snd s) = Bytes bs s1 \<and> tls_budget s \<le> Suc (tls_budget s1)"
    if "0 < tls_budget s" for s n
  proof -
    have c: "calm (fst s)" "0 < ready_turns (fst s)" using that by (simp_all add: tls_budget_def split: if_splits)
    from tls_answers [OF c, of n "snd s"] obtain bs s1 where "tls_read n (fst s) (snd s) = Bytes bs s1" "calm (fst s1)"
      "ready_turns (fst s) = Suc (ready_turns (fst s1))"
      by blast
    with c show ?thesis by (intro exI [of _ bs] exI [of _ s1]) (simp add: tls_budget_def)
  qed
qed

interpretation socket: byte_source socket_read snd socket_budget
proof
  show "snd s = bs @ snd s1 \<and> length bs \<le> n \<and> (bs = [] \<longrightarrow> snd s = [])"
    if "socket_read n s = Bytes bs s1" "0 < n" for n bs and s s1 :: socket_state
    using that by (auto simp: socket_read_def Let_def split: list.splits option.splits)
  show "\<exists>bs s1. socket_read n s = Bytes bs s1 \<and> socket_budget s \<le> Suc (socket_budget s1)"
    if "0 < socket_budget s" for n and s :: socket_state
  proof -
    from that obtain k ks where "fst s = Some k # ks" "None \<notin> set ks"
      by (cases "fst s"; cases "hd (fst s)") (auto simp: socket_budget_def split: if_splits)
    then show ?thesis by (simp add: socket_read_def socket_budget_def Let_def)
  qed
qed

definition stream_left :: "stream \<Rightarrow> bytes" where
  "stream_left s = (case s of Tcp t \<Rightarrow> snd t | Unix t \<Rightarrow> snd t | Tls t \<Rightarrow> snd t)"

definition stream_budget :: "stream \<Rightarrow> nat" where
  "stream_budget s = (case s of Tcp t \<Rightarrow> socket_budget t | Unix t \<Rightarrow> socket_budget t | Tls t \<Rightarrow> tls_budget t)"

lemma map_turn_Bytes: "map_turn f t = Bytes bs s1 \<longleftrightarrow> (\<exists>s0. t = Bytes bs s0 \<and> s1 = f s0)"
  by (cases t) (auto simp: map_turn_def)

interpretation streams: byte_source stream_read stream_left stream_budget
proof
  show "stream_left s = bs @ stream_left s1 \<and> length bs \<le> n \<and> (bs = [] \<longrightarrow> stream_left s = [])"
    if "stream_read n s = Bytes bs s1" "0 < n" for n s bs s1
    using that socket.gives [of n _ bs] tls.gives [of n _ bs]
    by (cases s) (auto simp: stream_read_def stream_left_def map_turn_Bytes)
  show "\<exists>bs s1. stream_read n s = Bytes bs s1 \<and> stream_budget s \<le> Suc (stream_budget s1)"
    if "0 < stream_budget s" for s n
  proof (cases s)
    case (Tcp t)
    with that socket.answers [of t n] show ?thesis by (auto simp: stream_read_def stream_budget_def map_turn_Bytes)
  next
    case (Unix t)
    with that socket.answers [of t n] show ?thesis by (auto simp: stream_read_def stream_budget_def map_turn_Bytes)
  next
    case (Tls t)
    with that obtain bs t1 where "tls_read n (fst t) (snd t) = Bytes bs t1" "tls_budget t \<le> Suc (tls_budget t1)"
      using tls.answers [of t n] by (auto simp: stream_budget_def)
    with Tls show ?thesis
      by (intro exI [of _ bs] exI [of _ "Tls t1"]) (simp add: stream_read_def stream_budget_def map_turn_Bytes)
  qed
qed

section \<open>Properties\<close>

text \<open>C26: The reader of a connection, over a TCP or Bluetooth socket or a TLS session, sees exactly the frames in the
  bytes the phone sends, however these are cut into pieces, however often OpenSSL asks to be called
  again and however often waiting is interrupted: when it stops it has produced the events of \<open>read_link\<close> on all
  the bytes and stops for the same reason, until then (or if the connection breaks) a beginning of them; and it
  does stop, within as many frames as there are bytes, once the stream has answered more often than it
  has bytes.\<close>

theorem reader_refines_bytes:
  "(case link_reader stream_read frames s of
      (es, Stopped le) \<Rightarrow> read_link (stream_left s) = (es, le)
    | (es, _) \<Rightarrow> \<exists>more. fst (read_link (stream_left s)) = es @ more)
    \<and> (length (stream_left s) < stream_budget s \<and> length (stream_left s) < frames \<longrightarrow>
        link_reader stream_read frames s = (fst (read_link (stream_left s)), Stopped (snd (read_link (stream_left s)))))"
proof -
  obtain es e where r: "link_reader stream_read frames s = (es, e)" by fastforce
  note ref = streams.reader_refines [OF r]
  have "link_reader stream_read frames s = (fst (read_link (stream_left s)), Stopped (snd (read_link (stream_left s))))"
    if "length (stream_left s) < stream_budget s" "length (stream_left s) < frames"
    using streams.reader_stops [OF that] r ref by auto
  moreover have "(case (es, e) of
      (es, Stopped le) \<Rightarrow> read_link (stream_left s) = (es, le)
    | (es, _) \<Rightarrow> \<exists>more. fst (read_link (stream_left s)) = es @ more)"
    using ref by (cases e) simp_all
  ultimately show ?thesis unfolding r by blast
qed

definition sample_tls :: stream where
  "sample_tls = Tls ([Not_Yet WANT_READ [Poll_Interrupted, Poll_Ready], Ready 0, Ready 9, Ready 9, Ready 9, Ready 9, Ready 9,
     Ready 9], [0, 0, 0, 1, PONG])"

theorem reader_refines_bytes_witness:
  "link_reader stream_read 6 sample_tls = ([Pong], Stopped Eof)"
proof -
  have b: "stream_left sample_tls = [0, 0, 0, 1, PONG]" "stream_budget sample_tls = 7"
    by (simp_all add: sample_tls_def stream_left_def stream_budget_def tls_budget_def tls_wait_def)
  have "read_link [0, 0, 0, 1, PONG] = ([Pong], Eof)" by code_simp
  then show ?thesis
    using reader_refines_bytes [of sample_tls 6] unfolding b by simp
qed

text \<open>Writing: what is handed to the peer is a beginning of the buffer, and never nothing of a message.\<close>

lemma tls_write_prefix:
  "tls_write buffer turns = Bytes bs ts \<Longrightarrow> \<exists>k. bs = take (Suc k) buffer"
  by (induction buffer turns rule: tls_write.induct) (auto split: option.splits sum.splits)

end
