(* ===== verification/Helper_Process.thy ===== *)
theory Helper_Process
  imports Prelude
begin

text \<open>
  How the PAM module starts and stops the helper (src/pam/src/lib.rs: \<open>Ask::start\<close>, \<open>Ask::stop\<close> and its
  \<open>Drop\<close>), on the tables of open files: the module's host is any program, so the numbers the pipe gets are
  whatever is free there.  The kernel's choices are arguments.
\<close>

section \<open>Open files\<close>

datatype target = Pipe_Read | Pipe_Write | Null_Device | Pid_File | Host_File nat

record open_file =
  what :: target
  cloexec :: bool

type_synonym fds = "nat \<rightharpoonup> open_file"

text \<open>\<open>pipe2(O_CLOEXEC)\<close>: two free numbers.\<close>

definition pipe2 :: "nat \<Rightarrow> nat \<Rightarrow> fds \<Rightarrow> fds" where
  "pipe2 r w t = t(r \<mapsto> \<lparr>what = Pipe_Read, cloexec = True\<rparr>, w \<mapsto> \<lparr>what = Pipe_Write, cloexec = True\<rparr>)"

text \<open>\<open>dup2\<close>: nothing changes when both numbers are the same.\<close>

definition dup2 :: "nat \<Rightarrow> nat \<Rightarrow> fds \<Rightarrow> fds" where
  "dup2 a b t =
     (if a = b then t
      else case t a of None \<Rightarrow> t | Some f \<Rightarrow> t(b \<mapsto> f\<lparr>cloexec := False\<rparr>))"

definition clear_cloexec :: "nat \<Rightarrow> fds \<Rightarrow> fds" where
  "clear_cloexec a t = (case t a of None \<Rightarrow> t | Some f \<Rightarrow> t(a \<mapsto> f\<lparr>cloexec := False\<rparr>))"

definition close_fd :: "nat \<Rightarrow> fds \<Rightarrow> fds" where
  "close_fd a t = t(a := None)"

definition exec_fds :: "fds \<Rightarrow> fds" where
  "exec_fds t = (\<lambda>a. case t a of Some f \<Rightarrow> if cloexec f then None else Some f | None \<Rightarrow> None)"

section \<open>Starting\<close>

text \<open>The child between fork and exec: \<open>Command\<close> puts the null device on 0 and 1, then \<open>pre_exec\<close> runs.\<close>

definition child_fds :: "nat \<Rightarrow> fds \<Rightarrow> fds" where
  "child_fds w t =
     (let null = \<lparr>what = Null_Device, cloexec = False\<rparr>
      in exec_fds (clear_cloexec 3 (dup2 w 3 (t(0 \<mapsto> null, 1 \<mapsto> null)))))"

text \<open>What \<open>start\<close> gives: the command line and the open files of the helper, if there is one, and the host's
  open files.  \<open>pidfd\<close> is the number the kernel gives the process, if it can.\<close>

record started =
  command_line :: "string list"
  helper_fds :: fds
  result_fd :: nat
  pid_fd :: "nat option"

definition ask_process ::
    "bool \<Rightarrow> bool \<Rightarrow> nat \<Rightarrow> nat \<Rightarrow> nat option \<Rightarrow> string \<Rightarrow> string \<Rightarrow> string list \<Rightarrow> fds \<Rightarrow> started option \<times> fds" where
  "ask_process piped spawned r w pidfd program user options t =
     (if \<not> piped then (None, t)
      else
        let t1 = pipe2 r w t; t2 = close_fd w t1 in
        if \<not> spawned then (None, close_fd r t2)
        else (Some \<lparr>command_line = program # ''pam-auth'' # user # options, helper_fds = child_fds w t1,
                    result_fd = r, pid_fd = pidfd\<rparr>,
              case pidfd of None \<Rightarrow> t2 | Some p \<Rightarrow> t2(p \<mapsto> \<lparr>what = Pid_File, cloexec = True\<rparr>)))"

text \<open>\<open>stop\<close>, when the value is dropped: what is sent to the process, and the host's open files.\<close>

datatype signal = Kill_By_Pidfd | Kill_Child

definition stop_process :: "started \<Rightarrow> fds \<Rightarrow> signal list \<times> fds" where
  "stop_process p t =
     (case pid_fd p of
        Some n \<Rightarrow> ([Kill_By_Pidfd], close_fd (result_fd p) (close_fd n t))
      | None \<Rightarrow> ([Kill_Child], close_fd (result_fd p) t))"

lemmas fd_defs = pipe2_def dup2_def clear_cloexec_def close_fd_def exec_fds_def child_fds_def Let_def

text \<open>The helper's open files, from those of the host.\<close>

lemma helper_files:
  assumes "1 < w" and "r \<noteq> w" and "1 < r"
  shows "child_fds w (pipe2 r w t) a =
    (if a = 3 then Some \<lparr>what = Pipe_Write, cloexec = False\<rparr>
     else if a = 0 \<or> a = 1 then Some \<lparr>what = Null_Device, cloexec = False\<rparr>
     else if a = r \<or> a = w then None
     else exec_fds t a)"
  using assms by (auto simp: fd_defs split: option.split)

lemma host_files:
  assumes "t r = None" and "t w = None" and "r \<noteq> w"
  shows "close_fd r (close_fd w (pipe2 r w t)) = t"
  using assms by (auto simp: fd_defs fun_upd_def)

section \<open>Properties\<close>

text \<open>C20: The helper, and nobody else, holds the end of the pipe it approves through: in any host that has its
  standard input and output open, the helper's descriptor 3 is the writing end whatever numbers the pipe got,
  it has no other descriptor of the pipe, and the host has no writing end left, so the module sees the pipe end when the
  helper does.  The helper reads and writes the null device, and gets no file the host closes on exec.  A
  helper that could not be started leaves the host's files as they were, and so does stopping one.\<close>

theorem helper_holds_pipe:
  assumes "t r = None" and "t w = None" and "r \<noteq> w" and "1 < r" and "1 < w"
    and "\<forall>a f. t a = Some f \<longrightarrow> what f \<notin> {Pipe_Read, Pipe_Write}"
    and "\<forall>n. pidfd = Some n \<longrightarrow> t n = None \<and> n \<noteq> r"
    and "ask_process piped spawned r w pidfd program user options t = (result, t1)"
  shows "(case result of
      None \<Rightarrow> t1 = t
    | Some p \<Rightarrow>
        {a. \<exists>f. helper_fds p a = Some f \<and> what f \<in> {Pipe_Read, Pipe_Write}} = {3}
        \<and> helper_fds p 3 = Some \<lparr>what = Pipe_Write, cloexec = False\<rparr>
        \<and> {a. \<exists>f. t1 a = Some f \<and> what f = Pipe_Write} = {}
        \<and> map_option what (helper_fds p 0) = Some Null_Device \<and> map_option what (helper_fds p 1) = Some Null_Device
        \<and> {a. helper_fds p a \<noteq> None} \<subseteq> {0, 1, 3} \<union> {a. \<exists>f. t a = Some f \<and> \<not> cloexec f}
        \<and> command_line p = program # ''pam-auth'' # user # options
        \<and> snd (stop_process p t1) = t)"
proof (cases result)
  case None
  then have "t1 = t \<or> t1 = close_fd r (close_fd w (pipe2 r w t))"
    using assms(8) by (auto simp: ask_process_def Let_def split: if_splits)
  with host_files [OF assms(1-3)] None show ?thesis by auto
next
  case (Some p)
  have p: "helper_fds p = child_fds w (pipe2 r w t)" "result_fd p = r" "pid_fd p = pidfd"
    "command_line p = program # ''pam-auth'' # user # options"
    and t1: "t1 = (case pidfd of None \<Rightarrow> close_fd w (pipe2 r w t)
        | Some n \<Rightarrow> (close_fd w (pipe2 r w t))(n \<mapsto> \<lparr>what = Pid_File, cloexec = True\<rparr>))"
    using assms(8) Some by (auto simp: ask_process_def Let_def split: if_splits)
  note files = helper_files [OF assms(5,3,4), of t]
  have "{a. \<exists>f. helper_fds p a = Some f \<and> what f \<in> {Pipe_Read, Pipe_Write}} = {3}"
    using assms(6) unfolding p(1) files by (auto simp: exec_fds_def split: option.splits if_splits)
  moreover have "helper_fds p 3 = Some \<lparr>what = Pipe_Write, cloexec = False\<rparr>"
    "map_option what (helper_fds p 0) = Some Null_Device" "map_option what (helper_fds p 1) = Some Null_Device"
    unfolding p(1) files by simp_all
  moreover have "what f \<noteq> Pipe_Write" if "t1 a = Some f" for a f
    using that assms(3,6) unfolding t1 by (auto simp: fd_defs split: option.splits if_splits)
  moreover have "{a. helper_fds p a \<noteq> None} \<subseteq> {0, 1, 3} \<union> {a. \<exists>f. t a = Some f \<and> \<not> cloexec f}"
    unfolding p(1) files by (auto simp: exec_fds_def split: option.splits if_splits)
  moreover have "snd (stop_process p t1) = t"
  proof (cases pidfd)
    case None
    then show ?thesis using host_files [OF assms(1-3)] by (simp add: stop_process_def p t1)
  next
    case (Some n)
    have "close_fd r (close_fd n ((close_fd w (pipe2 r w t))(n \<mapsto> x))) = t" for x
    proof
      fix a
      show "close_fd r (close_fd n ((close_fd w (pipe2 r w t))(n \<mapsto> x))) a = t a"
        using assms(1-3,7) Some by (auto simp: fd_defs)
    qed
    then show ?thesis by (simp add: stop_process_def p t1 Some)
  qed
  ultimately show ?thesis using p(4) Some by auto
qed

definition sample_host :: fds where
  "sample_host = [0 \<mapsto> \<lparr>what = Host_File 0, cloexec = False\<rparr>, 1 \<mapsto> \<lparr>what = Host_File 1, cloexec = False\<rparr>]"

theorem helper_holds_pipe_witness:
  "\<exists>p t1. ask_process True True 2 3 None ''passkey'' ''me'' [] sample_host = (Some p, t1)
    \<and> helper_fds p 3 = Some \<lparr>what = Pipe_Write, cloexec = False\<rparr> \<and> snd (stop_process p t1) = sample_host"
proof -
  obtain p t1 where a: "ask_process True True 2 3 None ''passkey'' ''me'' [] sample_host = (Some p, t1)"
    by (simp add: ask_process_def Let_def)
  have "sample_host 2 = None" "sample_host 3 = None"
    "\<forall>a f. sample_host a = Some f \<longrightarrow> what f \<notin> {Pipe_Read, Pipe_Write}"
    by (auto simp: sample_host_def split: if_splits)
  with helper_holds_pipe [of sample_host 2 3 None True True "''passkey''" "''me''" "[]" "Some p" t1] a show ?thesis
    by auto
qed

text \<open>In a host without standard input and output the pipe gets the numbers 0 and 1, and the null device is put
  over its ends in the child: the helper's descriptor 3 is the null device, and no approval arrives.\<close>

lemma pipe_lost_without_stdio: "map_option what (child_fds 1 (pipe2 0 1 t) 3) = Some Null_Device"
  by (simp add: fd_defs)

end
